(* ===== verification/Prelude.thy ===== *)
theory Prelude
  imports Main "HOL-Library.Word"
begin

text \<open>
  Shared vocabulary of the development: bytes, the faults that end a run of the C++ program
  (a failed \<open>assert\<close>, an access outside an array, a division by zero, a conversion
  of a floating point value that has no integer, a read of an indeterminate value, a busy wait that is not answered), the result type
  \<open>fault + 'a\<close> with its sequencing combinators, and the two ways the program looks at
  memory: as bytes (\<open>memcpy\<close>, \<open>memset\<close>) and as a little-endian bit vector
  (\<open>(data[i / 8] >> (i % 8)) & 1\<close>).
\<close>

unbundle bit_operations_syntax

type_synonym byte = "8 word"

section \<open>Results and faults\<close>

datatype fault =
    AssertionFailed
  | OutOfBounds
  | DivisionByZero
  | BadConversion
  | Uninitialised
  | Diverges

type_synonym 'a result = "fault + 'a"

text \<open>
  \<open>bindR\<close> runs the rest of a function unless a fault has ended the program;
  \<open>check_then\<close> is the idiom \<open>if (!op()) return false;\<close> of the sources.
\<close>

definition bindR :: "'a result \<Rightarrow> ('a \<Rightarrow> 'b result) \<Rightarrow> 'b result" where
  "bindR m f = (case m of Inl e \<Rightarrow> Inl e | Inr x \<Rightarrow> f x)"

definition check_then :: "(bool \<times> 's) result \<Rightarrow> ('s \<Rightarrow> (bool \<times> 's) result) \<Rightarrow> (bool \<times> 's) result" where
  "check_then m f = bindR m (\<lambda>(ok, s). if ok then f s else Inr (False, s))"

named_theorems result_iff

lemma bindR_simps [simp]:
  "bindR (Inl e) f = Inl e"
  "bindR (Inr x) f = f x"
  by (simp_all add: bindR_def)

lemma bindR_Inr_iff [result_iff]:
  "bindR m f = Inr y \<longleftrightarrow> (\<exists>x. m = Inr x \<and> f x = Inr y)"
  by (cases m) simp_all

lemma bindR_assoc: "bindR (bindR m f) g = bindR m (\<lambda>x. bindR (f x) g)"
  by (cases m) simp_all

lemma check_then_simps [simp]:
  "check_then (Inl e) f = Inl e"
  "check_then (Inr (True, s)) f = f s"
  "check_then (Inr (False, s)) f = Inr (False, s)"
  by (simp_all add: check_then_def)

lemma check_then_Inr_iff [result_iff]:
  "check_then m f = Inr r \<longleftrightarrow>
     (\<exists>s. m = Inr (True, s) \<and> f s = Inr r) \<or> (\<exists>s. m = Inr (False, s) \<and> r = (False, s))"
  by (cases m) (auto simp: check_then_def split: if_splits)

lemma check_then_True_iff [result_iff]:
  "check_then m f = Inr (True, t) \<longleftrightarrow> (\<exists>s. m = Inr (True, s) \<and> f s = Inr (True, t))"
  by (auto simp: check_then_Inr_iff)

lemma check_then_assoc: "check_then (check_then m f) g = check_then m (\<lambda>s. check_then (f s) g)"
  by (cases m) (auto simp: check_then_def)

section \<open>Byte memory\<close>

text \<open>
  \<open>write_at xs off ys\<close> is \<open>memcpy(&xs[off], ys, length ys)\<close>; the callers check the
  bounds first, so that a write outside the array is a fault and not a longer list.
\<close>

definition write_at :: "'a list \<Rightarrow> nat \<Rightarrow> 'a list \<Rightarrow> 'a list" where
  "write_at xs off ys = take off xs @ ys @ drop (off + length ys) xs"

lemma length_write_at [simp]:
  "off + length ys \<le> length xs \<Longrightarrow> length (write_at xs off ys) = length xs"
  by (simp add: write_at_def)

lemma take_write_at [simp]:
  "off + length ys \<le> length xs \<Longrightarrow> take (off + length ys) (write_at xs off ys) = take off xs @ ys"
  by (simp add: write_at_def)

lemma write_at_nth:
  "off + length ys \<le> length xs \<Longrightarrow> i < length xs \<Longrightarrow>
     write_at xs off ys ! i = (if off \<le> i \<and> i < off + length ys then ys ! (i - off) else xs ! i)"
  by (auto simp: write_at_def nth_append)

lemma write_at_append:
  "off + length xs \<le> length buf \<Longrightarrow>
     write_at (write_at buf off xs) (off + length xs) ys = write_at buf off (xs @ ys)"
  by (simp add: write_at_def ac_simps)

lemma take_Suc_upd: "p < length xs \<Longrightarrow> take (Suc p) (xs[p := b]) = take p xs @ [b]"
  by (simp add: take_Suc_conv_app_nth)

lemma take_drop_join: "take a (drop n xs) @ take b (drop (n + a) xs) = take (a + b) (drop n xs)"
proof -
  have "drop (n + a) xs = drop a (drop n xs)" by (simp add: add.commute)
  then show ?thesis by (simp only: take_add)
qed

section \<open>Bit vectors in byte memory\<close>

definition bit_at :: "byte list \<Rightarrow> nat \<Rightarrow> bool" where
  "bit_at data i = bit (data ! (i div 8)) (i mod 8)"

definition read_bit :: "byte list \<Rightarrow> nat \<Rightarrow> bool result" where
  "read_bit data i = (if i div 8 < length data then Inr (bit_at data i) else Inl OutOfBounds)"

definition bits_of :: "byte list \<Rightarrow> nat \<Rightarrow> bool list" where
  "bits_of data n = map (bit_at data) [0..<n]"

text \<open>\<open>or_bit buf i b\<close> is \<open>buf[i / 8] |= b << (i % 8)\<close>.\<close>

definition or_bit :: "byte list \<Rightarrow> nat \<Rightarrow> bool \<Rightarrow> byte list" where
  "or_bit buf i b = buf[i div 8 := buf ! (i div 8) OR push_bit (i mod 8) (of_bool b)]"

lemma bit_div_less: "i < 8 * length data \<Longrightarrow> i div 8 < length (data :: byte list)"
  by (simp add: less_mult_imp_div_less mult.commute)

lemma div_less_bits: "i div 8 < m \<longleftrightarrow> i < 8 * m" for i m :: nat
  by (simp add: div_less_iff_less_mult mult.commute)

lemma read_bit_Inr [simp]: "i < 8 * length data \<Longrightarrow> read_bit data i = Inr (bit_at data i)"
  by (simp add: read_bit_def bit_div_less)

lemma read_bit_Inl [simp]: "8 * length data \<le> i \<Longrightarrow> read_bit data i = Inl OutOfBounds"
  by (simp add: read_bit_def div_less_bits)

lemma length_bits_of [simp]: "length (bits_of data n) = n"
  by (simp add: bits_of_def)

lemma nth_bits_of [simp]: "i < n \<Longrightarrow> bits_of data n ! i = bit_at data i"
  by (simp add: bits_of_def)

lemma take_bits_of [simp]: "k \<le> n \<Longrightarrow> take k (bits_of data n) = bits_of data k"
  by (simp add: bits_of_def take_map)

lemma bits_of_Suc: "bits_of data (Suc n) = bits_of data n @ [bit_at data n]"
  by (simp add: bits_of_def)

lemma bits_of_0 [simp]: "bits_of data 0 = []"
  by (simp add: bits_of_def)

lemma length_or_bit [simp]: "length (or_bit buf i b) = length buf"
  by (simp add: or_bit_def)

lemma bit_at_or_bit:
  assumes "i < 8 * length buf"
  shows "bit_at (or_bit buf i b) j = (bit_at buf j \<or> (b \<and> j = i))"
proof (cases "j div 8 = i div 8")
  case True
  have "i div 8 < length buf" using assms by (rule bit_div_less)
  moreover have "j mod 8 = i mod 8 \<longleftrightarrow> j = i"
    using True by (metis mod_div_decomp)
  moreover have "i mod 8 < 8" "j mod 8 < 8" by simp_all
  ultimately show ?thesis
    using True by (auto simp: bit_at_def or_bit_def bit_or_iff bit_push_bit_iff bit_1_iff)
next
  case False
  then show ?thesis by (auto simp: bit_at_def or_bit_def)
qed

lemma bit_at_zeros [simp]: "i < 8 * n \<Longrightarrow> bit_at (replicate n 0) i = False"
  by (simp add: bit_at_def div_less_bits)

lemma bit_at_append:
  "bit_at (xs @ ys) i = (if i < 8 * length xs then bit_at xs i else bit_at ys (i - 8 * length xs))"
proof (cases "i < 8 * length xs")
  case True
  then show ?thesis by (simp add: bit_at_def nth_append div_less_bits)
next
  case False
  then obtain k where "i = 8 * length xs + k" using le_Suc_ex not_less by blast
  then show ?thesis by (simp add: bit_at_def nth_append)
qed

lemma bits_of_append: "bits_of (r @ q) (8 * length r + n) = bits_of r (8 * length r) @ bits_of q n"
  by (rule nth_equalityI) (auto simp: bits_of_def nth_append bit_at_append)

lemma bit_at_Cons: "bit_at (x # xs) i = (if i < 8 then bit x i else bit_at xs (i - 8))"
  using bit_at_append [of "[x]" xs i] by (auto simp: bit_at_def)

lemma bit_at_8: "j < 8 \<Longrightarrow> bit_at data (8 * i + j) = bit (data ! i) j"
  by (simp add: bit_at_def)

lemma bit_at_take: "i < 8 * k \<Longrightarrow> bit_at (take k data) i = bit_at data i"
  by (simp add: bit_at_def div_less_bits)

lemma bit_at_drop: "bit_at (drop k data) i = bit_at data (8 * k + i)" if "k \<le> length data"
  using that by (simp add: bit_at_def)

lemma map_upt_shift: "map (\<lambda>j. f (a + j)) [0..<k] = map f [a..<a + k]"
  by (rule nth_equalityI) auto

text \<open>Mapping over a range in chunks of \<open>c\<close> is mapping over the range.\<close>

lemma concat_chunks:
  "concat (map (\<lambda>i. map (\<lambda>j. f (c * i + j)) [0..<min c (n - c * i)]) [0..<m]) = map f [0..<min n (c * m)]"
proof (induction m)
  case 0
  then show ?case by simp
next
  case (Suc m)
  have "map f [0..<min n (c * m)] @ map f [c * m..<c * m + min c (n - c * m)] = map f [0..<min n (c * Suc m)]"
  proof (cases "n \<le> c * m")
    case True
    then show ?thesis by simp
  next
    case False
    then have e: "min n (c * Suc m) = c * m + min c (n - c * m)" "min n (c * m) = c * m" by auto
    show ?thesis unfolding e by (simp flip: map_append upt_add_eq_append)
  qed
  with Suc.IH map_upt_shift [of f "c * m" "min c (n - c * m)"] show ?case by simp
qed

lemma bit_at_write_front:
  assumes "length xs \<le> length buf"
  shows "bit_at (write_at buf 0 xs) i = (if i < 8 * length xs then bit_at xs i else bit_at buf i)"
proof (cases "i < 8 * length xs")
  case True
  then show ?thesis by (simp add: write_at_def bit_at_append)
next
  case False
  then obtain m where "i = 8 * length xs + m" using le_Suc_ex not_less by blast
  with assms show ?thesis by (simp add: write_at_def bit_at_append bit_at_def)
qed

lemma byte_eqI: "(\<And>i. i < 8 \<Longrightarrow> bit x i = bit y i) \<Longrightarrow> x = y" for x y :: byte
  by (rule bit_word_eqI) simp

text \<open>
  Copying \<open>k\<close> bits starting at bit \<open>i\<close> of \<open>src\<close> into \<open>dst\<close> from bit \<open>off\<close> on, one
  \<open>|=\<close> per bit: the loop the servers use to cut a region out of a bit vector.
\<close>

fun copy_bits :: "byte list \<Rightarrow> nat \<Rightarrow> nat \<Rightarrow> byte list \<Rightarrow> nat \<Rightarrow> byte list result" where
  "copy_bits src i 0 dst off = Inr dst"
| "copy_bits src i (Suc k) dst off =
     bindR (read_bit src i) (\<lambda>b.
       if off div 8 < length dst then copy_bits src (Suc i) k (or_bit dst off b) (Suc off)
       else Inl OutOfBounds)"

lemma copy_bits_ok:
  assumes "i + k \<le> 8 * length src" "off + k \<le> 8 * length dst"
  shows "\<exists>dst'. copy_bits src i k dst off = Inr dst' \<and> length dst' = length dst \<and>
     (\<forall>j. bit_at dst' j = (bit_at dst j \<or> (off \<le> j \<and> j < off + k \<and> bit_at src (i + (j - off)))))"
  using assms
proof (induction k arbitrary: i dst off)
  case 0
  then show ?case by auto
next
  case (Suc k)
  from Suc.prems have i: "i < 8 * length src" and o: "off < 8 * length dst" by simp_all
  let ?d = "or_bit dst off (bit_at src i)"
  from Suc.IH [of "Suc i" "Suc off" ?d] Suc.prems obtain dst' where
    d: "copy_bits src (Suc i) k ?d (Suc off) = Inr dst'" "length dst' = length dst"
    and b: "\<And>j. bit_at dst' j = (bit_at ?d j \<or>
      (Suc off \<le> j \<and> j < Suc off + k \<and> bit_at src (Suc i + (j - Suc off))))"
    by auto
  have "bit_at dst' j = (bit_at dst j \<or> (off \<le> j \<and> j < off + Suc k \<and> bit_at src (i + (j - off))))" for j
  proof (cases "j = off")
    case True
    then show ?thesis using b [of j] by (simp add: bit_at_or_bit o)
  next
    case False
    then have "Suc off \<le> j \<longleftrightarrow> off \<le> j" by auto
    moreover have "Suc off \<le> j \<Longrightarrow> Suc i + (j - Suc off) = i + (j - off)" by auto
    ultimately show ?thesis using b [of j] False by (auto simp: bit_at_or_bit o)
  qed
  with d i o show ?case by (auto simp: div_less_bits)
qed

section \<open>Integers in byte memory\<close>

text \<open>Little-endian \<open>uint32_t\<close> (the host's order) and big-endian (\<open>htonl\<close>, \<open>ntohl\<close>).\<close>

definition le32 :: "byte \<Rightarrow> byte \<Rightarrow> byte \<Rightarrow> byte \<Rightarrow> 32 word" where
  "le32 b0 b1 b2 b3 = ucast b0 OR push_bit 8 (ucast b1) OR push_bit 16 (ucast b2) OR push_bit 24 (ucast b3)"

text \<open>A byte from its bits, and byte lists compared bit by bit.\<close>

definition packed :: "bool list \<Rightarrow> byte" where
  "packed bs = horner_sum of_bool 2 bs"

lemma bit_packed: "bit (packed bs) i \<longleftrightarrow> i < 8 \<and> i < length bs \<and> bs ! i"
  by (auto simp: packed_def bit_horner_sum_bit_word_iff)

lemma bytes_eq_bits:
  assumes "length xs = length ys" "\<And>i. i < 8 * length ys \<Longrightarrow> bit_at xs i = bit_at ys i"
  shows "xs = ys"
proof (rule nth_equalityI)
  fix k assume k: "k < length xs"
  show "xs ! k = ys ! k"
  proof (rule bit_word_eqI)
    fix j assume "j < LENGTH(8)"
    then have j: "j < 8" by simp
    then have "8 * k + j < 8 * length ys" using k assms(1) by linarith
    from assms(2) [OF this] show "bit (xs ! k) j = bit (ys ! k) j" by (simp add: bit_at_8 j)
  qed
qed (rule assms(1))


definition le32_bytes :: "32 word \<Rightarrow> byte list" where
  "le32_bytes w = [ucast w, ucast (drop_bit 8 w), ucast (drop_bit 16 w), ucast (drop_bit 24 w)]"

definition be32_bytes :: "32 word \<Rightarrow> byte list" where
  "be32_bytes w = rev (le32_bytes w)"

lemma length_le32_bytes [simp]: "length (le32_bytes w) = 4" "length (be32_bytes w) = 4"
  by (simp_all add: le32_bytes_def be32_bytes_def)

lemma bit_le32:
  "bit (le32 b0 b1 b2 b3) i =
     (if i < 8 then bit b0 i else if i < 16 then bit b1 (i - 8)
      else if i < 24 then bit b2 (i - 16) else i < 32 \<and> bit b3 (i - 24))"
  by (auto simp: le32_def bit_or_iff bit_push_bit_iff bit_ucast_iff dest: bit_imp_le_length)

text \<open>\<open>memcpy(&x, p, 4)\<close> for a 32 bit \<open>x\<close>, and \<open>ntohl\<close> of the result.\<close>

definition load_le32 :: "byte list \<Rightarrow> 32 word" where
  "load_le32 bs = le32 (bs ! 0) (bs ! 1) (bs ! 2) (bs ! 3)"

definition load_be32 :: "byte list \<Rightarrow> 32 word" where
  "load_be32 bs = load_le32 (rev bs)"

lemma le32_le32_bytes:
  "le32 (ucast w) (ucast (drop_bit 8 w)) (ucast (drop_bit 16 w)) (ucast (drop_bit 24 w)) = w"
  by (rule bit_word_eqI) (auto simp: bit_le32 bit_ucast_iff bit_drop_bit_eq)

lemma le32_bytes_load:
  assumes "length bs = 4"
  shows "le32_bytes (load_le32 bs) = bs"
proof -
  obtain a b c d where bs: "bs = [a, b, c, d]" using assms by (auto simp: numeral_eq_Suc length_Suc_conv)
  have "ucast (le32 a b c d) = a" "ucast (drop_bit 8 (le32 a b c d)) = b"
    "ucast (drop_bit 16 (le32 a b c d)) = c" "ucast (drop_bit 24 (le32 a b c d)) = d"
    by (rule bit_word_eqI; auto simp: bit_ucast_iff bit_drop_bit_eq bit_le32)+
  then show ?thesis by (simp add: bs load_le32_def le32_bytes_def)
qed

lemma load_le32_bytes [simp]: "load_le32 (le32_bytes w) = w" "load_be32 (be32_bytes w) = w"
  by (simp_all add: load_le32_def load_be32_def be32_bytes_def le32_bytes_def le32_le32_bytes)

text \<open>The bytes of a string literal.\<close>

definition ascii :: "string \<Rightarrow> byte list" where
  "ascii s = map of_char s"

lemma length_ascii [simp]: "length (ascii s) = length s"
  by (simp add: ascii_def)

end
