(* ===== verification/Tap.thy ===== *)
theory Tap
  imports Prelude
begin

text \<open>
  The JTAG test access port: \<open>enum JtagState\<close> (src/common.h), \<open>next_state\<close>,
  \<open>state_to_string\<close> and \<open>jtag_get_tms_seq\<close> (src/common.cpp). The program keeps the
  global \<open>state\<close> as a shadow of the state of the target's TAP controller; everything it
  decides about a bit stream (where a scan begins, which bits are data) it decides from
  this machine. The lemmas below are the facts about the machine the other theories use.
\<close>

section \<open>The state machine\<close>

datatype JtagState =
    TestLogicReset
  | RunTestIdle
  | SelectDRScan
  | CaptureDR
  | ShiftDR
  | Exit1DR
  | PauseDR
  | Exit2DR
  | UpdateDR
  | SelectIRScan
  | CaptureIR
  | ShiftIR
  | Exit1IR
  | PauseIR
  | Exit2IR
  | UpdateIR

fun next_state :: "JtagState \<Rightarrow> bool \<Rightarrow> JtagState" where
  "next_state TestLogicReset b = (if b then TestLogicReset else RunTestIdle)"
| "next_state RunTestIdle b = (if b then SelectDRScan else RunTestIdle)"
| "next_state SelectDRScan b = (if b then SelectIRScan else CaptureDR)"
| "next_state CaptureDR b = (if b then Exit1DR else ShiftDR)"
| "next_state ShiftDR b = (if b then Exit1DR else ShiftDR)"
| "next_state Exit1DR b = (if b then UpdateDR else PauseDR)"
| "next_state PauseDR b = (if b then Exit2DR else PauseDR)"
| "next_state Exit2DR b = (if b then UpdateDR else ShiftDR)"
| "next_state UpdateDR b = (if b then SelectDRScan else RunTestIdle)"
| "next_state SelectIRScan b = (if b then TestLogicReset else CaptureIR)"
| "next_state CaptureIR b = (if b then Exit1IR else ShiftIR)"
| "next_state ShiftIR b = (if b then Exit1IR else ShiftIR)"
| "next_state Exit1IR b = (if b then UpdateIR else PauseIR)"
| "next_state PauseIR b = (if b then Exit2IR else PauseIR)"
| "next_state Exit2IR b = (if b then UpdateIR else ShiftIR)"
| "next_state UpdateIR b = (if b then SelectDRScan else RunTestIdle)"

fun state_to_string :: "JtagState \<Rightarrow> string" where
  "state_to_string TestLogicReset = ''TestLogicReset''"
| "state_to_string RunTestIdle = ''RunTestIdle''"
| "state_to_string SelectDRScan = ''SelectDRScan''"
| "state_to_string CaptureDR = ''CaptureDR''"
| "state_to_string ShiftDR = ''ShiftDR''"
| "state_to_string Exit1DR = ''Exit1DR''"
| "state_to_string PauseDR = ''PauseDR''"
| "state_to_string Exit2DR = ''Exit2DR''"
| "state_to_string UpdateDR = ''UpdateDR''"
| "state_to_string SelectIRScan = ''SelectIRScan''"
| "state_to_string CaptureIR = ''CaptureIR''"
| "state_to_string ShiftIR = ''ShiftIR''"
| "state_to_string Exit1IR = ''Exit1IR''"
| "state_to_string PauseIR = ''PauseIR''"
| "state_to_string Exit2IR = ''Exit2IR''"
| "state_to_string UpdateIR = ''UpdateIR''"

text \<open>The states as a finite enumeration, in the order of the C enum.\<close>

instantiation JtagState :: enum
begin
definition enum_JtagState :: "JtagState list" where
  "enum_JtagState = [TestLogicReset, RunTestIdle, SelectDRScan, CaptureDR, ShiftDR, Exit1DR,
     PauseDR, Exit2DR, UpdateDR, SelectIRScan, CaptureIR, ShiftIR, Exit1IR, PauseIR, Exit2IR, UpdateIR]"
definition enum_all_JtagState :: "(JtagState \<Rightarrow> bool) \<Rightarrow> bool" where
  "enum_all_JtagState P = list_all P enum_class.enum"
definition enum_ex_JtagState :: "(JtagState \<Rightarrow> bool) \<Rightarrow> bool" where
  "enum_ex_JtagState P = list_ex P enum_class.enum"
instance
proof
  show univ: "(UNIV :: JtagState set) = set enum_class.enum"
  proof
    show "(UNIV :: JtagState set) \<subseteq> set enum_class.enum"
    proof
      fix x :: JtagState
      show "x \<in> set enum_class.enum" by (cases x) (simp_all add: enum_JtagState_def)
    qed
  qed simp
  show "distinct (enum_class.enum :: JtagState list)" by (simp add: enum_JtagState_def)
  show "enum_class.enum_all P = Ball (UNIV :: JtagState set) P" for P
    unfolding enum_all_JtagState_def list_all_iff univ [symmetric] by simp
  show "enum_class.enum_ex P = Bex (UNIV :: JtagState set) P" for P
    unfolding enum_ex_JtagState_def list_ex_iff univ [symmetric] by simp
qed
end

section \<open>Runs of the machine\<close>

fun run_tap :: "JtagState \<Rightarrow> bool list \<Rightarrow> JtagState" where
  "run_tap st [] = st"
| "run_tap st (b # bs) = run_tap (next_state st b) bs"

lemma run_tap_append [simp]: "run_tap st (xs @ ys) = run_tap (run_tap st xs) ys"
  by (induction xs arbitrary: st) auto

text \<open>\<open>shifting\<close>: the two states in which a TCK cycle moves a bit through a register.\<close>

definition shifting :: "JtagState \<Rightarrow> bool" where
  "shifting st \<longleftrightarrow> st = ShiftDR \<or> st = ShiftIR"

text \<open>
  Every state is entered with one value of TMS only, so the level the TMS pin was left at
  can be read off the state.
\<close>

definition entry_tms :: "JtagState \<Rightarrow> bool" where
  "entry_tms st \<longleftrightarrow> st \<in> {TestLogicReset, SelectDRScan, Exit1DR, Exit2DR, UpdateDR,
     SelectIRScan, Exit1IR, Exit2IR, UpdateIR}"

lemma entry_tms_next [simp]: "entry_tms (next_state st b) = b"
  by (cases st) (simp_all add: entry_tms_def)

lemma shifting_entry_tms: "shifting st \<Longrightarrow> \<not> entry_tms st"
  by (auto simp: shifting_def entry_tms_def)

lemma entry_tms_run: "bs \<noteq> [] \<Longrightarrow> entry_tms (run_tap st bs) = last bs"
  by (induction bs arbitrary: st) auto

lemma shifting_stay [simp]: "shifting st \<Longrightarrow> next_state st False = st"
  by (auto simp: shifting_def)

lemma shifting_leave [simp]: "shifting st \<Longrightarrow> \<not> shifting (next_state st True)"
  by (auto simp: shifting_def)

lemma shifting_next: "shifting st \<Longrightarrow> shifting (next_state st b) \<longleftrightarrow> \<not> b"
  by (auto simp: shifting_def)

lemma run_tap_zeros: "next_state st False = st \<Longrightarrow> run_tap st (replicate n False) = st"
  by (induction n) auto

text \<open>Walking a TMS vector in byte memory, as the loops of \<open>jtag_tms_seq\<close> do.\<close>

fun walk_tms :: "byte list \<Rightarrow> nat \<Rightarrow> nat \<Rightarrow> JtagState \<Rightarrow> JtagState result" where
  "walk_tms data i 0 st = Inr st"
| "walk_tms data i (Suc k) st =
     bindR (read_bit data i) (\<lambda>b. walk_tms data (Suc i) k (next_state st b))"

lemma walk_tms_ok:
  "i + k \<le> 8 * length data \<Longrightarrow>
     walk_tms data i k st = Inr (run_tap st (map (bit_at data) [i..<i + k]))"
  by (induction k arbitrary: i st) (simp_all add: upt_conv_Cons del: upt_Suc)

lemma walk_tms_bits_of [simp]:
  "n \<le> 8 * length data \<Longrightarrow> walk_tms data 0 n st = Inr (run_tap st (bits_of data n))"
  using walk_tms_ok [of 0 n data st] by (simp add: bits_of_def)

lemma walk_tms_out_of_bounds:
  "8 * length data < i + k \<Longrightarrow> i \<le> 8 * length data \<Longrightarrow> walk_tms data i k st = Inl OutOfBounds"
proof (induction k arbitrary: i st)
  case 0
  then show ?case by simp
next
  case (Suc k)
  then show ?case by (cases "i < 8 * length data") simp_all
qed

section \<open>Paths between states\<close>

text \<open>
  \<open>jtag_get_tms_seq\<close> returns the TMS byte and its number of bits for the pairs of states
  the program moves between; for any other pair it fails its assertion.
\<close>

definition jtag_get_tms_seq :: "JtagState \<Rightarrow> JtagState \<Rightarrow> (byte \<times> nat) result" where
  "jtag_get_tms_seq src dst =
     (if src = dst then Inr (0, 0)
      else if src = TestLogicReset then
        (if dst = ShiftIR then Inr (0x06, 5)
         else if dst = ShiftDR then Inr (0x02, 4) else Inl AssertionFailed)
      else if src = RunTestIdle then
        (if dst = ShiftIR then Inr (0x3, 4)
         else if dst = ShiftDR then Inr (0x1, 3) else Inl AssertionFailed)
      else if src = Exit1IR then
        (if dst = ShiftDR then Inr (0x3, 4)
         else if dst = RunTestIdle then Inr (0x1, 2) else Inl AssertionFailed)
      else if src = Exit1DR then
        (if dst = RunTestIdle then Inr (0x1, 2) else Inl AssertionFailed)
      else Inl AssertionFailed)"

text \<open>The states reachable in exactly \<open>n\<close> cycles, to compare a path with the shortest one.\<close>

fun reach_in :: "nat \<Rightarrow> JtagState \<Rightarrow> JtagState list" where
  "reach_in 0 st = [st]"
| "reach_in (Suc n) st = remdups (reach_in n (next_state st False) @ reach_in n (next_state st True))"

lemma run_tap_reach_in: "run_tap st bs \<in> set (reach_in (length bs) st)"
proof (induction bs arbitrary: st)
  case Nil
  then show ?case by simp
next
  case (Cons b bs)
  from Cons.IH [of "next_state st b"] show ?case by (cases b) auto
qed

lemma reach_in_run_tap: "t \<in> set (reach_in n st) \<Longrightarrow> \<exists>bs. length bs = n \<and> run_tap st bs = t"
proof (induction n arbitrary: st)
  case 0
  then show ?case by simp
next
  case (Suc n)
  from Suc.prems obtain b where "t \<in> set (reach_in n (next_state st b))"
    by auto
  from Suc.IH [OF this] obtain bs where "length bs = n" "run_tap (next_state st b) bs = t" by blast
  then have "length (b # bs) = Suc n \<and> run_tap st (b # bs) = t" by simp
  then show ?case by blast
qed

lemma no_path_shorter:
  assumes "\<forall>k<n. t \<notin> set (reach_in k st)" "run_tap st bs = t"
  shows "n \<le> length bs"
  using assms run_tap_reach_in [of st bs] by (meson not_le)

lemma five_ones_reset: "run_tap st [True, True, True, True, True] = TestLogicReset"
  by (cases st) simp_all

lemma reset_needs_five: "run_tap ShiftDR bs = TestLogicReset \<Longrightarrow> 5 \<le> length bs"
  by (rule no_path_shorter [of 5 TestLogicReset ShiftDR])
    (auto simp: numeral_eq_Suc less_Suc_eq)

lemma upt_small:
  "[0..<5] = [0, 1, 2, 3, 4::nat]" "[0..<4] = [0, 1, 2, 3::nat]"
  "[0..<3] = [0, 1, 2::nat]" "[0..<2] = [0, 1::nat]"
  by code_simp+

lemma bits_of_byte:
  "bits_of [w] 5 = [bit w 0, bit w 1, bit w 2, bit w 3, bit w 4]"
  "bits_of [w] 4 = [bit w 0, bit w 1, bit w 2, bit w 3]"
  "bits_of [w] 3 = [bit w 0, bit w 1, bit w 2]"
  "bits_of [w] 2 = [bit w 0, bit w 1]"
  by (simp_all add: bits_of_def bit_at_def upt_small)

lemma jtag_get_tms_seq_path:
  "jtag_get_tms_seq src dst = Inr (tms, n) \<Longrightarrow> n \<le> 8 \<and> run_tap src (bits_of [tms] n) = dst"
  by (auto simp: jtag_get_tms_seq_def bits_of_byte split: if_splits)

lemma jtag_get_tms_seq_len: "jtag_get_tms_seq src dst = Inr (tms, n) \<Longrightarrow> n \<le> 5 \<and> (n = 0 \<longleftrightarrow> src = dst)"
  by (auto simp: jtag_get_tms_seq_def split: if_splits)

lemma jtag_get_tms_seq_shortest:
  assumes "jtag_get_tms_seq src dst = Inr (tms, n)" "run_tap src bs = dst"
  shows "n \<le> length bs"
proof (rule no_path_shorter [OF _ assms(2)])
  show "\<forall>k<n. dst \<notin> set (reach_in k src)"
    using assms(1)
    by (auto simp: jtag_get_tms_seq_def numeral_eq_Suc less_Suc_eq split: if_splits)
qed

section \<open>Properties\<close>

text \<open>
  C27: the table of \<open>jtag_get_tms_seq\<close> is correct and optimal: whenever it gives a sequence, that
  sequence fits one byte, takes the TAP from the source to the destination, and no shorter
  sequence does.
\<close>

theorem tms_table_correct:
  "jtag_get_tms_seq src dst = Inr (tms, n) \<Longrightarrow>
     n \<le> 8 \<and> run_tap src (bits_of [tms] n) = dst \<and>
     (\<forall>bs. run_tap src bs = dst \<longrightarrow> n \<le> length bs)"
  using jtag_get_tms_seq_path [of src dst tms n] jtag_get_tms_seq_shortest [of src dst tms n] by blast

theorem tms_table_correct_witness:
  "run_tap TestLogicReset (bits_of [0x06] 5) = ShiftIR"
  using tms_table_correct [of TestLogicReset ShiftIR "0x06" 5] by (simp add: jtag_get_tms_seq_def)

text \<open>
  The reset of \<open>jtag_goto_tlr\<close> is right and not wasteful: five ones reach Test-Logic-Reset
  from every state, and from Shift-DR no sequence of fewer than five bits does.
\<close>

lemma five_ones_necessary_and_sufficient:
  "(\<forall>st. run_tap st (bits_of [0x1F] 5) = TestLogicReset) \<and>
   \<not> (\<exists>bs. length bs < 5 \<and> run_tap ShiftDR bs = TestLogicReset)"
  using five_ones_reset reset_needs_five by (auto simp: bits_of_byte not_le [symmetric])

end
