(* ===== verification/Host.thy ===== *)
theory Host
  imports Tap
begin

text \<open>
  The host side of the program (src/common.h, src/common.cpp, the globals of src/main.cpp):
  the process state, the calls into libftdi and into the socket layer, and the helpers
  \<open>ftdi_write_retry\<close>, \<open>ftdi_read_retry\<close>, \<open>write_full\<close>, \<open>read_socket\<close>, \<open>try_accept\<close> and
  \<open>setup_tcp_server\<close>.

  libftdi and the operating system are not part of the repository. They are the parameter
  \<open>E :: 'w ext\<close> of every definition that calls them: functions over an unknown world
  \<open>'w\<close> (USB adapter, JTAG target, network peer). The model keeps a log of what the calls
  accepted: \<open>usb_out\<close> (bytes \<open>ftdi_write_data\<close> reported as accepted), \<open>usb_ctl\<close> (the
  libftdi control calls) and \<open>net_out\<close> (bytes \<open>write\<close> reported as accepted).
\<close>

section \<open>The environment\<close>

datatype ftdi_op =
    Ftdi_new
  | Ftdi_set_interface nat
  | Ftdi_usb_open int int
  | Ftdi_usb_open_bus_addr byte byte
  | Ftdi_usb_reset
  | Ftdi_set_baudrate nat
  | Ftdi_set_latency_timer nat
  | Ftdi_set_bitmode byte byte
  | Ftdi_disable_bitbang

datatype sock_op =
    Sock_socket
  | Sock_nonblock int
  | Sock_reuseaddr int
  | Sock_bind int "16 word"
  | Sock_listen int
  | Sock_select int
  | Sock_accept int
  | Sock_nodelay int
  | Sock_close int

text \<open>
  A negative return code of a transfer is \<open>None\<close>. \<open>ext_polls\<close> bounds how often the model
  follows a wait that the source repeats without a bound; \<open>ext_stack\<close> gives the
  indeterminate initial contents of a local array.
\<close>

record 'w ext =
  ftdi_write_data :: "byte list \<Rightarrow> 'w \<Rightarrow> nat option \<times> 'w"
  ftdi_read_data :: "nat \<Rightarrow> 'w \<Rightarrow> byte list option \<times> 'w"
  ftdi_control :: "ftdi_op \<Rightarrow> 'w \<Rightarrow> int \<times> 'w"
  sock_write :: "int \<Rightarrow> byte list \<Rightarrow> 'w \<Rightarrow> nat option \<times> 'w"
  sock_read :: "int \<Rightarrow> nat \<Rightarrow> 'w \<Rightarrow> byte list option \<times> 'w"
  sock_control :: "sock_op \<Rightarrow> 'w \<Rightarrow> int \<times> 'w"
  ext_polls :: nat
  ext_stack :: "nat \<Rightarrow> byte list"

definition indeterminate :: "'w ext \<Rightarrow> nat \<Rightarrow> byte list" where
  "indeterminate E n = take n (ext_stack E n @ replicate n 0)"

lemma length_indeterminate [simp]: "length (indeterminate E n) = n"
  by (simp add: indeterminate_def)

section \<open>The process state\<close>

definition BUFFER_SIZE :: nat where
  "BUFFER_SIZE = 4096"

record 'w common_state =
  client_fd :: int
  listen_fd :: int
  state :: JtagState
  bits_send :: "64 word"
  buffer :: "byte list"
  buffer_begin :: nat
  buffer_end :: nat
  usb_out :: "byte list"
  usb_ctl :: "ftdi_op list"
  net_out :: "byte list"
  world :: 'w

datatype AdapterTypes = Adapter_Xilinx | Adapter_DigilentHS2 | Adapter_DigilentHS3

text \<open>The values the globals of src/main.cpp start with.\<close>

definition process_start :: "'w \<Rightarrow> 'w common_state" where
  "process_start w = \<lparr>client_fd = -1, listen_fd = -1, state = TestLogicReset, bits_send = 0,
     buffer = replicate BUFFER_SIZE 0, buffer_begin = 0, buffer_end = 0,
     usb_out = [], usb_ctl = [], net_out = [], world = w\<rparr>"

text \<open>The globals that only the option parser of \<open>main\<close> writes.\<close>

record config =
  ftdi_vid :: int
  ftdi_pid :: int
  ftdi_channel :: nat
  adapter_type :: AdapterTypes
  freq_mhz :: "64 word"
  use_bus_addr :: bool
  usb_bus_addr :: byte
  usb_dev_addr :: byte

section \<open>Calls\<close>

text \<open>
  The wrappers add the log and the documented bound on the result: a transfer never moves
  more than was asked for.
\<close>

definition call_ftdi_write :: "'w ext \<Rightarrow> byte list \<Rightarrow> ('w, 'z) common_state_scheme
    \<Rightarrow> nat option \<times> ('w, 'z) common_state_scheme" where
  "call_ftdi_write E data s =
     (case ftdi_write_data E data (world s) of
        (None, w) \<Rightarrow> (None, s\<lparr>world := w\<rparr>)
      | (Some k, w) \<Rightarrow> (Some (min k (length data)),
                      s\<lparr>usb_out := usb_out s @ take k data, world := w\<rparr>))"

definition call_ftdi_read :: "'w ext \<Rightarrow> nat \<Rightarrow> ('w, 'z) common_state_scheme
    \<Rightarrow> byte list option \<times> ('w, 'z) common_state_scheme" where
  "call_ftdi_read E n s =
     (case ftdi_read_data E n (world s) of (r, w) \<Rightarrow> (map_option (take n) r, s\<lparr>world := w\<rparr>))"

definition call_ftdi_control :: "'w ext \<Rightarrow> ftdi_op \<Rightarrow> ('w, 'z) common_state_scheme
    \<Rightarrow> int \<times> ('w, 'z) common_state_scheme" where
  "call_ftdi_control E op s =
     (case ftdi_control E op (world s) of
        (r, w) \<Rightarrow> (r, s\<lparr>usb_ctl := usb_ctl s @ [op], world := w\<rparr>))"

definition control_assert :: "'w ext \<Rightarrow> ftdi_op \<Rightarrow> ('w, 'z) common_state_scheme
    \<Rightarrow> ('w, 'z) common_state_scheme result" where
  "control_assert E f s =
     (case call_ftdi_control E f s of (ret, s) \<Rightarrow> if ret = 0 then Inr s else Inl AssertionFailed)"

definition call_write :: "'w ext \<Rightarrow> byte list \<Rightarrow> ('w, 'z) common_state_scheme
    \<Rightarrow> nat option \<times> ('w, 'z) common_state_scheme" where
  "call_write E data s =
     (case sock_write E (client_fd s) data (world s) of
        (None, w) \<Rightarrow> (None, s\<lparr>world := w\<rparr>)
      | (Some k, w) \<Rightarrow> (Some (min k (length data)),
                      s\<lparr>net_out := net_out s @ take k data, world := w\<rparr>))"

definition call_read :: "'w ext \<Rightarrow> nat \<Rightarrow> ('w, 'z) common_state_scheme
    \<Rightarrow> byte list option \<times> ('w, 'z) common_state_scheme" where
  "call_read E n s =
     (case sock_read E (client_fd s) n (world s) of (r, w) \<Rightarrow> (map_option (take n) r, s\<lparr>world := w\<rparr>))"

definition call_sock :: "'w ext \<Rightarrow> sock_op \<Rightarrow> ('w, 'z) common_state_scheme
    \<Rightarrow> int \<times> ('w, 'z) common_state_scheme" where
  "call_sock E op s = (case sock_control E op (world s) of (r, w) \<Rightarrow> (r, s\<lparr>world := w\<rparr>))"

section \<open>USB transfers with retries\<close>

fun ftdi_write_loop :: "'w ext \<Rightarrow> nat \<Rightarrow> byte list \<Rightarrow> nat \<Rightarrow> ('w, 'z) common_state_scheme
    \<Rightarrow> bool \<times> ('w, 'z) common_state_scheme" where
  "ftdi_write_loop E 0 data offset s = (offset = length data, s)"
| "ftdi_write_loop E (Suc retry) data offset s =
     (if offset < length data then
        (case call_ftdi_write E (drop offset data) s of
           (None, s') \<Rightarrow> (False, s')
         | (Some res, s') \<Rightarrow> ftdi_write_loop E retry data (offset + res) s')
      else (offset = length data, s))"

definition ftdi_write_retry :: "'w ext \<Rightarrow> byte list \<Rightarrow> ('w, 'z) common_state_scheme
    \<Rightarrow> bool \<times> ('w, 'z) common_state_scheme" where
  "ftdi_write_retry E data s = ftdi_write_loop E 100 data 0 s"

text \<open>The bytes read so far are \<open>got\<close>; the caller stores them at \<open>data[0]\<close> on.\<close>

fun ftdi_read_loop :: "'w ext \<Rightarrow> nat \<Rightarrow> nat \<Rightarrow> byte list \<Rightarrow> ('w, 'z) common_state_scheme
    \<Rightarrow> bool \<times> byte list \<times> ('w, 'z) common_state_scheme" where
  "ftdi_read_loop E 0 len got s = (length got = len, got, s)"
| "ftdi_read_loop E (Suc retry) len got s =
     (if length got < len then
        (case call_ftdi_read E (len - length got) s of
           (None, s') \<Rightarrow> (False, got, s')
         | (Some bs, s') \<Rightarrow> ftdi_read_loop E retry len (got @ bs) s')
      else (length got = len, got, s))"

definition ftdi_read_retry :: "'w ext \<Rightarrow> nat \<Rightarrow> ('w, 'z) common_state_scheme
    \<Rightarrow> bool \<times> byte list \<times> ('w, 'z) common_state_scheme" where
  "ftdi_read_retry E len s = ftdi_read_loop E 100 len [] s"

section \<open>The client socket\<close>

function write_full_loop :: "'w ext \<Rightarrow> byte list \<Rightarrow> nat \<Rightarrow> ('w, 'z) common_state_scheme
    \<Rightarrow> bool \<times> ('w, 'z) common_state_scheme" where
  "write_full_loop E data num_sent s =
     (if num_sent < length data then
        (case call_write E (drop num_sent data) s of
           (Some res, s') \<Rightarrow>
             if 0 < res then write_full_loop E data (num_sent + res) s' else (False, s')
         | (None, s') \<Rightarrow> (False, s'))
      else (True, s))"
  by pat_completeness auto
termination
  by (relation "measure (\<lambda>(E, data, num_sent, s). length data - num_sent)") auto

declare write_full_loop.simps [simp del]

definition write_full :: "'w ext \<Rightarrow> byte list \<Rightarrow> ('w, 'z) common_state_scheme
    \<Rightarrow> bool \<times> ('w, 'z) common_state_scheme" where
  "write_full E data s = write_full_loop E data 0 s"

text \<open>
  \<open>read_socket\<close>. The destination of the read is \<open>&buffer[buffer_begin]\<close>, as in the source
  (and not \<open>&buffer[buffer_end]\<close>).
\<close>

definition compact_buffer :: "('w, 'z) common_state_scheme \<Rightarrow> ('w, 'z) common_state_scheme" where
  "compact_buffer s =
     (if 0 < buffer_begin s \<and> buffer_end s = BUFFER_SIZE then
        s\<lparr>buffer := write_at (buffer s) 0
             (take (buffer_end s - buffer_begin s) (drop (buffer_begin s) (buffer s))),
          buffer_end := buffer_end s - buffer_begin s, buffer_begin := 0\<rparr>
      else if buffer_begin s = buffer_end s then s\<lparr>buffer_begin := 0, buffer_end := 0\<rparr>
      else s)"

definition read_socket :: "'w ext \<Rightarrow> ('w, 'z) common_state_scheme
    \<Rightarrow> (bool \<times> ('w, 'z) common_state_scheme) result" where
  "read_socket E s0 =
     (let s = compact_buffer s0 in
      if buffer_end s < BUFFER_SIZE then
        (case call_read E (BUFFER_SIZE - buffer_end s) s of
           (None, s) \<Rightarrow> Inr (True, s)
         | (Some [], s) \<Rightarrow>
             let s = snd (call_sock E (Sock_close (client_fd s)) s) in
             Inr (False, s\<lparr>client_fd := -1, buffer_begin := 0, buffer_end := 0\<rparr>)
         | (Some bs, s) \<Rightarrow>
             if buffer_begin s + length bs \<le> length (buffer s) then
               Inr (True, s\<lparr>buffer := write_at (buffer s) (buffer_begin s) bs,
                            buffer_end := buffer_end s + length bs\<rparr>)
             else Inl OutOfBounds)
      else Inr (True, s))"

definition try_accept :: "'w ext \<Rightarrow> ('w, 'z) common_state_scheme
    \<Rightarrow> bool \<times> ('w, 'z) common_state_scheme" where
  "try_accept E s =
     (case call_sock E (Sock_select (listen_fd s)) s of (r, s) \<Rightarrow>
        if r \<le> 0 then (False, s)
        else (case call_sock E (Sock_accept (listen_fd s)) s of (fd, s) \<Rightarrow>
          let s = s\<lparr>client_fd := fd\<rparr> in
          if 0 < fd then (True, snd (call_sock E (Sock_nodelay fd) s)) else (False, s)))"

definition setup_tcp_server :: "'w ext \<Rightarrow> 16 word \<Rightarrow> ('w, 'z) common_state_scheme
    \<Rightarrow> bool \<times> ('w, 'z) common_state_scheme" where
  "setup_tcp_server E port s =
     (case call_sock E Sock_socket s of (fd, s) \<Rightarrow>
        let s = s\<lparr>listen_fd := fd\<rparr> in
        if fd < 0 then (False, s)
        else (case call_sock E (Sock_nonblock fd) s of (_, s) \<Rightarrow>
          (case call_sock E (Sock_reuseaddr fd) s of (r, s) \<Rightarrow>
            if r < 0 then (False, s)
            else (case call_sock E (Sock_bind fd port) s of (r, s) \<Rightarrow>
              if r < 0 then (False, s)
              else (case call_sock E (Sock_listen fd) s of (r, s) \<Rightarrow>
                (r \<noteq> -1, s))))))"

text \<open>
  The servers parse the receive buffer in place: \<open>buffer_bytes s off n\<close> are the \<open>n\<close> bytes at
  \<open>&buffer[off]\<close>.
\<close>

definition buffer_bytes :: "('w, 'z) common_state_scheme \<Rightarrow> nat \<Rightarrow> nat \<Rightarrow> byte list result" where
  "buffer_bytes s off n =
     (if off + n \<le> length (buffer s) then Inr (take n (drop off (buffer s))) else Inl OutOfBounds)"

section \<open>Facts about the transfers\<close>

lemma call_ftdi_write_Some:
  "call_ftdi_write E data s = (Some k, s') \<Longrightarrow>
     k \<le> length data \<and> (\<exists>w. s' = s\<lparr>usb_out := usb_out s @ take k data, world := w\<rparr>)"
  by (auto simp: call_ftdi_write_def min_def split: prod.splits option.splits if_splits)

lemma call_ftdi_write_None: "call_ftdi_write E data s = (None, s') \<Longrightarrow> \<exists>w. s' = s\<lparr>world := w\<rparr>"
  by (auto simp: call_ftdi_write_def split: prod.splits option.splits)

lemma call_ftdi_read_frame:
  "call_ftdi_read E n s = (r, s') \<Longrightarrow>
     (\<exists>w. s' = s\<lparr>world := w\<rparr>) \<and> (\<forall>bs. r = Some bs \<longrightarrow> length bs \<le> n)"
  by (auto simp: call_ftdi_read_def split: prod.splits)

lemma ftdi_write_loop_log:
  "ftdi_write_loop E retry data offset s = (ok, s') \<Longrightarrow> offset \<le> length data \<Longrightarrow>
     \<exists>k w. k \<le> length data - offset \<and> (ok \<longrightarrow> k = length data - offset) \<and>
       s' = s\<lparr>usb_out := usb_out s @ take k (drop offset data), world := w\<rparr>"
proof (induction retry arbitrary: offset s)
  case 0
  then show ?case by (auto intro!: exI [of _ 0] exI [of _ "world s"])
next
  case (Suc retry)
  show ?case
  proof (cases "offset < length data")
    case False
    with Suc.prems show ?thesis by (auto intro!: exI [of _ 0] exI [of _ "world s"])
  next
    case True
    obtain r s1 where c: "call_ftdi_write E (drop offset data) s = (r, s1)" by fastforce
    show ?thesis
    proof (cases r)
      case None
      then obtain w where "s1 = s\<lparr>world := w\<rparr>" using c call_ftdi_write_None by blast
      with Suc.prems c None True show ?thesis by (auto intro!: exI [of _ 0] exI [of _ w])
    next
      case (Some res)
      from c [unfolded Some, THEN call_ftdi_write_Some] obtain w where
        res: "res \<le> length data - offset"
        and s1: "s1 = s\<lparr>usb_out := usb_out s @ take res (drop offset data), world := w\<rparr>" by auto
      from Suc.prems c Some True have rec: "ftdi_write_loop E retry data (offset + res) s1 = (ok, s')"
        by simp
      have "offset + res \<le> length data" using res True by simp
      from Suc.IH [OF rec this] obtain k w' where
        k: "k \<le> length data - (offset + res)" "ok \<longrightarrow> k = length data - (offset + res)"
        and s': "s' = s1\<lparr>usb_out := usb_out s1 @ take k (drop (offset + res) data), world := w'\<rparr>"
        by auto
      from s1 s' have "s' = s\<lparr>usb_out := usb_out s @ take (res + k) (drop offset data), world := w'\<rparr>"
        by (simp add: take_drop_join)
      with k res True show ?thesis by (intro exI [of _ "res + k"] exI [of _ w']) auto
    qed
  qed
qed

text \<open>
  What a retried write leaves behind: a prefix of the data on the wire, all of it when
  the call succeeds; nothing else of the state but the world has changed.
\<close>

lemma ftdi_write_retry_log:
  "ftdi_write_retry E data s = (ok, s') \<Longrightarrow>
     \<exists>k w. k \<le> length data \<and> (ok \<longrightarrow> k = length data) \<and>
       s' = s\<lparr>usb_out := usb_out s @ take k data, world := w\<rparr>"
  using ftdi_write_loop_log [of E 100 data 0 s ok s'] by (simp add: ftdi_write_retry_def)

lemma ftdi_write_retry_True:
  "ftdi_write_retry E data s = (True, s') \<Longrightarrow> \<exists>w. s' = s\<lparr>usb_out := usb_out s @ data, world := w\<rparr>"
  using ftdi_write_retry_log [of E data s True s'] by auto

text \<open>The environment in which USB transfers work: used as a hypothesis of progress only.\<close>

definition usb_writes_accepted :: "'w ext \<Rightarrow> bool" where
  "usb_writes_accepted E \<longleftrightarrow>
     (\<forall>data w. data \<noteq> [] \<longrightarrow> (\<exists>k w'. ftdi_write_data E data w = (Some k, w') \<and> length data \<le> k))"

definition usb_reads_answered :: "'w ext \<Rightarrow> bool" where
  "usb_reads_answered E \<longleftrightarrow>
     (\<forall>n w. 0 < n \<longrightarrow> (\<exists>bs w'. ftdi_read_data E n w = (Some bs, w') \<and> bs \<noteq> []))"

lemma ftdi_write_retry_accepted:
  assumes "usb_writes_accepted E"
  shows "fst (ftdi_write_retry E data s)"
proof (cases "data = []")
  case True
  then show ?thesis by (simp add: ftdi_write_retry_def numeral_eq_Suc)
next
  case False
  with assms obtain k w where "ftdi_write_data E data (world s) = (Some k, w)" "length data \<le> k"
    unfolding usb_writes_accepted_def by blast
  then have "call_ftdi_write E data s =
      (Some (length data), s\<lparr>usb_out := usb_out s @ data, world := w\<rparr>)"
    by (simp add: call_ftdi_write_def)
  moreover have "(100 :: nat) = Suc (Suc 98)" by simp
  ultimately show ?thesis using False
    by (simp only: ftdi_write_retry_def ftdi_write_loop.simps) simp
qed

lemma ftdi_read_loop_frame:
  "ftdi_read_loop E retry len got s = (ok, bs, s') \<Longrightarrow> length got \<le> len \<Longrightarrow>
     (\<exists>w. s' = s\<lparr>world := w\<rparr>) \<and> length bs \<le> len \<and> (ok \<longrightarrow> length bs = len)"
proof (induction retry arbitrary: got s)
  case 0
  then show ?case by (auto intro: exI [of _ "world s"])
next
  case (Suc retry)
  show ?case
  proof (cases "length got < len")
    case False
    with Suc.prems show ?thesis by (auto intro: exI [of _ "world s"])
  next
    case True
    obtain r s1 where c: "call_ftdi_read E (len - length got) s = (r, s1)" by fastforce
    from call_ftdi_read_frame [OF c] obtain w where s1: "s1 = s\<lparr>world := w\<rparr>"
      and l: "\<And>bs. r = Some bs \<Longrightarrow> length bs \<le> len - length got" by auto
    show ?thesis
    proof (cases r)
      case None
      with Suc.prems c True s1 show ?thesis by auto
    next
      case (Some b)
      with Suc.prems c True have "ftdi_read_loop E retry len (got @ b) s1 = (ok, bs, s')" by simp
      from Suc.IH [OF this] l [OF Some] True s1 show ?thesis by auto
    qed
  qed
qed

lemma ftdi_read_retry_frame:
  "ftdi_read_retry E len s = (ok, bs, s') \<Longrightarrow>
     (\<exists>w. s' = s\<lparr>world := w\<rparr>) \<and> length bs \<le> len \<and> (ok \<longrightarrow> length bs = len)"
  using ftdi_read_loop_frame [of E 100 len "[]" s ok bs s'] by (simp add: ftdi_read_retry_def)

text \<open>Where every read brings at least one byte, 100 attempts are enough for 100 bytes.\<close>

lemma call_ftdi_read_answered:
  assumes "usb_reads_answered E" "0 < n"
  shows "\<exists>bs w. call_ftdi_read E n s = (Some bs, s\<lparr>world := w\<rparr>) \<and> bs \<noteq> [] \<and> length bs \<le> n"
proof -
  from assms obtain bs w where "ftdi_read_data E n (world s) = (Some bs, w)" "bs \<noteq> []"
    unfolding usb_reads_answered_def by blast
  with assms(2) show ?thesis by (auto simp: call_ftdi_read_def)
qed

lemma ftdi_read_loop_answered:
  assumes "usb_reads_answered E" "length got \<le> len" "len - length got \<le> retry"
  shows "fst (ftdi_read_loop E retry len got s)"
  using assms(2,3)
proof (induction retry arbitrary: got s)
  case 0
  then show ?case by simp
next
  case (Suc retry)
  show ?case
  proof (cases "length got < len")
    case False
    with Suc.prems show ?thesis by simp
  next
    case True
    with call_ftdi_read_answered [OF assms(1), of "len - length got" s] obtain bs w where
      bs: "call_ftdi_read E (len - length got) s = (Some bs, s\<lparr>world := w\<rparr>)"
        "bs \<noteq> []" "length bs \<le> len - length got" by auto
    from bs(2) obtain m where "length bs = Suc m" by (cases bs) auto
    then have "length (got @ bs) \<le> len" "len - length (got @ bs) \<le> retry"
      using bs(3) Suc.prems True by simp_all
    from Suc.IH [OF this] bs True show ?thesis by simp
  qed
qed

lemma ftdi_read_retry_answered:
  "usb_reads_answered E \<Longrightarrow> len \<le> 100 \<Longrightarrow> fst (ftdi_read_retry E len s)"
  using ftdi_read_loop_answered [of E "[]" len 100 s] by (simp add: ftdi_read_retry_def)

text \<open>The environment in which the control calls of libftdi succeed.\<close>

definition ftdi_control_works :: "'w ext \<Rightarrow> bool" where
  "ftdi_control_works E \<longleftrightarrow> (\<forall>op w. (op = Ftdi_new) = (fst (ftdi_control E op w) \<noteq> 0))"

lemma call_ftdi_control_works:
  "ftdi_control_works E \<Longrightarrow> call_ftdi_control E op s = (r, t) \<Longrightarrow> (r \<noteq> 0) = (op = Ftdi_new)"
  by (auto simp: ftdi_control_works_def call_ftdi_control_def split: prod.splits) (metis fst_conv)+

lemma control_assert_works:
  "ftdi_control_works E \<Longrightarrow> op \<noteq> Ftdi_new \<Longrightarrow> \<exists>t. control_assert E op s = Inr t"
  using call_ftdi_control_works [of E op s] by (auto simp: control_assert_def split: prod.splits)

lemma write_retry_works:
  "usb_writes_accepted E \<Longrightarrow> \<exists>t. ftdi_write_retry E bs s = (True, t)"
  using ftdi_write_retry_accepted [of E bs s] by (cases "ftdi_write_retry E bs s") simp

text \<open>
  The adapter's receive queue: reads hand out its bytes in order, at least one of them
  when there is one.
\<close>

definition ftdi_fifo :: "'w ext \<Rightarrow> ('w \<Rightarrow> byte list) \<Rightarrow> bool" where
  "ftdi_fifo E q \<longleftrightarrow>
     (\<forall>n w. \<exists>bs w'. ftdi_read_data E n w = (Some bs, w') \<and> length bs \<le> n \<and> q w = bs @ q w' \<and>
        (0 < n \<and> q w \<noteq> [] \<longrightarrow> bs \<noteq> []))"

lemma call_ftdi_read_fifo:
  assumes "ftdi_fifo E q" "q (world s) = xs @ rest" "n = length xs" "0 < n"
  shows "\<exists>bs ys w. xs = bs @ ys \<and> bs \<noteq> [] \<and> q w = ys @ rest \<and>
     call_ftdi_read E n s = (Some bs, s\<lparr>world := w\<rparr>)"
proof -
  from assms(1) obtain bs w where r: "ftdi_read_data E n (world s) = (Some bs, w)" "length bs \<le> n"
      "q (world s) = bs @ q w" "0 < n \<and> q (world s) \<noteq> [] \<longrightarrow> bs \<noteq> []"
    unfolding ftdi_fifo_def by metis
  have "q (world s) \<noteq> []" using assms(2,3,4) by auto
  with r(4) assms(4) have ne: "bs \<noteq> []" by simp
  have "bs = take (length bs) (xs @ rest)" "q w = drop (length bs) (xs @ rest)"
    using r(3) assms(2) by (metis append_eq_conv_conj)+
  then have "bs = take (length bs) xs" and q: "q w = drop (length bs) xs @ rest"
    using r(2) assms(3) by simp_all
  then have "xs = bs @ drop (length bs) xs" by (metis append_take_drop_id)
  with r ne q show ?thesis by (intro exI [of _ bs] exI [of _ "drop (length bs) xs"] exI [of _ w])
      (simp add: call_ftdi_read_def)
qed

lemma call_write_None: "call_write E data s = (None, s') \<Longrightarrow> \<exists>w. s' = s\<lparr>world := w\<rparr>"
  by (auto simp: call_write_def split: prod.splits option.splits)

lemma call_write_Some:
  "call_write E data s = (Some k, s') \<Longrightarrow>
     k \<le> length data \<and> (\<exists>w. s' = s\<lparr>net_out := net_out s @ take k data, world := w\<rparr>)"
  by (auto simp: call_write_def min_def split: prod.splits option.splits if_splits)

lemma write_full_loop_log:
  "write_full_loop E data n s = (ok, s') \<Longrightarrow> n \<le> length data \<Longrightarrow>
     \<exists>k w. k \<le> length data - n \<and> ok = (k = length data - n) \<and>
       s' = s\<lparr>net_out := net_out s @ take k (drop n data), world := w\<rparr>"
proof (induction E data n s rule: write_full_loop.induct)
  case (1 E data n s)
  note unfold = write_full_loop.simps [of E data n s]
  show ?case
  proof (cases "n < length data")
    case False
    with "1.prems" show ?thesis
      by (auto simp: unfold intro!: exI [of _ "world s"])
  next
    case True
    obtain r s1 where c: "call_write E (drop n data) s = (r, s1)" by fastforce
    show ?thesis
    proof (cases r)
      case None
      with c obtain w where "s1 = s\<lparr>world := w\<rparr>" using call_write_None by blast
      with "1.prems" c None True show ?thesis
        by (auto simp: unfold intro!: exI [of _ 0] exI [of _ w])
    next
      case (Some res)
      from c [unfolded Some, THEN call_write_Some] obtain w where res: "res \<le> length data - n"
        and s1: "s1 = s\<lparr>net_out := net_out s @ take res (drop n data), world := w\<rparr>" by auto
      show ?thesis
      proof (cases "0 < res")
        case False
        with "1.prems" c Some True s1 show ?thesis
          by (auto simp: unfold intro!: exI [of _ 0] exI [of _ w])
      next
        case pos: True
        with "1.prems" c Some True have rec: "write_full_loop E data (n + res) s1 = (ok, s')"
          by (simp add: unfold)
        have "n + res \<le> length data" using res True by simp
        from "1.IH" [OF True c [symmetric] Some pos rec this] obtain k w' where
          k: "k \<le> length data - (n + res)" "ok = (k = length data - (n + res))"
          and s': "s' = s1\<lparr>net_out := net_out s1 @ take k (drop (n + res) data), world := w'\<rparr>"
          by blast
        from s1 s' have "s' = s\<lparr>net_out := net_out s @ take (res + k) (drop n data), world := w'\<rparr>"
          by (simp add: take_drop_join)
        with k res True show ?thesis by (intro exI [of _ "res + k"] exI [of _ w']) auto
      qed
    qed
  qed
qed

text \<open>\<open>write_full\<close> reports success exactly when the whole buffer went out, in order.\<close>

lemma write_full_log:
  "write_full E data s = (ok, s') \<Longrightarrow>
     \<exists>k w. k \<le> length data \<and> ok = (k = length data) \<and>
       s' = s\<lparr>net_out := net_out s @ take k data, world := w\<rparr>"
  using write_full_loop_log [of E data 0 s ok s'] by (simp add: write_full_def)

text \<open>The peer takes at least one byte of every write.\<close>

definition sock_accepts :: "'w ext \<Rightarrow> bool" where
  "sock_accepts E \<longleftrightarrow> (\<forall>fd bs w. bs \<noteq> [] \<longrightarrow> (\<exists>k w'. sock_write E fd bs w = (Some k, w') \<and> 0 < k))"

lemma write_full_loop_accepted:
  assumes "sock_accepts E"
  shows "fst (write_full_loop E data n s)"
proof (induction "length data - n" arbitrary: n s rule: less_induct)
  case less
  show ?case
  proof (cases "n < length data")
    case False
    then show ?thesis by (simp add: write_full_loop.simps [of E data n s])
  next
    case True
    then have "drop n data \<noteq> []" by simp
    with assms obtain k w where "sock_write E (client_fd s) (drop n data) (world s) = (Some k, w)" "0 < k"
      unfolding sock_accepts_def by blast
    then obtain r t where r: "call_write E (drop n data) s = (Some r, t)" "0 < r"
      using True by (simp add: call_write_def)
    have "fst (write_full_loop E data (n + r) t)" using True r(2) by (intro less) simp
    with r True show ?thesis by (simp add: write_full_loop.simps [of E data n s])
  qed
qed

lemma write_full_accepted:
  assumes "sock_accepts E"
  shows "\<exists>w. write_full E data s = (True, s\<lparr>net_out := net_out s @ data, world := w\<rparr>)"
proof -
  obtain ok t where w: "write_full E data s = (ok, t)" by fastforce
  have "ok" using write_full_loop_accepted [OF assms, of data 0 s] w by (simp add: write_full_def)
  with write_full_log [OF w] w show ?thesis by auto
qed

text \<open>
  \<open>sockets_keep E port\<close>: the calls into the socket layer leave the part \<open>port\<close> of the world
  alone; used with the USB side of the world.
\<close>

definition sockets_keep :: "'w ext \<Rightarrow> ('w \<Rightarrow> 'p) \<Rightarrow> bool" where
  "sockets_keep E port \<longleftrightarrow>
     (\<forall>fd bs w. port (snd (sock_write E fd bs w)) = port w) \<and>
     (\<forall>fd n w. port (snd (sock_read E fd n w)) = port w) \<and>
     (\<forall>op w. port (snd (sock_control E op w)) = port w)"

lemma sockets_keep_unit [simp]: "sockets_keep E (\<lambda>_. ())"
  by (simp add: sockets_keep_def)

lemma socket_calls_keep:
  assumes "sockets_keep E port"
  shows "port (world (snd (call_write E data s))) = port (world s)"
    "port (world (snd (call_read E n s))) = port (world s)"
    "port (world (snd (call_sock E op s))) = port (world s)"
proof -
  have k: "sock_write E fd bs w = (r, v) \<Longrightarrow> port v = port w"
    "sock_read E fd m w = (q, v) \<Longrightarrow> port v = port w"
    "sock_control E c w = (x, v) \<Longrightarrow> port v = port w" for fd bs w r v m q c x
    using assms unfolding sockets_keep_def by (metis snd_conv)+
  show "port (world (snd (call_write E data s))) = port (world s)"
    by (auto simp: call_write_def k split: prod.split option.split)
  show "port (world (snd (call_read E n s))) = port (world s)"
    by (auto simp: call_read_def k split: prod.split)
  show "port (world (snd (call_sock E op s))) = port (world s)"
    by (auto simp: call_sock_def k split: prod.split)
qed

lemma write_full_keeps:
  assumes "sockets_keep E port"
  shows "port (world (snd (write_full E data s))) = port (world s)"
proof -
  have "port (world (snd (write_full_loop E data n s))) = port (world s)" for n
  proof (induction "length data - n" arbitrary: n s rule: less_induct)
    case less
    obtain r t where c: "call_write E (drop n data) s = (r, t)" by fastforce
    have t: "port (world t) = port (world s)"
      using socket_calls_keep(1) [OF assms, of "drop n data" s] by (simp add: c)
    have "port (world (snd (write_full_loop E data (n + k) t))) = port (world t)" if "n < length data" "0 < k" for k
      using that by (intro less) simp
    with t show ?case by (auto simp: write_full_loop.simps [of E data n s] c split: option.split)
  qed
  then show ?thesis by (simp add: write_full_def)
qed

lemma write_full_accepted_keeps:
  assumes "sock_accepts E" "sockets_keep E port"
  shows "\<exists>w. write_full E data s = (True, s\<lparr>net_out := net_out s @ data, world := w\<rparr>) \<and> port w = port (world s)"
proof -
  obtain w where "write_full E data s = (True, s\<lparr>net_out := net_out s @ data, world := w\<rparr>)"
    using write_full_accepted [OF assms(1)] by blast
  with write_full_keeps [OF assms(2), of data s] show ?thesis by auto
qed

text \<open>Without any promise of the peer: a front part of the buffer goes out, all of it to a peer that takes it.\<close>

lemma write_full_sends:
  assumes "sockets_keep E port"
  shows "\<exists>k w. snd (write_full E data s) = s\<lparr>net_out := net_out s @ take k data, world := w\<rparr> \<and> k \<le> length data \<and>
     port w = port (world s) \<and> (sock_accepts E \<longrightarrow> k = length data)"
proof -
  obtain ok t where c: "write_full E data s = (ok, t)" by fastforce
  from write_full_log [OF c] obtain k w where
    k: "k \<le> length data" "ok = (k = length data)" "t = s\<lparr>net_out := net_out s @ take k data, world := w\<rparr>" by blast
  have "sock_accepts E \<Longrightarrow> ok" using write_full_accepted [of E data s] c by auto
  with k c write_full_keeps [OF assms, of data s] show ?thesis by auto
qed

section \<open>The receive buffer\<close>

definition buffer_inv :: "('w, 'z) common_state_scheme \<Rightarrow> bool" where
  "buffer_inv s \<longleftrightarrow> length (buffer s) = BUFFER_SIZE \<and>
     buffer_begin s \<le> buffer_end s \<and> buffer_end s \<le> BUFFER_SIZE"

text \<open>The bytes received and not yet consumed.\<close>

definition unread :: "('w, 'z) common_state_scheme \<Rightarrow> byte list" where
  "unread s = take (buffer_end s - buffer_begin s) (drop (buffer_begin s) (buffer s))"

lemma length_unread: "buffer_inv s \<Longrightarrow> length (unread s) = buffer_end s - buffer_begin s"
  by (auto simp: buffer_inv_def unread_def)

lemma buffer_bytes_unread:
  "buffer_inv s \<Longrightarrow> k + n \<le> length (unread s) \<Longrightarrow>
     buffer_bytes s (buffer_begin s + k) n = Inr (take n (drop k (unread s)))"
  by (auto simp: buffer_inv_def buffer_bytes_def unread_def drop_take add.commute)

lemma unread_consume:
  "buffer_inv s \<Longrightarrow> k \<le> length (unread s) \<Longrightarrow>
     buffer_inv (s\<lparr>buffer_begin := buffer_begin s + k\<rparr>) \<and>
     unread (s\<lparr>buffer_begin := buffer_begin s + k\<rparr>) = drop k (unread s)"
  by (auto simp: buffer_inv_def unread_def drop_take add.commute)

lemma compact_buffer_inv: "buffer_inv s \<Longrightarrow> buffer_inv (compact_buffer s)"
  by (auto simp: buffer_inv_def compact_buffer_def)

lemma compact_buffer_unread: "buffer_inv s \<Longrightarrow> unread (compact_buffer s) = unread s"
  by (auto simp: buffer_inv_def compact_buffer_def unread_def write_at_def)

lemma call_read_frame:
  "call_read E n s = (r, s') \<Longrightarrow>
     (\<exists>w. s' = s\<lparr>world := w\<rparr>) \<and> (\<forall>bs. r = Some bs \<longrightarrow> length bs \<le> n)"
  by (auto simp: call_read_def split: prod.splits)

lemma call_sock_frame: "call_sock E op s = (r, s') \<Longrightarrow> \<exists>w. s' = s\<lparr>world := w\<rparr>"
  by (auto simp: call_sock_def split: prod.splits)

text \<open>
  The three outcomes of \<open>read_socket\<close> on a state that satisfies the invariant: nothing read,
  the peer gone, or \<open>bs\<close> stored at the beginning of the unread bytes.
\<close>

lemma read_socket_cases:
  assumes inv: "buffer_inv s"
  obtains (idle) w where "read_socket E s = Inr (True, (compact_buffer s)\<lparr>world := w\<rparr>)"
  | (closed) w where "read_socket E s =
      Inr (False, (compact_buffer s)\<lparr>world := w, client_fd := -1, buffer_begin := 0, buffer_end := 0\<rparr>)"
  | (data) bs w where "bs \<noteq> []"
      "buffer_end (compact_buffer s) + length bs \<le> BUFFER_SIZE"
      "read_socket E s = Inr (True, (compact_buffer s)\<lparr>world := w,
         buffer := write_at (buffer (compact_buffer s)) (buffer_begin (compact_buffer s)) bs,
         buffer_end := buffer_end (compact_buffer s) + length bs\<rparr>)"
proof -
  let ?s = "compact_buffer s"
  have inv': "buffer_inv ?s" using inv by (rule compact_buffer_inv)
  show thesis
  proof (cases "buffer_end ?s < BUFFER_SIZE")
    case False
    then have "read_socket E s = Inr (True, ?s\<lparr>world := world ?s\<rparr>)" by (simp add: read_socket_def)
    then show ?thesis by (rule idle)
  next
    case True
    obtain r s1 where c: "call_read E (BUFFER_SIZE - buffer_end ?s) ?s = (r, s1)" by fastforce
    from call_read_frame [OF c] obtain w where s1: "s1 = ?s\<lparr>world := w\<rparr>"
      and l: "\<And>bs. r = Some bs \<Longrightarrow> length bs \<le> BUFFER_SIZE - buffer_end ?s" by auto
    show ?thesis
    proof (cases r)
      case None
      with c True s1 show ?thesis by (intro idle) (simp add: read_socket_def)
    next
      case (Some bs)
      show ?thesis
      proof (cases bs)
        case Nil
        obtain x s2 where d: "call_sock E (Sock_close (client_fd s1)) s1 = (x, s2)" by fastforce
        then obtain w' where "s2 = s1\<lparr>world := w'\<rparr>" using call_sock_frame by blast
        with c True s1 Some Nil d show ?thesis
          by (intro closed [of w']) (simp add: read_socket_def)
      next
        case (Cons b t)
        have "buffer_begin ?s + length bs \<le> length (buffer ?s)"
          using l [OF Some] inv' True by (auto simp: buffer_inv_def)
        with c True s1 Some Cons l [OF Some] show ?thesis
          by (intro data [of bs w]) (auto simp: read_socket_def Let_def)
      qed
    qed
  qed
qed

lemma read_socket_inv:
  assumes "buffer_inv s"
  shows "\<exists>ok s'. read_socket E s = Inr (ok, s') \<and> buffer_inv s'"
  using assms
proof (cases rule: read_socket_cases [of s E])
  case (idle w)
  then show ?thesis using compact_buffer_inv [OF assms] by (auto simp: buffer_inv_def)
next
  case (closed w)
  then show ?thesis using compact_buffer_inv [OF assms] by (auto simp: buffer_inv_def)
next
  case (data bs w)
  then show ?thesis using compact_buffer_inv [OF assms] by (auto simp: buffer_inv_def)
qed

lemma read_socket_frame:
  assumes "buffer_inv s" "read_socket E s = Inr (ok, r)"
  shows "buffer_inv r" "state r = state s" "usb_out r = usb_out s" "common_state.more r = common_state.more s"
    "net_out r = net_out s" "bits_send r = bits_send s" "ok \<Longrightarrow> client_fd r = client_fd s"
proof -
  have c: "state (compact_buffer s) = state s \<and> usb_out (compact_buffer s) = usb_out s \<and>
      common_state.more (compact_buffer s) = common_state.more s \<and> net_out (compact_buffer s) = net_out s \<and>
      bits_send (compact_buffer s) = bits_send s \<and> client_fd (compact_buffer s) = client_fd s"
    by (simp add: compact_buffer_def)
  show "buffer_inv r" using read_socket_inv [OF assms(1), of E] assms(2) by auto
  from assms(1) have "state r = state s \<and> usb_out r = usb_out s \<and> common_state.more r = common_state.more s \<and>
      net_out r = net_out s \<and> bits_send r = bits_send s \<and> (ok \<longrightarrow> client_fd r = client_fd s)"
    by (cases rule: read_socket_cases [of s E]) (use assms(2) c in auto)
  then show "state r = state s" "usb_out r = usb_out s" "common_state.more r = common_state.more s"
    "net_out r = net_out s" "bits_send r = bits_send s" "ok \<Longrightarrow> client_fd r = client_fd s" by simp_all
qed

lemma read_socket_keeps:
  assumes "sockets_keep E port" "read_socket E s = Inr (ok, r)"
  shows "port (world r) = port (world s)"
proof -
  let ?c = "compact_buffer s"
  obtain x a where a: "call_read E (BUFFER_SIZE - buffer_end ?c) ?c = (x, a)" by fastforce
  obtain y b where b: "call_sock E (Sock_close (client_fd a)) a = (y, b)" by fastforce
  have "port (world ?c) = port (world s)" by (simp add: compact_buffer_def)
  moreover have "port (world a) = port (world ?c)" "port (world b) = port (world a)"
    using socket_calls_keep(2) [OF assms(1), of "BUFFER_SIZE - buffer_end ?c" ?c]
      socket_calls_keep(3) [OF assms(1), of "Sock_close (client_fd a)" a] a b by simp_all
  ultimately show ?thesis
    using assms(2) b by (auto simp: read_socket_def Let_def a split: if_splits option.splits list.splits)
qed

lemma unread_end: "buffer_inv s \<Longrightarrow> buffer_end s = buffer_begin s + length (unread s) \<and> length (unread s) \<le> BUFFER_SIZE"
  by (auto simp: buffer_inv_def unread_def)

section \<open>Two concrete environments\<close>

text \<open>
  Used where a property is applied to concrete values. In \<open>queue_ext\<close> the world is the
  adapter's receive queue and what the client has sent; every write is accepted.
  \<open>zeros_ext\<close> answers every USB read with as many zero bytes as were asked for.
\<close>

definition queue_ext :: "nat \<Rightarrow> (byte list \<times> byte list) ext" where
  "queue_ext polls = \<lparr>
     ftdi_write_data = (\<lambda>bs w. (Some (length bs), w)),
     ftdi_read_data = (\<lambda>n (q, c). (Some (take n q), (drop n q, c))),
     ftdi_control = (\<lambda>op w. (if op = Ftdi_new then 1 else 0, w)),
     sock_write = (\<lambda>fd bs w. (Some (length bs), w)),
     sock_read = (\<lambda>fd n (q, c). (Some (take n c), (q, drop n c))),
     sock_control = (\<lambda>op w. (case op of Sock_select _ \<Rightarrow> 1 | Sock_socket \<Rightarrow> 3 | Sock_accept _ \<Rightarrow> 4 | _ \<Rightarrow> 0, w)),
     ext_polls = polls, ext_stack = (\<lambda>n. [])\<rparr>"

definition zeros_ext :: "nat \<Rightarrow> unit ext" where
  "zeros_ext polls = \<lparr>
     ftdi_write_data = (\<lambda>bs w. (Some (length bs), w)),
     ftdi_read_data = (\<lambda>n w. (Some (replicate n 0), w)),
     ftdi_control = (\<lambda>op w. (if op = Ftdi_new then 1 else 0, w)),
     sock_write = (\<lambda>fd bs w. (Some (length bs), w)),
     sock_read = (\<lambda>fd n w. (None, w)),
     sock_control = (\<lambda>op w. (0, w)),
     ext_polls = polls, ext_stack = (\<lambda>n. [])\<rparr>"

lemma sample_exts [simp]:
  "usb_writes_accepted (queue_ext p)" "usb_writes_accepted (zeros_ext p)" "usb_reads_answered (zeros_ext p)"
  "ftdi_fifo (queue_ext p) fst" "ext_polls (queue_ext p) = p" "ext_polls (zeros_ext p) = p"
  by (auto simp: usb_writes_accepted_def usb_reads_answered_def ftdi_fifo_def queue_ext_def zeros_ext_def)

section \<open>Properties\<close>

text \<open>
  \<open>write_full\<close> always returns; it reports success exactly when every byte of the data was
  accepted by the socket, in order; otherwise a proper prefix of the data was accepted; and
  it changes nothing else of the process.
\<close>

lemma write_full_exact:
  "\<exists>k w. k \<le> length data \<and>
     write_full E data s = (k = length data, s\<lparr>net_out := net_out s @ take k data, world := w\<rparr>)"
proof -
  obtain ok t where w: "write_full E data s = (ok, t)" by fastforce
  from write_full_log [OF w] show ?thesis unfolding w by blast
qed

text \<open>
  \<open>ftdi_write_retry\<close> hands the bytes to the adapter in order: at most 100 calls leave a
  prefix of the data on the wire, all of it when the function reports success, and it
  succeeds where every call takes all it is given.
\<close>

lemma ftdi_write_retry_exact:
  "\<exists>k w ok. k \<le> length data \<and> (ok \<longrightarrow> k = length data) \<and> (usb_writes_accepted E \<longrightarrow> ok) \<and>
     ftdi_write_retry E data s = (ok, s\<lparr>usb_out := usb_out s @ take k data, world := w\<rparr>)"
proof -
  obtain ok t where w: "ftdi_write_retry E data s = (ok, t)" by fastforce
  have "usb_writes_accepted E \<longrightarrow> ok"
    using ftdi_write_retry_accepted [of E data s] unfolding w by simp
  with ftdi_write_retry_log [OF w] show ?thesis unfolding w by blast
qed

text \<open>
  C28: \<open>read_socket\<close> is memory safe: whatever the peer sends, a state with
  \<open>buffer_begin \<le> buffer_end \<le> BUFFER_SIZE\<close> is taken to such a state without an access
  outside the buffer, and when the connection was closed by the peer the descriptor is -1 and
  the buffer is empty.
\<close>

theorem read_socket_safe:
  assumes "buffer_inv s"
  shows "\<exists>ok t. read_socket E s = Inr (ok, t) \<and> buffer_inv t \<and>
     (\<not> ok \<longrightarrow> client_fd t = -1 \<and> unread t = []) \<and> (ok \<longrightarrow> client_fd t = client_fd s)"
  using assms
proof (cases rule: read_socket_cases [of s E])
  case (idle w)
  then show ?thesis using read_socket_inv [OF assms, of E] by (auto simp: compact_buffer_def)
next
  case (closed w)
  then show ?thesis using read_socket_inv [OF assms, of E] by (auto simp: unread_def)
next
  case (data bs w)
  then show ?thesis using read_socket_inv [OF assms, of E] by (auto simp: compact_buffer_def)
qed

theorem read_socket_safe_witness:
  "\<exists>ok t. read_socket (queue_ext 1) (process_start ([], [7, 8])) = Inr (ok, t) \<and> buffer_inv t"
  using read_socket_safe [of "process_start ([], [7, 8])" "queue_ext 1"]
  by (auto simp: buffer_inv_def process_start_def)

text \<open>
  C29: \<open>read_socket\<close> does not append: with unread bytes in a buffer that is not full, the bytes
  that arrive are stored over the first unread ones, so a command that arrives in two pieces
  is corrupted.
\<close>

theorem read_socket_overwrites_unread:
  assumes "buffer_inv s" "buffer_begin s < buffer_end s" "buffer_end s < BUFFER_SIZE"
    and "sock_read E (client_fd s) (BUFFER_SIZE - buffer_end s) (world s) = (Some bs, w)"
    and "bs \<noteq> []" "length bs \<le> buffer_end s - buffer_begin s" "buffer_end s + length bs \<le> BUFFER_SIZE"
  shows "\<exists>t. read_socket E s = Inr (True, t) \<and>
     unread t = bs @ drop (length bs) (take (buffer_end s + length bs - buffer_begin s) (drop (buffer_begin s) (buffer s)))"
proof -
  have c: "compact_buffer s = s" using assms(2,3) by (simp add: compact_buffer_def)
  obtain x xs where bs: "bs = x # xs" using assms(5) by (cases bs) auto
  have len: "length (buffer s) = BUFFER_SIZE" using assms(1) by (simp add: buffer_inv_def)
  have "take (BUFFER_SIZE - buffer_end s) bs = bs" using assms(7) by simp
  then have "call_read E (BUFFER_SIZE - buffer_end s) s = (Some bs, s\<lparr>world := w\<rparr>)"
    using assms(4) by (simp add: call_read_def)
  then have "read_socket E s = Inr (True, s\<lparr>world := w, buffer := write_at (buffer s) (buffer_begin s) bs,
      buffer_end := buffer_end s + length bs\<rparr>)"
    using assms(2,3,7) bs len c by (simp add: read_socket_def Let_def)
  moreover have "drop (buffer_begin s) (write_at (buffer s) (buffer_begin s) bs) =
      bs @ drop (buffer_begin s + length bs) (buffer s)"
    using assms(2,3) len by (simp add: write_at_def)
  ultimately show ?thesis
    using assms(2,3,6,7) len by (auto simp: unread_def drop_take add.commute)
qed

theorem read_socket_overwrites_unread_witness:
  "\<exists>t. read_socket (queue_ext 1) ((process_start ([], [7, 8]))\<lparr>buffer_end := 3\<rparr>) = Inr (True, t) \<and>
     unread t = [7, 8, 0, 0, 0]"
proof -
  let ?s = "(process_start ([] :: byte list, [7, 8] :: byte list))\<lparr>buffer_end := 3\<rparr>"
  have "\<exists>t. read_socket (queue_ext 1) ?s = Inr (True, t) \<and>
     unread t = [7, 8] @ drop (length [7, 8 :: byte])
       (take (buffer_end ?s + length [7, 8 :: byte] - buffer_begin ?s) (drop (buffer_begin ?s) (buffer ?s)))"
    by (rule read_socket_overwrites_unread [where w = "([], [])"])
      (simp_all add: buffer_inv_def process_start_def queue_ext_def BUFFER_SIZE_def)
  then show ?thesis by (simp add: process_start_def BUFFER_SIZE_def numeral_eq_Suc)
qed

end
