(* ===== verification/Wire.thy ===== *)
theory Wire
  imports Tap
begin

text \<open>
  The abstract specification of what an adapter does: a list of TCK cycles. A cycle has the
  TMS level, the TDI level (\<open>None\<close> where the adapter leaves it unspecified) and whether TDO
  is sampled for the host. \<open>tap_view\<close> is what the target's TAP controller sees of such a
  list: TDI matters only in the cycles that move a bit through a shift register.
\<close>

datatype cycle = Cycle (cyc_tms: bool) (cyc_tdi: "bool option") (cyc_cap: bool)

abbreviation tms_bits :: "cycle list \<Rightarrow> bool list" where
  "tms_bits cyc \<equiv> map cyc_tms cyc"

text \<open>A scan of \<open>n\<close> bits: TDI from \<open>data\<close>, TMS raised with the last bit when \<open>flip\<close>.\<close>

definition scan_cycles :: "byte list \<Rightarrow> nat \<Rightarrow> bool \<Rightarrow> bool \<Rightarrow> cycle list" where
  "scan_cycles data n flip rd =
     map (\<lambda>i. Cycle (flip \<and> Suc i = n) (Some (bit_at data i)) rd) [0..<n]"

text \<open>The cycles a bit-bang client asks for with two bit vectors.\<close>

definition bitbang_cycles :: "byte list \<Rightarrow> byte list \<Rightarrow> nat \<Rightarrow> cycle list" where
  "bitbang_cycles tms tdi n = map (\<lambda>i. Cycle (bit_at tms i) (Some (bit_at tdi i)) False) [0..<n]"

fun tap_view :: "JtagState \<Rightarrow> cycle list \<Rightarrow> (bool \<times> bool option) list" where
  "tap_view st [] = []"
| "tap_view st (c # cs) =
     (cyc_tms c, if shifting st then cyc_tdi c else None) # tap_view (next_state st (cyc_tms c)) cs"

lemma tap_view_append:
  "tap_view st (xs @ ys) = tap_view st xs @ tap_view (run_tap st (tms_bits xs)) ys"
  by (induction xs arbitrary: st) auto

lemma length_tap_view [simp]: "length (tap_view st cs) = length cs"
  by (induction cs arbitrary: st) auto

lemma tap_view_nth:
  "i < length cs \<Longrightarrow> tap_view st cs ! i =
     (cyc_tms (cs ! i), if shifting (run_tap st (take i (tms_bits cs))) then cyc_tdi (cs ! i) else None)"
proof (induction cs arbitrary: st i)
  case Nil
  then show ?case by simp
next
  case (Cons c cs)
  then show ?case by (cases i) auto
qed

lemma length_scan_cycles [simp]: "length (scan_cycles data n flip rd) = n"
  by (simp add: scan_cycles_def)

lemma scan_cycles_nth:
  "i < n \<Longrightarrow> scan_cycles data n flip rd ! i = Cycle (flip \<and> Suc i = n) (Some (bit_at data i)) rd"
  by (simp add: scan_cycles_def)

lemma tms_scan_cycles:
  "0 < n \<Longrightarrow> tms_bits (scan_cycles data n flip rd) = replicate (n - 1) False @ [flip]"
  by (rule nth_equalityI) (auto simp: scan_cycles_nth nth_append)

lemma run_tap_scan:
  assumes "0 < n" "shifting st"
  shows "run_tap st (tms_bits (scan_cycles data n flip rd)) = (if flip then next_state st True else st)"
  using assms by (simp add: tms_scan_cycles run_tap_zeros)

lemma scan_cycles_cap: "c \<in> set (scan_cycles data n flip rd) \<Longrightarrow> cyc_cap c = rd"
  by (auto simp: scan_cycles_def)

text \<open>
  The other direction. A target answers with a TDO level in every cycle, which depends on what
  its TAP controller has seen before that cycle. \<open>tdo_bits f h v\<close> are the levels in the cycles
  \<open>v\<close> of a target \<open>f\<close> that has seen \<open>h\<close>, and \<open>history\<close> is what it has seen of a wire.
\<close>

type_synonym target = "(bool \<times> bool option) list \<Rightarrow> bool"

abbreviation history :: "cycle list \<Rightarrow> (bool \<times> bool option) list" where
  "history w \<equiv> tap_view TestLogicReset w"

definition tdo_bits :: "target \<Rightarrow> (bool \<times> bool option) list \<Rightarrow> (bool \<times> bool option) list \<Rightarrow> bool list" where
  "tdo_bits f h v = map (\<lambda>i. f (h @ take i v)) [0..<length v]"

lemma length_tdo_bits [simp]: "length (tdo_bits f h v) = length v"
  by (simp add: tdo_bits_def)

lemma tdo_bits_nth [simp]: "i < length v \<Longrightarrow> tdo_bits f h v ! i = f (h @ take i v)"
  by (simp add: tdo_bits_def)

lemma tdo_bits_append: "tdo_bits f h (v @ u) = tdo_bits f h v @ tdo_bits f (h @ v) u"
  by (rule nth_equalityI) (auto simp: nth_append)

lemma tap_view_take: "take k (tap_view st cs) = tap_view st (take k cs)"
  by (induction cs arbitrary: st k) (auto simp: take_Cons')

lemma tap_view_drop: "drop k (tap_view st cs) = tap_view (run_tap st (take k (tms_bits cs))) (drop k cs)"
proof (induction cs arbitrary: st k)
  case Nil
  then show ?case by simp
next
  case (Cons c cs)
  then show ?case by (cases k) simp_all
qed

text \<open>The level TMS was left at; a data scan without \<open>flip\<close> keeps it.\<close>

definition tms_low :: "cycle list \<Rightarrow> bool" where
  "tms_low cyc \<longleftrightarrow> cyc \<noteq> [] \<and> \<not> cyc_tms (last cyc)"

lemma tms_low_shifting:
  assumes "shifting (run_tap TestLogicReset (tms_bits cyc))"
  shows "tms_low cyc"
proof -
  have "cyc \<noteq> []" using assms by (auto simp: shifting_def)
  then have "entry_tms (run_tap TestLogicReset (tms_bits cyc)) = cyc_tms (last cyc)"
    by (simp add: entry_tms_run last_map)
  then show ?thesis
    using shifting_entry_tms [OF assms] \<open>cyc \<noteq> []\<close> by (simp add: tms_low_def)
qed

lemma tms_low_append: "ys \<noteq> [] \<Longrightarrow> tms_low (xs @ ys) = tms_low ys"
  by (simp add: tms_low_def)

end
