(* ===== verification/Driver.thy ===== *)
theory Driver
  imports Host Wire
begin

text \<open>
  \<open>struct driver\<close> (src/common.h) and the operations of src/common.cpp that go through the
  global \<open>adapter\<close>: \<open>jtag_tms_seq\<close>, \<open>jtag_scan_chain\<close> and its halves, \<open>jtag_clock_tck\<close>,
  \<open>jtag_goto_tlr\<close>, \<open>jtag_tms_seq_to\<close>, \<open>jtag_probe_devices\<close> and the adapter wrappers. The
  struct of function pointers is the record \<open>driver\<close>, and \<open>adapter\<close> the argument \<open>D\<close>. The
  locale \<open>jtag_driver\<close> states what these operations rely on; the MPSSE and the USB
  Blaster drivers interpret it.
\<close>

section \<open>Sizes\<close>

text \<open>\<open>size_t\<close> subtraction of one wraps around at zero.\<close>

definition size_dec :: "nat \<Rightarrow> nat" where
  "size_dec n = (if n = 0 then 2 ^ 64 - 1 else n - 1)"

lemma size_dec_pos [simp]: "0 < n \<Longrightarrow> size_dec n = n - 1"
  by (simp add: size_dec_def)

definition bulk_bits :: "nat \<Rightarrow> bool \<Rightarrow> nat" where
  "bulk_bits num_bits flip = (if flip then size_dec num_bits else num_bits)"

lemma bulk_bits_le: "0 < n \<Longrightarrow> bulk_bits n flip \<le> n"
  by (simp add: bulk_bits_def)

lemma bulk_len:
  assumes "0 < n" "n \<le> 2 ^ 63"
  shows "(bulk_bits n flip + 7) mod 2 ^ 64 div 8 = (bulk_bits n flip + 7) div 8"
  using assms by (simp add: bulk_bits_def)

section \<open>The driver interface\<close>

type_synonym 's op = "'s \<Rightarrow> (bool \<times> 's) result"

record 's driver =
  drv_init :: "config \<Rightarrow> 's op"
  drv_deinit :: "'s op"
  drv_set_tck_freq :: "64 word \<Rightarrow> 's op"
  drv_tms_seq :: "byte list \<Rightarrow> nat \<Rightarrow> 's op"
  drv_scan_send :: "byte list \<Rightarrow> nat \<Rightarrow> bool \<Rightarrow> bool \<Rightarrow> 's op"
  drv_scan_recv :: "byte list \<Rightarrow> nat \<Rightarrow> bool \<Rightarrow> 's \<Rightarrow> (bool \<times> byte list \<times> 's) result"
  drv_clock_tck :: "nat \<Rightarrow> 's op"

type_synonym ('w, 'z) jtag = "('w, 'z) common_state_scheme driver"

section \<open>Operations on the adapter\<close>

definition adapter_init :: "('w, 'z) jtag \<Rightarrow> config \<Rightarrow> ('w, 'z) common_state_scheme op" where
  "adapter_init D cfg s = drv_init D cfg s"

definition adapter_deinit :: "('w, 'z) jtag \<Rightarrow> ('w, 'z) common_state_scheme op" where
  "adapter_deinit D s = drv_deinit D s"

definition adapter_set_tck_freq :: "('w, 'z) jtag \<Rightarrow> 64 word \<Rightarrow> ('w, 'z) common_state_scheme op" where
  "adapter_set_tck_freq D freq s = drv_set_tck_freq D freq s"

definition jtag_tms_seq :: "('w, 'z) jtag \<Rightarrow> byte list \<Rightarrow> nat \<Rightarrow> ('w, 'z) common_state_scheme op" where
  "jtag_tms_seq D data num_bits s0 =
     (let s = s0\<lparr>bits_send := bits_send s0 + of_nat num_bits\<rparr> in
      bindR (walk_tms data 0 num_bits (state s)) (\<lambda>new_state.
        drv_tms_seq D data num_bits (s\<lparr>state := new_state\<rparr>)))"

definition jtag_scan_chain_send :: "('w, 'z) jtag \<Rightarrow> byte list \<Rightarrow> nat \<Rightarrow> bool \<Rightarrow> bool
    \<Rightarrow> ('w, 'z) common_state_scheme op" where
  "jtag_scan_chain_send D data num_bits flip do_read s =
     drv_scan_send D data num_bits flip do_read (s\<lparr>bits_send := bits_send s + of_nat num_bits\<rparr>)"

definition jtag_scan_chain_recv :: "('w, 'z) jtag \<Rightarrow> byte list \<Rightarrow> nat \<Rightarrow> bool
    \<Rightarrow> ('w, 'z) common_state_scheme \<Rightarrow> (bool \<times> byte list \<times> ('w, 'z) common_state_scheme) result" where
  "jtag_scan_chain_recv D recv num_bits flip s = drv_scan_recv D recv num_bits flip s"

definition jtag_scan_chain :: "('w, 'z) jtag \<Rightarrow> byte list \<Rightarrow> byte list \<Rightarrow> nat \<Rightarrow> bool \<Rightarrow> bool
    \<Rightarrow> ('w, 'z) common_state_scheme \<Rightarrow> (bool \<times> byte list \<times> ('w, 'z) common_state_scheme) result" where
  "jtag_scan_chain D data recv num_bits flip do_read s =
     bindR (jtag_scan_chain_send D data num_bits flip do_read s) (\<lambda>(ok, s).
       if \<not> ok then Inr (False, recv, s)
       else if do_read then jtag_scan_chain_recv D recv num_bits flip s
       else Inr (True, recv, s))"

definition jtag_clock_tck :: "('w, 'z) jtag \<Rightarrow> nat \<Rightarrow> ('w, 'z) common_state_scheme op" where
  "jtag_clock_tck D count s = drv_clock_tck D count (s\<lparr>bits_send := bits_send s + of_nat count\<rparr>)"

definition jtag_goto_tlr :: "('w, 'z) jtag \<Rightarrow> ('w, 'z) common_state_scheme op" where
  "jtag_goto_tlr D s = jtag_tms_seq D [0x1F] 5 s"

definition jtag_tms_seq_to :: "('w, 'z) jtag \<Rightarrow> JtagState \<Rightarrow> ('w, 'z) common_state_scheme op" where
  "jtag_tms_seq_to D dst s =
     bindR (jtag_get_tms_seq (state s) dst) (\<lambda>(tms, num_bits).
       if 0 < num_bits then jtag_tms_seq D [tms] num_bits s else Inr (True, s))"

definition MAX_TAPS :: nat where
  "MAX_TAPS = 8"

definition MAX_IR :: nat where
  "MAX_IR = 16"

text \<open>
  \<open>jtag_probe_devices\<close>: the return codes of the steps are ignored, the two read buffers are
  uninitialised local arrays. \<open>count_devices\<close> is the loop that looks for the first one bit;
  \<open>collect_idcodes\<close> the loop that assembles the identification codes.
\<close>

definition count_devices :: "byte list \<Rightarrow> nat" where
  "count_devices read_buffer =
     (case find (bit_at read_buffer) [0..<MAX_TAPS] of None \<Rightarrow> 0 | Some i \<Rightarrow> i)"

definition collect_idcodes :: "byte list \<Rightarrow> nat \<Rightarrow> 32 word list" where
  "collect_idcodes rb n =
     map (\<lambda>i. le32 (rb ! (i * 4)) (rb ! (i * 4 + 1)) (rb ! (i * 4 + 2)) (rb ! (i * 4 + 3))) [0..<n]"

definition jtag_probe_devices :: "'w ext \<Rightarrow> ('w, 'z) jtag \<Rightarrow> ('w, 'z) common_state_scheme
    \<Rightarrow> (32 word list \<times> ('w, 'z) common_state_scheme) result" where
  "jtag_probe_devices E D s =
     bindR (jtag_goto_tlr D s) (\<lambda>(_, s).
     bindR (jtag_tms_seq_to D ShiftIR s) (\<lambda>(_, s).
     bindR (jtag_scan_chain_send D (replicate (MAX_TAPS * MAX_IR div 8) 0xFF)
              (MAX_TAPS * MAX_IR) True False s) (\<lambda>(_, s).
     bindR (jtag_tms_seq_to D ShiftDR s) (\<lambda>(_, s).
     bindR (jtag_scan_chain_send D (replicate (MAX_TAPS div 8) 0) MAX_TAPS False False s) (\<lambda>(_, s).
     bindR (jtag_scan_chain D (replicate (MAX_TAPS div 8) 0xFF) (indeterminate E (MAX_TAPS div 8))
              MAX_TAPS True True s) (\<lambda>(_, read_buffer, s).
     let num_devices = count_devices read_buffer in
     if num_devices = 0 then Inr ([], s)
     else
       bindR (jtag_goto_tlr D s) (\<lambda>(_, s).
       bindR (jtag_tms_seq D [0x02] 4 s) (\<lambda>(_, s).
       bindR (jtag_scan_chain D (replicate (MAX_TAPS * 32 div 8) 0)
                (indeterminate E (MAX_TAPS * 32 div 8)) (MAX_TAPS * 32) True True s)
         (\<lambda>(_, read_buffer2, s).
       let res = collect_idcodes read_buffer2 num_devices in
       bindR (jtag_goto_tlr D s) (\<lambda>(_, s). Inr (res, s)))))))))))"

section \<open>The contract of a driver\<close>

text \<open>
  \<open>same_host\<close>: a driver leaves the client connection, the receive buffer and what was sent
  to the client alone. \<open>SCAN_LIMIT\<close> bounds a scan: above it the MPSSE buffer (8192 bytes)
  still has room, but the receive buffer of the USB Blaster (4096 bytes) has not.
\<close>

definition same_host :: "('w, 'z) common_state_scheme \<Rightarrow> ('w, 'z) common_state_scheme \<Rightarrow> bool" where
  "same_host s t \<longleftrightarrow> client_fd t = client_fd s \<and> listen_fd t = listen_fd s \<and>
     buffer t = buffer s \<and> buffer_begin t = buffer_begin s \<and> buffer_end t = buffer_end s \<and>
     net_out t = net_out s"

lemma same_host_refl [simp]: "same_host s s"
  by (simp add: same_host_def)

lemma same_host_trans [trans]: "same_host s t \<Longrightarrow> same_host t u \<Longrightarrow> same_host s u"
  by (simp add: same_host_def)

definition SCAN_LIMIT :: nat where
  "SCAN_LIMIT = 32704"

text \<open>
  \<open>wire\<close> is the list of cycles commanded so far (sent or still buffered); \<open>can_send\<close> says
  that no captured data is waiting to be collected; \<open>live\<close> that USB transfers work. An
  operation whose data is in bounds always ends without a fault; it succeeds when \<open>live\<close>;
  and when it succeeds it has appended exactly the cycles asked for. \<open>port\<close> is the part of the
  world the laws depend on (the USB side); \<open>target\<close> is the target at the other end, where it is
  known: then a captured scan returns the TDO levels of that target. The drivers add the last
  bit of a scan with \<open>flip_tms\<close> to the array with a bitwise or; where it starts a byte of its own,
  the caller must have cleared it (\<open>last_bit_free\<close>). \<open>wire_driver\<close> holds what concerns TMS alone,
  \<open>jtag_driver\<close> adds the scans, one after the other, and \<open>pipelined_driver\<close> scans that are queued.
\<close>

definition last_bit_free :: "byte list \<Rightarrow> nat \<Rightarrow> bool \<Rightarrow> bool" where
  "last_bit_free buf n flip \<longleftrightarrow> (flip \<and> (n - 1) mod 8 = 0 \<longrightarrow> \<not> bit_at buf (n - 1))"

lemma last_bit_free_zeros [simp]: "0 < n \<Longrightarrow> n \<le> 8 * k \<Longrightarrow> last_bit_free (replicate k 0) n flip"
  by (simp add: last_bit_free_def)

lemma last_bit_free_bytes:
  assumes "0 < n" "n mod 8 = 0"
  shows "last_bit_free buf n flip"
proof -
  have "(n - 1) mod 8 \<noteq> 0" using assms by presburger
  then show ?thesis by (simp add: last_bit_free_def)
qed

locale wire_driver =
  fixes D :: "('w, 'z) jtag"
    and drv_inv :: "('w, 'z) common_state_scheme \<Rightarrow> bool"
    and can_send :: "('w, 'z) common_state_scheme \<Rightarrow> bool"
    and wire :: "('w, 'z) common_state_scheme \<Rightarrow> cycle list"
    and live :: bool
    and port :: "'w \<Rightarrow> 'p"
  assumes view: "usb_out t = usb_out s \<Longrightarrow> common_state.more t = common_state.more s \<Longrightarrow>
      port (world t) = port (world s) \<Longrightarrow> drv_inv t = drv_inv s \<and> can_send t = can_send s \<and> wire t = wire s"
    and tms_seq: "drv_inv s \<Longrightarrow> 0 < n \<Longrightarrow> n \<le> 8 * length data \<Longrightarrow>
      \<exists>ok t. drv_tms_seq D data n s = Inr (ok, t) \<and> same_host s t \<and> state t = state s \<and>
        (live \<longrightarrow> ok) \<and>
        (ok \<longrightarrow> drv_inv t \<and> (can_send s \<longrightarrow> can_send t) \<and>
          (\<exists>cyc. wire t = wire s @ cyc \<and> tms_bits cyc = bits_of data n \<and>
                 (\<forall>c \<in> set cyc. \<not> cyc_cap c)))"

locale jtag_driver = wire_driver D drv_inv can_send wire live port
  for D :: "('w, 'z) jtag"
    and drv_inv :: "('w, 'z) common_state_scheme \<Rightarrow> bool"
    and can_send :: "('w, 'z) common_state_scheme \<Rightarrow> bool"
    and wire :: "('w, 'z) common_state_scheme \<Rightarrow> cycle list"
    and live :: bool
    and port :: "'w \<Rightarrow> 'p" +
  fixes target :: "target option"
  assumes scan_send: "drv_inv s \<Longrightarrow> can_send s \<Longrightarrow> tms_low (wire s) \<Longrightarrow> 0 < n \<Longrightarrow>
      n \<le> 8 * length data \<Longrightarrow> n \<le> SCAN_LIMIT \<Longrightarrow>
      \<exists>ok t. drv_scan_send D data n flip rd s = Inr (ok, t) \<and> same_host s t \<and> (live \<longrightarrow> ok) \<and>
        (ok \<longrightarrow> drv_inv t \<and> (\<not> rd \<longrightarrow> can_send t) \<and>
          state t = (if flip then next_state (state s) True else state s) \<and>
          wire t = wire s @ scan_cycles data n flip rd)"
    and scan_recv: "drv_inv s \<Longrightarrow> can_send s \<Longrightarrow> tms_low (wire s) \<Longrightarrow> 0 < n \<Longrightarrow>
      n \<le> 8 * length data \<Longrightarrow> n \<le> SCAN_LIMIT \<Longrightarrow>
      drv_scan_send D data n flip True s = Inr (True, t) \<Longrightarrow>
      live \<Longrightarrow> n \<le> 8 * length buf \<Longrightarrow>
      \<exists>buf' u. drv_scan_recv D buf n flip t = Inr (True, buf', u) \<and> same_host t u \<and>
        state u = state t \<and> drv_inv u \<and> can_send u \<and> wire u = wire t \<and> length buf' = length buf \<and>
        (\<forall>f. target = Some f \<and> last_bit_free buf n flip \<longrightarrow> bits_of buf' n = tdo_bits f (history (wire s))
           (tap_view (run_tap TestLogicReset (tms_bits (wire s))) (scan_cycles data n flip True)))"

text \<open>
  \<open>drives\<close>: the effect of a successful operation as the layers above use it. The software
  state follows the TAP (\<open>tracks\<close>) and the wire has grown by the given cycles.
\<close>

definition tracks :: "(('w, 'z) common_state_scheme \<Rightarrow> cycle list)
    \<Rightarrow> ('w, 'z) common_state_scheme \<Rightarrow> bool" where
  "tracks wire s \<longleftrightarrow> state s = run_tap TestLogicReset (tms_bits (wire s))"

definition drives :: "(('w, 'z) common_state_scheme \<Rightarrow> bool) \<Rightarrow> (('w, 'z) common_state_scheme \<Rightarrow> bool)
    \<Rightarrow> (('w, 'z) common_state_scheme \<Rightarrow> cycle list)
    \<Rightarrow> ('w, 'z) common_state_scheme \<Rightarrow> cycle list \<Rightarrow> ('w, 'z) common_state_scheme \<Rightarrow> bool" where
  "drives ok_inv can wire s cyc t \<longleftrightarrow> ok_inv t \<and> can t \<and> tracks wire t \<and> wire t = wire s @ cyc \<and> same_host s t"

text \<open>Between the operations of a server.\<close>

definition at_rest :: "(('w, 'z) common_state_scheme \<Rightarrow> bool) \<Rightarrow> (('w, 'z) common_state_scheme \<Rightarrow> bool)
    \<Rightarrow> (('w, 'z) common_state_scheme \<Rightarrow> cycle list) \<Rightarrow> ('w, 'z) common_state_scheme \<Rightarrow> bool" where
  "at_rest ok_inv can wire s \<longleftrightarrow> ok_inv s \<and> can s \<and> tracks wire s"

lemma drives_at_rest: "drives ok_inv can wire s cyc t \<Longrightarrow> at_rest ok_inv can wire t"
  by (simp add: drives_def at_rest_def)

lemma drives_state:
  "tracks wire s \<Longrightarrow> drives ok_inv can wire s cyc t \<Longrightarrow> state t = run_tap (state s) (tms_bits cyc)"
  by (simp add: drives_def tracks_def)

lemma drives_trans:
  "drives ok_inv can wire s xs t \<Longrightarrow> drives ok_inv can wire t ys u \<Longrightarrow> drives ok_inv can wire s (xs @ ys) u"
  by (auto simp: drives_def intro: same_host_trans)

lemma tracks_tms_low: "tracks wire s \<Longrightarrow> shifting (state s) \<Longrightarrow> tms_low (wire s)"
  by (simp add: tracks_def tms_low_shifting)

context wire_driver
begin

lemma view_update:
  "drv_inv (s\<lparr>bits_send := b\<rparr>) = drv_inv s" "drv_inv (s\<lparr>state := x\<rparr>) = drv_inv s"
  "can_send (s\<lparr>bits_send := b\<rparr>) = can_send s" "can_send (s\<lparr>state := x\<rparr>) = can_send s"
  "wire (s\<lparr>bits_send := b\<rparr>) = wire s" "wire (s\<lparr>state := x\<rparr>) = wire s"
  using view [of "s\<lparr>bits_send := b\<rparr>" s] view [of "s\<lparr>state := x\<rparr>" s] by simp_all

lemma tms_seq_drives:
  assumes "live" "drv_inv s" "can_send s" "tracks wire s" "0 < n" "n \<le> 8 * length data"
  shows "\<exists>t cyc. jtag_tms_seq D data n s = Inr (True, t) \<and> drives drv_inv can_send wire s cyc t \<and>
     tms_bits cyc = bits_of data n \<and> (\<forall>c \<in> set cyc. \<not> cyc_cap c)"
proof -
  let ?s = "s\<lparr>bits_send := bits_send s + of_nat n, state := run_tap (state s) (bits_of data n)\<rparr>"
  have call: "jtag_tms_seq D data n s = drv_tms_seq D data n ?s"
    using assms by (simp add: jtag_tms_seq_def)
  have inv: "drv_inv ?s" using assms by (simp add: view_update)
  from tms_seq [OF inv assms(5,6)] assms(1) obtain t where
    c: "drv_tms_seq D data n ?s = Inr (True, t)" "same_host ?s t" "state t = state ?s" "drv_inv t"
    and d: "can_send ?s \<longrightarrow> can_send t" "\<exists>cyc. wire t = wire ?s @ cyc \<and> tms_bits cyc = bits_of data n \<and>
                 (\<forall>c \<in> set cyc. \<not> cyc_cap c)" by auto
  from d(2) obtain cyc where
    w: "wire t = wire ?s @ cyc" "tms_bits cyc = bits_of data n" "\<forall>c \<in> set cyc. \<not> cyc_cap c" by blast
  have "drives drv_inv can_send wire s cyc t"
    using assms(3,4) c d(1) w by (simp add: drives_def tracks_def same_host_def view_update)
  with call c w show ?thesis by auto
qed

end

context jtag_driver
begin

lemma scan_send_drives:
  assumes "live" "drv_inv s" "can_send s" "tracks wire s" "shifting (state s)"
    and "0 < n" "n \<le> 8 * length data" "n \<le> SCAN_LIMIT"
  shows "\<exists>t. jtag_scan_chain_send D data n flip False s = Inr (True, t) \<and>
     drives drv_inv can_send wire s (scan_cycles data n flip False) t"
proof -
  let ?s = "s\<lparr>bits_send := bits_send s + of_nat n\<rparr>"
  have inv: "drv_inv ?s" "can_send ?s" "tms_low (wire ?s)"
    using assms tracks_tms_low [of wire s] by (simp_all add: view_update)
  from scan_send [OF inv assms(6,7,8), of flip False] assms(1) obtain t where
    c: "drv_scan_send D data n flip False ?s = Inr (True, t)" "same_host ?s t" "drv_inv t" "can_send t"
      "state t = (if flip then next_state (state ?s) True else state ?s)"
      "wire t = wire ?s @ scan_cycles data n flip False" by auto
  then have "tracks wire t"
    using assms(4,5,6) run_tap_scan [of n "state s" data flip False] by (simp add: tracks_def view_update)
  with c show ?thesis by (auto simp: jtag_scan_chain_send_def drives_def same_host_def view_update)
qed

lemma scan_chain_drives:
  assumes "live" "drv_inv s" "can_send s" "tracks wire s" "shifting (state s)"
    and "0 < n" "n \<le> 8 * length data" "n \<le> SCAN_LIMIT" "n \<le> 8 * length buf"
  shows "\<exists>buf' t. jtag_scan_chain D data buf n flip rd s = Inr (True, buf', t) \<and> length buf' = length buf \<and>
     drives drv_inv can_send wire s (scan_cycles data n flip rd) t \<and>
     (\<forall>f. rd \<and> target = Some f \<and> last_bit_free buf n flip \<longrightarrow>
        bits_of buf' n = tdo_bits f (history (wire s)) (tap_view (state s) (scan_cycles data n flip True)))"
proof (cases rd)
  case False
  with scan_send_drives [OF assms(1-8), of flip] show ?thesis by (auto simp: jtag_scan_chain_def)
next
  case True
  let ?s = "s\<lparr>bits_send := bits_send s + of_nat n\<rparr>"
  have inv: "drv_inv ?s" "can_send ?s" "tms_low (wire ?s)"
    using assms tracks_tms_low [of wire s] by (simp_all add: view_update)
  from scan_send [OF inv assms(6,7,8), of flip True] assms(1) obtain t where
    c: "drv_scan_send D data n flip True ?s = Inr (True, t)" "same_host ?s t" "drv_inv t"
      "state t = (if flip then next_state (state ?s) True else state ?s)"
      "wire t = wire ?s @ scan_cycles data n flip True" by auto
  from scan_recv [OF inv assms(6,7,8) c(1) assms(1,9)] obtain buf' u where
    r: "drv_scan_recv D buf n flip t = Inr (True, buf', u)" "same_host t u" "state u = state t"
      "drv_inv u" "can_send u" "wire u = wire t" "length buf' = length buf"
    and tdo: "\<forall>f. target = Some f \<and> last_bit_free buf n flip \<longrightarrow> bits_of buf' n = tdo_bits f (history (wire ?s))
           (tap_view (run_tap TestLogicReset (tms_bits (wire ?s))) (scan_cycles data n flip True))" by blast
  have tdo': "\<forall>f. rd \<and> target = Some f \<and> last_bit_free buf n flip \<longrightarrow>
        bits_of buf' n = tdo_bits f (history (wire s)) (tap_view (state s) (scan_cycles data n flip True))"
    using tdo assms(4) by (simp add: tracks_def view_update)
  from c r have "tracks wire u"
    using assms(4,5,6) run_tap_scan [of n "state s" data flip True] by (simp add: tracks_def view_update)
  then have "drives drv_inv can_send wire s (scan_cycles data n flip True) u"
    using c r by (simp add: drives_def same_host_def view_update)
  moreover have "jtag_scan_chain D data buf n flip rd s = Inr (True, buf', u)"
    using c(1) r(1) True by (simp add: jtag_scan_chain_def jtag_scan_chain_send_def jtag_scan_chain_recv_def)
  ultimately show ?thesis using r(7) tdo' True by auto
qed

lemma goto_tlr_drives:
  assumes "live" "drv_inv s" "can_send s" "tracks wire s"
  shows "\<exists>t cyc. jtag_goto_tlr D s = Inr (True, t) \<and> drives drv_inv can_send wire s cyc t \<and>
     state t = TestLogicReset"
proof -
  from tms_seq_drives [OF assms, of 5 "[0x1F]"] obtain t cyc where
    t: "jtag_tms_seq D [0x1F] 5 s = Inr (True, t)" "drives drv_inv can_send wire s cyc t"
      "tms_bits cyc = bits_of [0x1F] 5" by auto
  have "bits_of [0x1F] 5 = [True, True, True, True, True]" by (simp add: bits_of_byte)
  with t drives_state [OF assms(4) t(2)] five_ones_reset [of "state s"] show ?thesis
    by (auto simp: jtag_goto_tlr_def)
qed

lemma tms_seq_to_drives:
  assumes "live" "drv_inv s" "can_send s" "tracks wire s" "jtag_get_tms_seq (state s) dst = Inr p"
  shows "\<exists>t cyc. jtag_tms_seq_to D dst s = Inr (True, t) \<and> drives drv_inv can_send wire s cyc t \<and>
     state t = dst"
proof -
  obtain tms n where p: "p = (tms, n)" by fastforce
  note path = jtag_get_tms_seq_path [OF assms(5) [unfolded p]]
  show ?thesis
  proof (cases "n = 0")
    case True
    with path assms p show ?thesis
      by (auto simp: jtag_tms_seq_to_def drives_def intro!: exI [of _ "[]"])
  next
    case False
    with tms_seq_drives [OF assms(1-4), of n "[tms]"] path obtain t cyc where
      t: "jtag_tms_seq D [tms] n s = Inr (True, t)" "drives drv_inv can_send wire s cyc t"
        "tms_bits cyc = bits_of [tms] n" by auto
    with drives_state [OF assms(4) t(2)] path False assms(5) p show ?thesis
      by (auto simp: jtag_tms_seq_to_def)
  qed
qed

end

text \<open>
  A driver whose scans may be queued before any result is collected, which can clock
  without data and change its clock. The Xilinx virtual cable server relies on all three.
\<close>

definition CLOCK_LIMIT :: nat where
  "CLOCK_LIMIT = 524288"

text \<open>
  The scans that are under way, in order: their length, whether they raise TMS with the last bit,
  and the TDO levels to be returned. Without a known target nothing is said of the levels.
\<close>

type_synonym owed = "nat \<times> bool \<times> bool list"

definition shown_by :: "target option \<Rightarrow> target" where
  "shown_by target h = (case target of None \<Rightarrow> False | Some f \<Rightarrow> f h)"

locale pipelined_driver =
  fixes D :: "('w, 'z) jtag"
    and drv_inv :: "('w, 'z) common_state_scheme \<Rightarrow> bool"
    and owes :: "owed list \<Rightarrow> ('w, 'z) common_state_scheme \<Rightarrow> bool"
    and wire :: "('w, 'z) common_state_scheme \<Rightarrow> cycle list"
    and live :: bool
    and port :: "'w \<Rightarrow> 'p"
    and target :: "target option"
  assumes wires: "wire_driver D drv_inv (owes q) wire live port"
    and scan_queue: "drv_inv s \<Longrightarrow> owes q s \<Longrightarrow> tms_low (wire s) \<Longrightarrow> 0 < n \<Longrightarrow>
      n \<le> 8 * length data \<Longrightarrow> n \<le> SCAN_LIMIT \<Longrightarrow>
      \<exists>ok t. drv_scan_send D data n flip rd s = Inr (ok, t) \<and> same_host s t \<and> (live \<longrightarrow> ok) \<and>
        (ok \<longrightarrow> drv_inv t \<and> state t = (if flip then next_state (state s) True else state s) \<and>
          wire t = wire s @ scan_cycles data n flip rd \<and>
          owes (q @ (if rd then [(n, flip, tdo_bits (shown_by target) (history (wire s))
            (tap_view (run_tap TestLogicReset (tms_bits (wire s))) (scan_cycles data n flip True)))] else [])) t)"
    and clock_tck: "drv_inv s \<Longrightarrow> owes q s \<Longrightarrow> wire s \<noteq> [] \<Longrightarrow> count \<le> CLOCK_LIMIT \<Longrightarrow>
      \<exists>ok t. drv_clock_tck D count s = Inr (ok, t) \<and> same_host s t \<and> state t = state s \<and> (live \<longrightarrow> ok) \<and>
        (ok \<longrightarrow> drv_inv t \<and> owes q t \<and>
          wire t = wire s @ replicate count (Cycle (cyc_tms (last (wire s))) None False))"
    and recv_queued: "drv_inv s \<Longrightarrow> owes ((n, flip, bits) # q) s \<Longrightarrow> 0 < n \<Longrightarrow> n \<le> SCAN_LIMIT \<Longrightarrow>
      n \<le> 8 * length buf \<Longrightarrow> live \<Longrightarrow>
      \<exists>buf' t. drv_scan_recv D buf n flip s = Inr (True, buf', t) \<and> same_host s t \<and>
        state t = state s \<and> drv_inv t \<and> owes q t \<and> wire t = wire s \<and> length buf' = length buf \<and>
        (target \<noteq> None \<and> last_bit_free buf n flip \<longrightarrow> bits_of buf' n = bits)"
    and set_tck_freq: "drv_inv s \<Longrightarrow> owes q s \<Longrightarrow> 0 < freq \<Longrightarrow> freq \<le> 1000 \<Longrightarrow>
      \<exists>ok t. drv_set_tck_freq D freq s = Inr (ok, t) \<and> same_host s t \<and> state t = state s \<and> (live \<longrightarrow> ok) \<and>
        (ok \<longrightarrow> drv_inv t \<and> owes q t \<and> wire t = wire s)"

sublocale pipelined_driver \<subseteq> owing: wire_driver D drv_inv "owes q" wire live port for q
  by (rule wires)

lemma shown_by_Some [simp]: "shown_by (Some f) = f"
  by (simp add: shown_by_def fun_eq_iff)

text \<open>A driver that queues is a driver: a scan is sent when nothing is under way, and collected.\<close>

sublocale pipelined_driver \<subseteq> single: jtag_driver D drv_inv "owes []" wire live port target
proof (unfold_locales, goal_cases)
  case (1 s n data flip rd)
  from scan_queue [OF 1, of flip rd] show ?case by (auto split: if_splits)
next
  case (2 s n data flip t buf)
  from scan_queue [OF 2(1-6), of flip True] 2(7) have t: "drv_inv t" "owes [(n, flip, tdo_bits (shown_by target)
      (history (wire s)) (tap_view (run_tap TestLogicReset (tms_bits (wire s))) (scan_cycles data n flip True)))] t" by auto
  from recv_queued [OF t 2(4,6,9,8)] show ?case by auto
qed

context pipelined_driver
begin

lemma set_freq_drives:
  assumes "live" "drv_inv s" "owes q s" "tracks wire s" "0 < freq" "freq \<le> 1000"
  shows "\<exists>t. adapter_set_tck_freq D freq s = Inr (True, t) \<and> drives drv_inv (owes q) wire s [] t"
  using set_tck_freq [OF assms(2,3,5,6)] assms(1,4)
  by (auto simp: adapter_set_tck_freq_def drives_def tracks_def)

lemma clock_drives:
  assumes "live" "drv_inv s" "owes q s" "tracks wire s" "state s = RunTestIdle" "count \<le> CLOCK_LIMIT"
  shows "\<exists>t. jtag_clock_tck D count s = Inr (True, t) \<and>
     drives drv_inv (owes q) wire s (replicate count (Cycle False None False)) t"
proof -
  let ?s = "s\<lparr>bits_send := bits_send s + of_nat count\<rparr>"
  have ne: "wire s \<noteq> []" using assms(4,5) by (auto simp: tracks_def)
  then have "entry_tms (state s) = cyc_tms (last (wire s))"
    using assms(4) by (simp add: tracks_def entry_tms_run last_map)
  then have lvl: "cyc_tms (last (wire s)) = False" using assms(5) by (simp add: entry_tms_def)
  have inv: "drv_inv ?s" "owes q ?s" "wire ?s \<noteq> []" using assms ne by (simp_all add: owing.view_update)
  from clock_tck [OF inv assms(6)] assms(1) obtain t where
    t: "drv_clock_tck D count ?s = Inr (True, t)" "same_host ?s t" "state t = state ?s" "drv_inv t" "owes q t"
      "wire t = wire ?s @ replicate count (Cycle (cyc_tms (last (wire ?s))) None False)" by auto
  have "run_tap RunTestIdle (map cyc_tms (replicate count (Cycle False None False))) = RunTestIdle"
    by (simp add: run_tap_zeros map_replicate)
  with t lvl assms(4,5) show ?thesis
    by (auto simp: jtag_clock_tck_def drives_def tracks_def same_host_def owing.view_update)
qed

lemma recv_drives:
  assumes "live" "drv_inv s" "owes ((n, flip, bits) # q) s" "tracks wire s" "0 < n" "n \<le> SCAN_LIMIT" "n \<le> 8 * length buf"
  shows "\<exists>buf' t. jtag_scan_chain_recv D buf n flip s = Inr (True, buf', t) \<and> length buf' = length buf \<and>
     drives drv_inv (owes q) wire s [] t \<and> (target \<noteq> None \<and> last_bit_free buf n flip \<longrightarrow> bits_of buf' n = bits)"
proof -
  from recv_queued [OF assms(2,3,5,6,7,1)] obtain buf' t where
    "drv_scan_recv D buf n flip s = Inr (True, buf', t)" "same_host s t"
      "state t = state s" "drv_inv t" "owes q t" "wire t = wire s" "length buf' = length buf"
      "target \<noteq> None \<and> last_bit_free buf n flip \<longrightarrow> bits_of buf' n = bits" by blast
  then show ?thesis using assms(4)
    by (auto simp: jtag_scan_chain_recv_def drives_def tracks_def)
qed

lemma send_drives:
  assumes "live" "drv_inv s" "owes q s" "tracks wire s" "shifting (state s)"
    and "0 < n" "n \<le> 8 * length data" "n \<le> SCAN_LIMIT"
  shows "\<exists>t. jtag_scan_chain_send D data n flip True s = Inr (True, t) \<and>
     drives drv_inv (owes (q @ [(n, flip, tdo_bits (shown_by target) (history (wire s))
       (tap_view (state s) (scan_cycles data n flip True)))])) wire s (scan_cycles data n flip True) t"
proof -
  let ?s = "s\<lparr>bits_send := bits_send s + of_nat n\<rparr>"
  have inv: "drv_inv ?s" "owes q ?s" "tms_low (wire ?s)"
    using assms tracks_tms_low [of wire s] by (simp_all add: owing.view_update)
  from scan_queue [OF inv assms(6,7,8), of flip True] assms(1) obtain t where
    c: "drv_scan_send D data n flip True ?s = Inr (True, t)" "same_host ?s t" "drv_inv t"
      "state t = (if flip then next_state (state ?s) True else state ?s)"
      "wire t = wire ?s @ scan_cycles data n flip True"
      "owes (q @ [(n, flip, tdo_bits (shown_by target) (history (wire ?s))
         (tap_view (run_tap TestLogicReset (tms_bits (wire ?s))) (scan_cycles data n flip True)))]) t" by auto
  then have "tracks wire t"
    using assms(4,5,6) run_tap_scan [of n "state s" data flip True] by (simp add: tracks_def owing.view_update)
  with c assms(4) show ?thesis
    by (auto simp: jtag_scan_chain_send_def drives_def tracks_def same_host_def owing.view_update)
qed

end

lemma drivesD:
  assumes "drives ok_inv can wire s cyc t"
  shows "ok_inv t" "can t" "tracks wire t" "same_host s t"
  using assms by (simp_all add: drives_def)

lemma count_devices_le: "count_devices rb \<le> 7"
proof (cases "find (bit_at rb) [0..<MAX_TAPS]")
  case None
  then show ?thesis by (simp add: count_devices_def)
next
  case (Some i)
  then have "i \<in> set [0..<MAX_TAPS]" by (metis find_Some_iff nth_mem)
  with Some show ?thesis by (simp add: count_devices_def MAX_TAPS_def)
qed

text \<open>
  A chain of \<open>k\<close> one-bit bypass registers, flushed with zeros and then fed with ones,
  returns \<open>k\<close> zeros before the first one.
\<close>

lemma count_devices_chain:
  assumes "k < MAX_TAPS" "\<forall>i<k. \<not> bit_at rb i" "bit_at rb k"
  shows "count_devices rb = k"
proof -
  have "find (bit_at rb) [0..<MAX_TAPS] = Some k"
    using assms by (auto simp: find_Some_iff intro!: exI [of _ k])
  then show ?thesis by (simp add: count_devices_def)
qed

lemma length_collect_idcodes [simp]: "length (collect_idcodes rb n) = n"
  by (simp add: collect_idcodes_def)

lemma tms_path_facts:
  "jtag_get_tms_seq TestLogicReset ShiftIR = Inr (0x06, 5)"
  "jtag_get_tms_seq Exit1IR ShiftDR = Inr (0x3, 4)"
  "run_tap TestLogicReset (bits_of [0x02] 4) = ShiftDR"
  by (simp_all add: jtag_get_tms_seq_def bits_of_byte)

end
