(* ===== verification/Regions.thy ===== *)
theory Regions
  imports Tap
begin

text \<open>
  \<open>struct Region\<close> (src/common.h) and \<open>analyze_bitbang\<close> (src/common.cpp): cutting a TMS
  bit vector into the maximal runs outside and inside the shift states. The bit-bang
  servers send the former as TMS sequences and the latter as scans, so that everything
  they do rests on the shape of this list, which \<open>tiles\<close> states: the regions follow one
  another without gap or overlap, each is a maximal run, and a data region is flagged
  \<open>flip_tms\<close> exactly when its last bit leaves the shift state.
\<close>

section \<open>Regions\<close>

text \<open>
  \<open>flip_tms\<close> is left unset by the source in the first kind of region: \<open>None\<close>. A read of
  it there would be a read of an indeterminate value (\<open>Uninitialised\<close>).
\<close>

record Region =
  is_tms :: bool
  flip_tms :: "bool option"
  region_begin :: nat
  region_end :: nat

definition region_length :: "Region \<Rightarrow> nat result" where
  "region_length r = (if region_begin r < region_end r
     then Inr (region_end r - region_begin r) else Inl AssertionFailed)"

definition region_flip :: "Region \<Rightarrow> bool result" where
  "region_flip r = (case flip_tms r of None \<Rightarrow> Inl Uninitialised | Some b \<Rightarrow> Inr b)"

fun analyze_loop :: "byte list \<Rightarrow> nat \<Rightarrow> nat \<Rightarrow> nat \<Rightarrow> JtagState \<Rightarrow> Region list
    \<Rightarrow> (nat \<times> JtagState \<times> Region list) result" where
  "analyze_loop tms i 0 shift_pos cur_state regions = Inr (shift_pos, cur_state, regions)"
| "analyze_loop tms i (Suc k) shift_pos cur_state regions =
     bindR (read_bit tms i) (\<lambda>tms_bit.
       let new_state = next_state cur_state tms_bit in
       if (cur_state \<noteq> ShiftDR \<and> new_state = ShiftDR) \<or>
          (cur_state \<noteq> ShiftIR \<and> new_state = ShiftIR) then
         analyze_loop tms (Suc i) k (i + 1) new_state
           (regions @ [\<lparr>is_tms = True, flip_tms = None,
                        region_begin = shift_pos, region_end = i + 1\<rparr>])
       else if (cur_state = ShiftDR \<and> new_state \<noteq> ShiftDR) \<or>
               (cur_state = ShiftIR \<and> new_state \<noteq> ShiftIR) then
         analyze_loop tms (Suc i) k (i + 1) new_state
           (regions @ [\<lparr>is_tms = False, flip_tms = Some True,
                        region_begin = shift_pos, region_end = i + 1\<rparr>])
       else analyze_loop tms (Suc i) k shift_pos new_state regions)"

definition analyze_bitbang :: "byte list \<Rightarrow> nat \<Rightarrow> JtagState \<Rightarrow> (Region list \<times> JtagState) result" where
  "analyze_bitbang tms bits st =
     bindR (analyze_loop tms 0 bits 0 st []) (\<lambda>(shift_pos, cur_state, regions).
       Inr (if shift_pos \<noteq> bits
            then regions @ [\<lparr>is_tms = (cur_state \<noteq> ShiftDR \<and> cur_state \<noteq> ShiftIR),
                             flip_tms = Some False, region_begin = shift_pos, region_end = bits\<rparr>]
            else regions, cur_state))"

section \<open>What the list of regions says about the bits\<close>

definition st_at :: "JtagState \<Rightarrow> bool list \<Rightarrow> nat \<Rightarrow> JtagState" where
  "st_at st bs j = run_tap st (take j bs)"

definition region_ok :: "JtagState \<Rightarrow> bool list \<Rightarrow> Region \<Rightarrow> bool" where
  "region_ok st bs r \<longleftrightarrow>
     region_begin r < region_end r \<and> region_end r \<le> length bs \<and>
     (\<forall>j \<in> {region_begin r..<region_end r}. shifting (st_at st bs j) = (\<not> is_tms r)) \<and>
     (region_end r < length bs \<longrightarrow> shifting (st_at st bs (region_end r)) = is_tms r) \<and>
     (\<not> is_tms r \<longrightarrow> flip_tms r = Some (bs ! (region_end r - 1)))"

fun tiles :: "JtagState \<Rightarrow> bool list \<Rightarrow> nat \<Rightarrow> Region list \<Rightarrow> nat \<Rightarrow> bool" where
  "tiles st bs a [] b \<longleftrightarrow> a = b"
| "tiles st bs a (r # rs) b \<longleftrightarrow>
     region_begin r = a \<and> region_ok st bs r \<and> tiles st bs (region_end r) rs b"

lemma tiles_append: "tiles st bs a (xs @ ys) b \<longleftrightarrow> (\<exists>m. tiles st bs a xs m \<and> tiles st bs m ys b)"
  by (induction xs arbitrary: a) auto

lemma tiles_snoc:
  "tiles st bs a rs (region_begin r) \<Longrightarrow> region_ok st bs r \<Longrightarrow> tiles st bs a (rs @ [r]) (region_end r)"
  by (auto simp: tiles_append)

lemma tiles_mem: "tiles st bs a rs b \<Longrightarrow> r \<in> set rs \<Longrightarrow> region_ok st bs r"
  by (induction rs arbitrary: a) auto

lemma tiles_cover:
  "tiles st bs p rs q \<Longrightarrow> p \<le> i \<Longrightarrow> i < q \<Longrightarrow> \<exists>r \<in> set rs. region_begin r \<le> i \<and> i < region_end r"
proof (induction rs arbitrary: p)
  case Nil
  then show ?case by simp
next
  case (Cons r rs)
  then show ?case using Cons.IH [of "region_end r"] by (cases "i < region_end r") auto
qed

lemma tiles_le: "tiles st bs a rs b \<Longrightarrow> a \<le> b"
proof (induction rs arbitrary: a)
  case Nil
  then show ?case by simp
next
  case (Cons r rs)
  from Cons.IH [of "region_end r"] Cons.prems show ?case by (auto simp: region_ok_def)
qed

lemma st_at_0 [simp]: "st_at st bs 0 = st"
  by (simp add: st_at_def)

lemma st_at_Suc: "j < length bs \<Longrightarrow> st_at st bs (Suc j) = next_state (st_at st bs j) (bs ! j)"
  by (simp add: st_at_def take_Suc_conv_app_nth)

lemma st_at_full: "st_at st bs (length bs) = run_tap st bs"
  by (simp add: st_at_def)

lemma shift_edge:
  assumes "new = next_state cur b"
  shows "((cur \<noteq> ShiftDR \<and> new = ShiftDR) \<or> (cur \<noteq> ShiftIR \<and> new = ShiftIR)) = (\<not> shifting cur \<and> shifting new)"
    and "((cur = ShiftDR \<and> new \<noteq> ShiftDR) \<or> (cur = ShiftIR \<and> new \<noteq> ShiftIR)) = (shifting cur \<and> \<not> shifting new)"
  unfolding assms by (cases cur; cases b; simp add: shifting_def)+

text \<open>Closing a run at position \<open>i + 1\<close>, where the state changes between the two kinds.\<close>

lemma region_ok_close:
  assumes run: "\<forall>j \<in> {sp..i}. shifting (st_at st bs j) = v"
    and sp: "sp \<le> i" and i: "i < length bs"
    and edge: "shifting (st_at st bs (Suc i)) = (\<not> v)"
    and r: "is_tms r = (\<not> v)" "region_begin r = sp" "region_end r = Suc i"
      "v \<Longrightarrow> flip_tms r = Some True"
  shows "region_ok st bs r"
proof -
  have "v \<Longrightarrow> bs ! i"
    using edge run sp i by (auto simp: st_at_Suc shifting_next)
  then have "\<not> is_tms r \<longrightarrow> flip_tms r = Some (bs ! i)"
    using r(1,4) by simp
  then show ?thesis
    using run sp i edge by (simp add: region_ok_def r)
qed

lemma analyze_loop_tiles:
  assumes "i + k = n" "n \<le> 8 * length tms" "bs = bits_of tms n" "tiles st bs 0 rs sp" "sp \<le> i"
    and "\<forall>j \<in> {sp..i}. shifting (st_at st bs j) = v"
  shows "\<exists>sp' rs' v'. analyze_loop tms i k sp (st_at st bs i) rs = Inr (sp', run_tap st bs, rs') \<and>
         tiles st bs 0 rs' sp' \<and> sp' \<le> n \<and> (\<forall>j \<in> {sp'..n}. shifting (st_at st bs j) = v')"
  using assms
proof (induction k arbitrary: i sp rs v)
  case 0
  then show ?case using st_at_full [of st bs] by auto
next
  case (Suc k)
  let ?cur = "st_at st bs i"
  have i: "i < n" "i < 8 * length tms" "i < length bs" using Suc.prems by simp_all
  define new where "new = next_state ?cur (bit_at tms i)"
  have new: "st_at st bs (Suc i) = new" using i Suc.prems(3) by (simp add: new_def st_at_Suc)
  have cur: "shifting ?cur = v" using Suc.prems(5,6) by simp
  define r where "r = (if shifting new
    then \<lparr>is_tms = True, flip_tms = None, region_begin = sp, region_end = i + 1\<rparr>
    else \<lparr>is_tms = False, flip_tms = Some True, region_begin = sp, region_end = i + 1\<rparr>)"
  have unfold: "analyze_loop tms i (Suc k) sp ?cur rs =
    (if shifting new = v then analyze_loop tms (Suc i) k sp new rs
     else analyze_loop tms (Suc i) k (i + 1) new (rs @ [r]))"
    using i(2) by (simp add: Let_def new_def [symmetric] shift_edge [OF new_def] cur r_def)
  show ?case
  proof (cases "shifting new = v")
    case True
    have "\<forall>j \<in> {sp..Suc i}. shifting (st_at st bs j) = v"
      using Suc.prems(6) True new by (auto simp: le_Suc_eq)
    from Suc.IH [OF _ Suc.prems(2,3,4) _ this] Suc.prems(1,5) True show ?thesis
      by (simp add: unfold new del: analyze_loop.simps)
  next
    case False
    then have "region_ok st bs r"
      using Suc.prems(5,6) i new by (intro region_ok_close [where v = v]) (auto simp: r_def)
    then have "tiles st bs 0 (rs @ [r]) (region_end r)"
      using Suc.prems(4) by (intro tiles_snoc) (auto simp: r_def)
    moreover have "region_end r = i + 1" by (simp add: r_def)
    ultimately have "tiles st bs 0 (rs @ [r]) (i + 1)" by (simp only:)
    from Suc.IH [where i = "Suc i" and v = "shifting new", OF _ Suc.prems(2,3) this] Suc.prems(1) False new show ?thesis
      by (simp add: unfold del: analyze_loop.simps)
  qed
qed

lemma analyze_bitbang_tiles:
  assumes "bits \<le> 8 * length tms"
  shows "\<exists>rs. analyze_bitbang tms bits st = Inr (rs, run_tap st (bits_of tms bits)) \<and>
              tiles st (bits_of tms bits) 0 rs bits"
proof -
  define bs where "bs = bits_of tms bits"
  have len: "length bs = bits" by (simp add: bs_def)
  obtain sp rs v where loop: "analyze_loop tms 0 bits 0 st [] = Inr (sp, run_tap st bs, rs)"
    and t: "tiles st bs 0 rs sp" and sp: "sp \<le> bits"
    and run: "\<forall>j \<in> {sp..bits}. shifting (st_at st bs j) = v"
    using analyze_loop_tiles [of 0 bits bits tms bs st "[]" 0 "shifting st"] assms bs_def by auto
  have v: "shifting (run_tap st bs) = v"
    using run sp st_at_full [of st bs] len by (metis atLeastAtMost_iff order_refl)
  let ?r = "\<lparr>is_tms = (\<not> v), flip_tms = Some False, region_begin = sp, region_end = bits\<rparr>"
  have "region_ok st bs ?r" if less: "sp < bits"
  proof -
    from less obtain m where m: "bits = Suc m" by (cases bits) auto
    have "st_at st bs (Suc m) = next_state (st_at st bs m) (bs ! m)"
      using m len by (simp add: st_at_Suc)
    then have "v \<Longrightarrow> \<not> bs ! m"
      using run less m by (metis atLeastAtMost_iff le_Suc_eq less_Suc_eq_le order_refl shifting_next)
    then show ?thesis
      using run less m len by (auto simp: region_ok_def)
  qed
  then have "tiles st bs 0 (rs @ [?r]) bits" if "sp \<noteq> bits"
    using t that sp by (auto simp: tiles_append)
  with loop t v show ?thesis
    by (auto simp: analyze_bitbang_def shifting_def bs_def)
qed

lemma analyze_bitbang_out_of_bounds:
  assumes "8 * length tms < bits"
  shows "analyze_bitbang tms bits st = Inl OutOfBounds"
proof -
  have "i + k = bits \<Longrightarrow> i \<le> 8 * length tms \<Longrightarrow> analyze_loop tms i k sp cur rs = Inl OutOfBounds"
    for i k sp cur rs
  proof (induction k arbitrary: i sp cur rs)
    case 0
    then show ?case using assms by simp
  next
    case (Suc k)
    then show ?case by (cases "i < 8 * length tms") (simp_all add: Let_def)
  qed
  from this [of 0 bits] show ?thesis by (simp add: analyze_bitbang_def)
qed

section \<open>Properties\<close>

text \<open>
  C7: \<open>analyze_bitbang\<close> cuts a TMS vector that is inside its array into regions that tile it from
  the first to the last bit, each of them a maximal run inside or outside the shift states, a
  data region being flagged with the TMS value of its last bit; and the state it reports is
  the state the whole vector leads to. A vector longer than the array is an access out of
  bounds.
\<close>

theorem analyze_bitbang_correct:
  "(8 * length tms < bits \<longrightarrow> analyze_bitbang tms bits st = Inl OutOfBounds) \<and>
   (bits \<le> 8 * length tms \<longrightarrow>
     (\<exists>rs. analyze_bitbang tms bits st = Inr (rs, run_tap st (bits_of tms bits)) \<and>
           tiles st (bits_of tms bits) 0 rs bits))"
  using analyze_bitbang_tiles [of bits tms st] analyze_bitbang_out_of_bounds [of tms bits st] by auto

theorem analyze_bitbang_correct_witness:
  "\<exists>rs. analyze_bitbang [0x31, 0x00] 12 RunTestIdle = Inr (rs, run_tap RunTestIdle (bits_of [0x31, 0x00] 12)) \<and>
     tiles RunTestIdle (bits_of [0x31, 0x00] 12) 0 rs 12"
  using analyze_bitbang_correct [of "[0x31, 0x00]" 12 RunTestIdle] by simp

end
