(* ===== verification/Replay.thy ===== *)
theory Replay
  imports Driver Regions
begin

text \<open>
  What the bit-bang servers (src/rbb.cpp, src/xvc.cpp) do with one region of a TMS/TDI vector
  on a driver that keeps its contract: the cycles it adds to the wire look to the target's TAP
  controller like the cycles of the region. The servers' theories string the regions together.
\<close>

section \<open>Windows of a list\<close>

definition window :: "'a list \<Rightarrow> nat \<Rightarrow> nat \<Rightarrow> 'a list" where
  "window xs a b = take (b - a) (drop a xs)"

lemma window_append: "a \<le> m \<Longrightarrow> m \<le> b \<Longrightarrow> window xs a m @ window xs m b = window xs a b"
  using take_drop_join [of "m - a" a xs "b - m"] by (simp add: window_def)

lemma length_window [simp]: "b \<le> length xs \<Longrightarrow> length (window xs a b) = b - a"
  by (simp add: window_def)

lemma window_nth [simp]: "i < b - a \<Longrightarrow> b \<le> length xs \<Longrightarrow> window xs a b ! i = xs ! (a + i)"
  by (simp add: window_def)

lemma window_same [simp]: "window xs a a = []"
  by (simp add: window_def)

lemma window_all [simp]: "window xs 0 (length xs) = xs"
  by (simp add: window_def)

lemma map_window: "map f (window xs a b) = window (map f xs) a b"
  by (simp add: window_def take_map drop_map)

lemma st_at_window:
  assumes "a \<le> b"
  shows "run_tap (st_at st bs a) (window bs a b) = st_at st bs b"
proof -
  have "take b bs = take a bs @ window bs a b"
    using assms take_add [of a "b - a" bs] by (simp add: window_def)
  then show ?thesis by (simp add: st_at_def)
qed

lemma tap_view_window:
  "tap_view (st_at st (tms_bits cyc) a) (window cyc a b) = window (tap_view st cyc) a b"
  by (simp add: window_def tap_view_drop tap_view_take st_at_def)

section \<open>A region as the TAP controller sees it\<close>

lemma tap_view_cong:
  assumes "tms_bits xs = tms_bits ys"
    and "\<And>i. i < length xs \<Longrightarrow> shifting (run_tap st (take i (tms_bits xs))) \<Longrightarrow> cyc_tdi (xs ! i) = cyc_tdi (ys ! i)"
  shows "tap_view st xs = tap_view st ys"
proof (rule nth_equalityI)
  show len: "length (tap_view st xs) = length (tap_view st ys)"
    using arg_cong [OF assms(1), of length] by simp
  fix i assume "i < length (tap_view st xs)"
  then have i: "i < length xs" "i < length ys" using len by simp_all
  have "cyc_tms (xs ! i) = cyc_tms (ys ! i)"
    using arg_cong [OF assms(1), of "\<lambda>l. l ! i"] i by simp
  with i assms show "tap_view st xs ! i = tap_view st ys ! i" by (simp add: tap_view_nth)
qed

lemma tms_bitbang [simp]: "tms_bits (bitbang_cycles tms tdi n) = bits_of tms n"
  by (simp add: bitbang_cycles_def bits_of_def)

lemma length_bitbang [simp]: "length (bitbang_cycles tms tdi n) = n"
  by (simp add: bitbang_cycles_def)

lemma bitbang_nth [simp]:
  "i < n \<Longrightarrow> bitbang_cycles tms tdi n ! i = Cycle (bit_at tms i) (Some (bit_at tdi i)) False"
  by (simp add: bitbang_cycles_def)

text \<open>\<open>part\<close>: the cycles the client asked for in a region.\<close>

definition part :: "byte list \<Rightarrow> byte list \<Rightarrow> nat \<Rightarrow> Region \<Rightarrow> cycle list" where
  "part tms tdi n r = window (bitbang_cycles tms tdi n) (region_begin r) (region_end r)"

lemma region_tap_view:
  assumes ok: "region_ok st (bits_of tms n) r"
    and tms: "tms_bits cyc = window (bits_of tms n) (region_begin r) (region_end r)"
    and tdi: "\<not> is_tms r \<Longrightarrow> \<forall>i < region_end r - region_begin r.
      cyc_tdi (cyc ! i) = Some (bit_at tdi (region_begin r + i))"
  shows "tap_view (st_at st (bits_of tms n) (region_begin r)) cyc =
    tap_view (st_at st (bits_of tms n) (region_begin r)) (part tms tdi n r)"
proof (rule tap_view_cong)
  let ?bs = "bits_of tms n" and ?a = "region_begin r" and ?b = "region_end r"
  have ab: "?a < ?b" "?b \<le> n" using ok by (simp_all add: region_ok_def)
  show "tms_bits cyc = tms_bits (part tms tdi n r)"
    by (simp add: tms part_def map_window)
  have len: "length cyc = ?b - ?a" using arg_cong [OF tms, of length] ab by simp
  fix i assume i: "i < length cyc" and sh: "shifting (run_tap (st_at st ?bs ?a) (take i (tms_bits cyc)))"
  have "take i (window ?bs ?a ?b) = window ?bs ?a (?a + i)" using i len by (simp add: window_def)
  then have "run_tap (st_at st ?bs ?a) (take i (tms_bits cyc)) = st_at st ?bs (?a + i)"
    using st_at_window [of ?a "?a + i" st ?bs] tms by simp
  then have "\<not> is_tms r" using ok sh i len by (auto simp: region_ok_def)
  then show "cyc_tdi (cyc ! i) = cyc_tdi (part tms tdi n r ! i)"
    using tdi i len ab by (simp add: part_def)
qed

text \<open>In a data region TMS is low up to the last bit, which has the value of \<open>flip_tms\<close>.\<close>

lemma data_region_tms:
  assumes "region_ok st bs r" "\<not> is_tms r" "flip_tms r = Some flip"
  shows "window bs (region_begin r) (region_end r) = replicate (region_end r - region_begin r - 1) False @ [flip]"
proof (rule nth_equalityI)
  let ?a = "region_begin r" and ?b = "region_end r"
  have ab: "?a < ?b" "?b \<le> length bs" using assms(1) by (simp_all add: region_ok_def)
  then show len: "length (window bs ?a ?b) = length (replicate (?b - ?a - 1) False @ [flip])" by simp
  fix i assume "i < length (window bs ?a ?b)"
  then have i: "i < ?b - ?a" using ab by simp
  show "window bs ?a ?b ! i = (replicate (?b - ?a - 1) False @ [flip]) ! i"
  proof (cases "i = ?b - ?a - 1")
    case True
    then show ?thesis using assms ab i by (simp add: region_ok_def nth_append)
  next
    case False
    then have j: "?a + i < ?b" "Suc (?a + i) < ?b" using i by simp_all
    then have "shifting (st_at st bs (?a + i))" "shifting (st_at st bs (Suc (?a + i)))"
      using assms(1,2) by (auto simp: region_ok_def)
    then have "\<not> bs ! (?a + i)" using ab j by (auto simp: st_at_Suc shifting_next)
    moreover have "i < ?b - ?a - 1" using False i by simp
    ultimately show ?thesis using ab by (simp add: nth_append)
  qed
qed

lemma copy_region:
  assumes "a \<le> b" "b \<le> 8 * length src" "b \<le> 8 * size_of"
  shows "\<exists>buf. copy_bits src a (b - a) (replicate size_of 0) 0 = Inr buf \<and> length buf = size_of \<and>
     (\<forall>j < b - a. bit_at buf j = bit_at src (a + j))"
proof -
  have "a + (b - a) \<le> 8 * length src" "0 + (b - a) \<le> 8 * length (replicate size_of (0 :: byte))"
    using assms by simp_all
  from copy_bits_ok [OF this] obtain buf where
    "copy_bits src a (b - a) (replicate size_of 0) 0 = Inr buf" "length buf = size_of"
    "\<And>j. bit_at buf j = (bit_at (replicate size_of 0) j \<or> (0 \<le> j \<and> j < 0 + (b - a) \<and> bit_at src (a + (j - 0))))"
    by auto
  moreover have "\<not> bit_at (replicate size_of 0) j" if "j < b - a" for j using that assms(3) by simp
  ultimately show ?thesis by auto
qed

lemma bits_of_region:
  assumes "\<forall>j < b - a. bit_at buf j = bit_at src (a + j)" "b \<le> n"
  shows "bits_of buf (b - a) = window (bits_of src n) a b"
  by (rule nth_equalityI) (use assms in auto)

lemma scan_region_tms:
  assumes "region_ok st (bits_of tms n) r" "\<not> is_tms r" "flip_tms r = Some flip"
  shows "tms_bits (scan_cycles buf (region_end r - region_begin r) flip rd) =
     window (bits_of tms n) (region_begin r) (region_end r)"
proof -
  have "0 < region_end r - region_begin r" using assms(1) by (simp add: region_ok_def)
  then show ?thesis unfolding data_region_tms [OF assms] by (rule tms_scan_cycles)
qed

section \<open>A region on the driver\<close>

text \<open>
  What stays of the connection while a server works: everything but what it sends. \<open>replays\<close>
  is \<open>drives\<close> without the condition on the sent bytes.
\<close>

definition same_conn :: "('w, 'z) common_state_scheme \<Rightarrow> ('w, 'z) common_state_scheme \<Rightarrow> bool" where
  "same_conn s t \<longleftrightarrow> client_fd t = client_fd s \<and> listen_fd t = listen_fd s \<and>
     buffer t = buffer s \<and> buffer_begin t = buffer_begin s \<and> buffer_end t = buffer_end s"

lemma same_conn_refl [simp]: "same_conn s s"
  by (simp add: same_conn_def)

lemma same_conn_trans [trans]: "same_conn s t \<Longrightarrow> same_conn t u \<Longrightarrow> same_conn s u"
  by (simp add: same_conn_def)

lemma same_host_conn: "same_host s t \<Longrightarrow> same_conn s t \<and> net_out t = net_out s"
  by (simp add: same_host_def same_conn_def)

definition replays :: "(('w, 'z) common_state_scheme \<Rightarrow> bool) \<Rightarrow> (('w, 'z) common_state_scheme \<Rightarrow> bool)
    \<Rightarrow> (('w, 'z) common_state_scheme \<Rightarrow> cycle list)
    \<Rightarrow> ('w, 'z) common_state_scheme \<Rightarrow> cycle list \<Rightarrow> ('w, 'z) common_state_scheme \<Rightarrow> bool" where
  "replays ok_inv can wire s cyc t \<longleftrightarrow> ok_inv t \<and> can t \<and> tracks wire t \<and> same_conn s t \<and>
     (\<exists>new. wire t = wire s @ new \<and> tap_view (state s) new = tap_view (state s) cyc \<and> tms_bits new = tms_bits cyc)"

lemma replays_state: "tracks wire s \<Longrightarrow> replays ok_inv can wire s cyc t \<Longrightarrow> state t = run_tap (state s) (tms_bits cyc)"
  by (auto simp: replays_def tracks_def)

lemma replays_trans:
  assumes "tracks wire s" "replays ok_inv can1 wire s xs t" "replays ok_inv can2 wire t ys u"
  shows "replays ok_inv can2 wire s (xs @ ys) u"
proof -
  from assms(2) obtain a where a: "wire t = wire s @ a" "tap_view (state s) a = tap_view (state s) xs"
      "tms_bits a = tms_bits xs" "same_conn s t" by (auto simp: replays_def)
  from assms(3) obtain b where b: "wire u = wire t @ b" "tap_view (state t) b = tap_view (state t) ys"
      "tms_bits b = tms_bits ys" "same_conn t u" by (auto simp: replays_def)
  have "state t = run_tap (state s) (tms_bits xs)" using assms(1,2) by (rule replays_state)
  then have "wire u = wire s @ (a @ b) \<and> tap_view (state s) (a @ b) = tap_view (state s) (xs @ ys) \<and>
      tms_bits (a @ b) = tms_bits (xs @ ys)"
    using a b by (simp add: tap_view_append)
  with assms(3) a(4) b(4) show ?thesis unfolding replays_def by (blast intro: same_conn_trans)
qed

lemma replays_history:
  assumes "tracks wire s" "replays ok_inv can wire s cyc t"
  shows "history (wire t) = history (wire s) @ tap_view (state s) cyc"
  using assms by (auto simp: replays_def tracks_def tap_view_append)

lemma replays_refl: "ok_inv s \<Longrightarrow> can s \<Longrightarrow> tracks wire s \<Longrightarrow> replays ok_inv can wire s [] s"
  by (auto simp: replays_def)

lemma drives_replays:
  assumes "drives ok_inv can wire s new t" "tms_bits new = tms_bits cyc"
    and "tap_view (state s) new = tap_view (state s) cyc"
  shows "replays ok_inv can wire s cyc t" "net_out t = net_out s"
  using assms same_host_conn [of s t] by (auto simp: drives_def replays_def)

lemma data_region_view:
  assumes ok: "region_ok st (bits_of tms n) r" "\<not> is_tms r" "flip_tms r = Some flip"
    and buf: "\<forall>j < region_end r - region_begin r. bit_at buf j = bit_at tdi (region_begin r + j)"
  shows "tms_bits (scan_cycles buf (region_end r - region_begin r) flip rd) = tms_bits (part tms tdi n r)"
    and "tap_view (st_at st (bits_of tms n) (region_begin r)) (scan_cycles buf (region_end r - region_begin r) flip rd) =
      tap_view (st_at st (bits_of tms n) (region_begin r)) (part tms tdi n r)"
proof -
  show "tms_bits (scan_cycles buf (region_end r - region_begin r) flip rd) = tms_bits (part tms tdi n r)"
    unfolding scan_region_tms [OF ok] by (simp add: part_def map_window)
  show "tap_view (st_at st (bits_of tms n) (region_begin r)) (scan_cycles buf (region_end r - region_begin r) flip rd) =
      tap_view (st_at st (bits_of tms n) (region_begin r)) (part tms tdi n r)"
    by (rule region_tap_view [OF ok(1) scan_region_tms [OF ok]]) (use buf in \<open>simp add: scan_cycles_nth\<close>)
qed

lemma data_region_shifting:
  assumes "region_ok st (bits_of tms n) r" "\<not> is_tms r"
  shows "shifting (st_at st (bits_of tms n) (region_begin r))" "0 < region_end r - region_begin r" "region_end r \<le> n"
  using assms by (auto simp: region_ok_def)

context wire_driver
begin

lemma tms_region_replays:
  assumes pre: "live" "drv_inv s" "can_send s" "tracks wire s"
    and ok: "region_ok st (bits_of tms n) r" "is_tms r" "state s = st_at st (bits_of tms n) (region_begin r)"
    and buf: "\<forall>j < region_end r - region_begin r. bit_at buf j = bit_at tms (region_begin r + j)"
    and len: "n \<le> 8 * length buf"
  shows "\<exists>t. jtag_tms_seq D buf (region_end r - region_begin r) s = Inr (True, t) \<and>
     replays drv_inv can_send wire s (part tms tdi n r) t \<and> net_out t = net_out s"
proof -
  let ?k = "region_end r - region_begin r"
  have ab: "0 < ?k" "region_end r \<le> n" using ok(1) by (simp_all add: region_ok_def)
  then have k: "?k \<le> 8 * length buf" using len by simp
  from tms_seq_drives [OF pre ab(1) k] obtain t cyc where
    t: "jtag_tms_seq D buf ?k s = Inr (True, t)" "drives drv_inv can_send wire s cyc t"
      "tms_bits cyc = bits_of buf ?k" by blast
  have tms: "tms_bits cyc = window (bits_of tms n) (region_begin r) (region_end r)"
    unfolding t(3) by (rule bits_of_region [OF buf ab(2)])
  then have "tap_view (state s) cyc = tap_view (state s) (part tms tdi n r)"
    unfolding ok(3) by (rule region_tap_view [OF ok(1)]) (use ok(2) in simp)
  moreover have "tms_bits cyc = tms_bits (part tms tdi n r)" using tms by (simp add: part_def map_window)
  ultimately show ?thesis using t(1) drives_replays [OF t(2)] by blast
qed

text \<open>Sending to the client changes nothing the driver depends on.\<close>

lemma replays_sent:
  assumes "replays drv_inv can_send wire s cyc t" "port w = port (world t)"
  shows "replays drv_inv can_send wire s cyc (t\<lparr>net_out := x, world := w\<rparr>)"
proof -
  have "drv_inv (t\<lparr>net_out := x, world := w\<rparr>) = drv_inv t \<and> can_send (t\<lparr>net_out := x, world := w\<rparr>) = can_send t \<and>
      wire (t\<lparr>net_out := x, world := w\<rparr>) = wire t"
    by (rule view) (simp_all add: assms(2))
  then show ?thesis using assms by (simp add: replays_def tracks_def same_conn_def)
qed

end

context jtag_driver
begin

lemma data_region_replays:
  assumes pre: "live" "drv_inv s" "can_send s" "tracks wire s"
    and ok: "region_ok st (bits_of tms n) r" "\<not> is_tms r" "flip_tms r = Some flip"
      "state s = st_at st (bits_of tms n) (region_begin r)"
    and buf: "\<forall>j < region_end r - region_begin r. bit_at buf j = bit_at tdi (region_begin r + j)"
    and len: "n \<le> 8 * length buf" "n \<le> SCAN_LIMIT" "n \<le> 8 * length rbuf"
  shows "\<exists>rbuf' t. jtag_scan_chain D buf rbuf (region_end r - region_begin r) flip rd s = Inr (True, rbuf', t) \<and>
     length rbuf' = length rbuf \<and>
     replays drv_inv can_send wire s (part tms tdi n r) t \<and> net_out t = net_out s \<and>
     (\<forall>f. rd \<and> target = Some f \<and> last_bit_free rbuf (region_end r - region_begin r) flip \<longrightarrow> bits_of rbuf' (region_end r - region_begin r) =
        tdo_bits f (history (wire s)) (tap_view (state s) (part tms tdi n r)))"
proof -
  let ?k = "region_end r - region_begin r"
  note sh = data_region_shifting [OF ok(1,2)]
  have ss: "shifting (state s)" using sh(1) ok(4) by simp
  have k: "?k \<le> 8 * length buf" "?k \<le> SCAN_LIMIT" "?k \<le> 8 * length rbuf" using sh(3) len by simp_all
  from scan_chain_drives [OF pre ss sh(2) k, of flip rd] obtain rbuf' t where
    t: "jtag_scan_chain D buf rbuf ?k flip rd s = Inr (True, rbuf', t)" "length rbuf' = length rbuf"
      "drives drv_inv can_send wire s (scan_cycles buf ?k flip rd) t"
    and tdo: "\<forall>f. rd \<and> target = Some f \<and> last_bit_free rbuf ?k flip \<longrightarrow>
        bits_of rbuf' ?k = tdo_bits f (history (wire s)) (tap_view (state s) (scan_cycles buf ?k flip True))" by blast
  have view: "tap_view (state s) (scan_cycles buf ?k flip x) = tap_view (state s) (part tms tdi n r)" for x
    using data_region_view(2) [OF ok(1-3) buf] ok(4) by simp
  from drives_replays [OF t(3) data_region_view(1) [OF ok(1-3) buf] view] t(1,2) tdo [unfolded view]
  show ?thesis by auto
qed

end

end
