(* ===== verification/Xvc.thy ===== *)
theory Xvc
  imports Replay
begin

text \<open>
  src/xvc.cpp: the Xilinx virtual cable server. One tick reads what has arrived, executes every
  complete command of the receive buffer (\<open>getinfo:\<close>, \<open>settck:\<close>, \<open>shift:\<close>), queueing the scans of
  the shifts, and then collects and sends the results of all of them. \<open>sread\<close> and \<open>swrite\<close> are
  not called by anything and are not modelled.
\<close>

section \<open>The tick\<close>

definition jtag_xvc_init :: "'w ext \<Rightarrow> ('w, 'z) common_state_scheme \<Rightarrow> bool \<times> ('w, 'z) common_state_scheme" where
  "jtag_xvc_init E s = setup_tcp_server E 2542 s"

record xvc_arrays =
  xvc_tms :: "byte list"
  xvc_tdi :: "byte list"
  xvc_tdo :: "byte list"

definition xvc_start :: xvc_arrays where
  "xvc_start = \<lparr>xvc_tms = replicate BUFFER_SIZE 0, xvc_tdi = replicate BUFFER_SIZE 0,
     xvc_tdo = replicate BUFFER_SIZE 0\<rparr>"

record ShiftCommand =
  sc_bits :: "32 word"
  sc_bytes :: "32 word"
  sc_regions :: "Region list"

text \<open>
  \<open>buffer_begin + strlen(kw) + extra <= buffer_end && memcmp(&buffer[buffer_begin], kw, strlen(kw)) == 0\<close>
\<close>

definition xvc_match :: "byte list \<Rightarrow> nat \<Rightarrow> ('w, 'z) common_state_scheme \<Rightarrow> bool result" where
  "xvc_match kw extra s =
     (if buffer_begin s + length kw + extra \<le> buffer_end s then
        bindR (buffer_bytes s (buffer_begin s) (length kw)) (\<lambda>bs. Inr (bs = kw))
      else Inr False)"

definition GETINFO :: "byte list" where
  "GETINFO = ascii ''getinfo:''"

definition SETTCK :: "byte list" where
  "SETTCK = ascii ''settck:''"

definition SHIFT :: "byte list" where
  "SHIFT = ascii ''shift:''"

definition XVC_INFO :: "byte list" where
  "XVC_INFO = ascii (''xvcServer_v1.0:2048'' @ [CHR 0x0A])"

text \<open>\<open>assert(write_full(client_fd, ...))\<close>\<close>

definition write_assert :: "'w ext \<Rightarrow> byte list \<Rightarrow> ('w, 'z) common_state_scheme
    \<Rightarrow> ('w, 'z) common_state_scheme result" where
  "write_assert E bs s = (case write_full E bs s of (ok, s) \<Rightarrow> if ok then Inr s else Inl AssertionFailed)"

definition xvc_getinfo :: "'w ext \<Rightarrow> ('w, 'z) common_state_scheme \<Rightarrow> ('w, 'z) common_state_scheme result" where
  "xvc_getinfo E s = write_assert E XVC_INFO (s\<lparr>buffer_begin := buffer_begin s + length GETINFO\<rparr>)"

text \<open>
  \<open>uint64_t freq_mhz = round(1000.0 / tck)\<close>, halves rounded up. The quotient is an exact half only
  where it is representable, and otherwise differs from one by more than the rounding error of
  the division, so that the floating point result is this integer. For 0 it is an infinity,
  whose conversion to an integer is undefined.
\<close>

definition xvc_freq :: "32 word \<Rightarrow> 64 word result" where
  "xvc_freq tck =
     (if tck = 0 then Inl BadConversion else Inr (of_nat ((2000 + unat tck) div (2 * unat tck))))"

definition xvc_settck :: "'w ext \<Rightarrow> ('w, 'z) jtag \<Rightarrow> ('w, 'z) common_state_scheme
    \<Rightarrow> ('w, 'z) common_state_scheme result" where
  "xvc_settck E D s =
     bindR (buffer_bytes s (buffer_begin s + length SETTCK) 4) (\<lambda>raw.
       let tck = load_le32 raw; s = s\<lparr>buffer_begin := buffer_begin s + (length SETTCK + 4)\<rparr> in
       bindR (xvc_freq tck) (\<lambda>freq.
       bindR (adapter_set_tck_freq D freq s) (\<lambda>(_, s).
       write_assert E (le32_bytes tck) s)))"

text \<open>The loop over a region of TMS bits: copy them, and see whether all of them are zero.\<close>

fun xvc_tms_loop :: "byte list \<Rightarrow> nat \<Rightarrow> nat \<Rightarrow> nat \<Rightarrow> byte list \<Rightarrow> bool \<Rightarrow> (byte list \<times> bool) result" where
  "xvc_tms_loop tms i off 0 buf clock_only = Inr (buf, clock_only)"
| "xvc_tms_loop tms i off (Suc k) buf clock_only =
     bindR (read_bit tms i) (\<lambda>tms_bit.
       if off div 8 < length buf then
         xvc_tms_loop tms (Suc i) (Suc off) k (or_bit buf off tms_bit) (clock_only \<and> \<not> tms_bit)
       else Inl OutOfBounds)"

definition xvc_region :: "('w, 'z) jtag \<Rightarrow> xvc_arrays \<Rightarrow> nat \<Rightarrow> Region
    \<Rightarrow> ('w, 'z) common_state_scheme \<Rightarrow> ('w, 'z) common_state_scheme result" where
  "xvc_region D a bits r s =
     (if \<not> (region_begin r < region_end r \<and> region_end r \<le> bits) then Inl AssertionFailed
      else bindR (region_length r) (\<lambda>len.
        if is_tms r then
          bindR (xvc_tms_loop (xvc_tms a) (region_begin r) 0 len (replicate BUFFER_SIZE 0) (state s = RunTestIdle))
            (\<lambda>(buf, clock_only).
          if clock_only then
            bindR (jtag_tms_seq D buf 1 s) (\<lambda>(_, s).
            bindR (jtag_clock_tck D (len - 1) s) (\<lambda>(_, s). Inr s))
          else bindR (jtag_tms_seq D buf len s) (\<lambda>(_, s). Inr s))
        else
          bindR (copy_bits (xvc_tdi a) (region_begin r) len (replicate BUFFER_SIZE 0) 0) (\<lambda>buf.
          bindR (region_flip r) (\<lambda>flip.
          bindR (jtag_scan_chain_send D buf len flip True s) (\<lambda>(_, s). Inr s)))))"

fun xvc_regions :: "('w, 'z) jtag \<Rightarrow> xvc_arrays \<Rightarrow> nat \<Rightarrow> Region list
    \<Rightarrow> ('w, 'z) common_state_scheme \<Rightarrow> ('w, 'z) common_state_scheme result" where
  "xvc_regions D a bits [] s = Inr s"
| "xvc_regions D a bits (r # rs) s = bindR (xvc_region D a bits r s) (xvc_regions D a bits rs)"

definition store_bytes :: "byte list \<Rightarrow> byte list \<Rightarrow> byte list result" where
  "store_bytes arr bs = (if length bs \<le> length arr then Inr (write_at arr 0 bs) else Inl OutOfBounds)"

text \<open>A \<open>shift:\<close> whose header has arrived. \<open>None\<close>: its vectors have not, try again later.\<close>

definition xvc_shift :: "('w, 'z) jtag \<Rightarrow> xvc_arrays \<Rightarrow> ('w, 'z) common_state_scheme
    \<Rightarrow> (ShiftCommand \<times> xvc_arrays \<times> ('w, 'z) common_state_scheme) option result" where
  "xvc_shift D a s =
     bindR (buffer_bytes s (buffer_begin s + length SHIFT) 4) (\<lambda>raw.
       let bits = load_le32 raw; bytes = (bits + 7) div 8;
           total_len = of_nat (length SHIFT + 4) + 2 * bytes; vectors = buffer_begin s + length SHIFT + 4 in
       if buffer_end s < buffer_begin s + unat total_len then Inr None
       else
         bindR (buffer_bytes s vectors (unat bytes)) (\<lambda>tms_vec.
         bindR (store_bytes (xvc_tms a) tms_vec) (\<lambda>tms.
         bindR (buffer_bytes s (vectors + unat bytes) (unat bytes)) (\<lambda>tdi_vec.
         bindR (store_bytes (xvc_tdi a) tdi_vec) (\<lambda>tdi.
         let a = a\<lparr>xvc_tms := tms, xvc_tdi := tdi\<rparr>; s = s\<lparr>buffer_begin := buffer_begin s + unat total_len\<rparr> in
         bindR (analyze_bitbang tms (unat bits) (state s)) (\<lambda>(regions, cur_state).
         bindR (xvc_regions D a (unat bits) regions s) (\<lambda>s.
         if cur_state \<noteq> state s then Inl AssertionFailed
         else Inr (Some (\<lparr>sc_bits = bits, sc_bytes = bytes, sc_regions = regions\<rparr>, a, s)))))))))"

text \<open>One round of the parse loop. \<open>None\<close>: leave the loop.\<close>

definition xvc_step :: "'w ext \<Rightarrow> ('w, 'z) jtag \<Rightarrow> ShiftCommand list \<Rightarrow> xvc_arrays \<Rightarrow> ('w, 'z) common_state_scheme
    \<Rightarrow> (ShiftCommand list \<times> xvc_arrays \<times> ('w, 'z) common_state_scheme) option result" where
  "xvc_step E D cmds a s =
     bindR (xvc_match GETINFO 0 s) (\<lambda>getinfo.
     if getinfo then bindR (xvc_getinfo E s) (\<lambda>s. Inr (Some (cmds, a, s)))
     else bindR (xvc_match SETTCK 4 s) (\<lambda>settck.
     if settck then bindR (xvc_settck E D s) (\<lambda>s. Inr (Some (cmds, a, s)))
     else bindR (xvc_match SHIFT 4 s) (\<lambda>shift.
     if shift then
       bindR (xvc_shift D a s) (\<lambda>r. case r of
           None \<Rightarrow> Inr None
         | Some (sc, a, s) \<Rightarrow> Inr (Some (cmds @ [sc], a, s)))
     else Inr None)))"

text \<open>\<open>while (true)\<close>: every round but the last consumes at least eight bytes of the buffer.\<close>

fun xvc_loop :: "'w ext \<Rightarrow> ('w, 'z) jtag \<Rightarrow> nat \<Rightarrow> ShiftCommand list \<Rightarrow> xvc_arrays \<Rightarrow> ('w, 'z) common_state_scheme
    \<Rightarrow> (ShiftCommand list \<times> xvc_arrays \<times> ('w, 'z) common_state_scheme) result" where
  "xvc_loop E D 0 cmds a s = Inl Diverges"
| "xvc_loop E D (Suc fuel) cmds a s =
     bindR (xvc_step E D cmds a s) (\<lambda>r. case r of
         None \<Rightarrow> Inr (cmds, a, s)
       | Some (cmds, a, s) \<Rightarrow> xvc_loop E D fuel cmds a s)"

text \<open>Reading the results back.\<close>

fun xvc_recv_regions :: "('w, 'z) jtag \<Rightarrow> Region list \<Rightarrow> byte list \<Rightarrow> ('w, 'z) common_state_scheme
    \<Rightarrow> (byte list \<times> ('w, 'z) common_state_scheme) result" where
  "xvc_recv_regions D [] tdo s = Inr (tdo, s)"
| "xvc_recv_regions D (r # rs) tdo s =
     (if is_tms r then xvc_recv_regions D rs tdo s
      else
        bindR (region_length r) (\<lambda>len.
        bindR (region_flip r) (\<lambda>flip.
        bindR (jtag_scan_chain_recv D (replicate BUFFER_SIZE 0) len flip s) (\<lambda>(_, buf, s).
        bindR (copy_bits buf 0 len tdo (region_begin r)) (\<lambda>tdo.
        xvc_recv_regions D rs tdo s)))))"

definition xvc_reply :: "'w ext \<Rightarrow> ('w, 'z) jtag \<Rightarrow> ShiftCommand \<Rightarrow> xvc_arrays \<Rightarrow> ('w, 'z) common_state_scheme
    \<Rightarrow> (xvc_arrays \<times> ('w, 'z) common_state_scheme) result" where
  "xvc_reply E D sc a s =
     bindR (store_bytes (xvc_tdo a) (replicate (unat (sc_bytes sc)) 0)) (\<lambda>tdo.
     bindR (xvc_recv_regions D (sc_regions sc) tdo s) (\<lambda>(tdo, s).
     bindR (write_assert E (take (unat (sc_bytes sc)) tdo) s) (\<lambda>s. Inr (a\<lparr>xvc_tdo := tdo\<rparr>, s))))"

fun xvc_replies :: "'w ext \<Rightarrow> ('w, 'z) jtag \<Rightarrow> ShiftCommand list \<Rightarrow> xvc_arrays \<Rightarrow> ('w, 'z) common_state_scheme
    \<Rightarrow> (xvc_arrays \<times> ('w, 'z) common_state_scheme) result" where
  "xvc_replies E D [] a s = Inr (a, s)"
| "xvc_replies E D (sc # scs) a s =
     bindR (xvc_reply E D sc a s) (\<lambda>(a, s). xvc_replies E D scs a s)"

definition jtag_xvc_tick :: "'w ext \<Rightarrow> ('w, 'z) jtag \<Rightarrow> xvc_arrays \<Rightarrow> ('w, 'z) common_state_scheme
    \<Rightarrow> (xvc_arrays \<times> ('w, 'z) common_state_scheme) result" where
  "jtag_xvc_tick E D a s =
     (if 0 \<le> client_fd s then
        bindR (read_socket E s) (\<lambda>(ok, s).
        if \<not> ok then Inr (a, s)
        else
          bindR (xvc_loop E D (BUFFER_SIZE + 1) [] a s) (\<lambda>(cmds, a, s).
          xvc_replies E D cmds a s))
      else Inr (a, snd (try_accept E s)))"

end
