(* ===== verification/Xvc_Run.thy ===== *)
theory Xvc_Run
  imports Xvc
begin

text \<open>
  The tick of the virtual cable server (src/xvc.cpp) on a driver that queues its scans: the parse
  loop ends, executes exactly the complete commands that were received, and every shift is
  replayed on the wire and answered.
\<close>

section \<open>One region\<close>

lemma xvc_tms_loop_spec:
  "i + k \<le> 8 * length tms \<Longrightarrow> off + k \<le> 8 * length buf \<Longrightarrow>
     xvc_tms_loop tms i off k buf co =
       bindR (copy_bits tms i k buf off) (\<lambda>buf. Inr (buf, co \<and> (\<forall>j \<in> {i..<i + k}. \<not> bit_at tms j)))"
proof (induction k arbitrary: i off buf co)
  case 0
  then show ?case by simp
next
  case (Suc k)
  then have o: "off div 8 < length buf" and i: "i < 8 * length tms" by (simp_all add: div_less_bits)
  have "{i..<i + Suc k} = insert i {Suc i..<Suc i + k}" by auto
  with Suc o i show ?case by (cases "copy_bits tms (Suc i) k (or_bit buf off (bit_at tms i)) (Suc off)") auto
qed

text \<open>What a region adds to the scans under way: \<open>h\<close> has been seen before the shift, \<open>v\<close> is seen in it.\<close>

definition region_owed :: "target \<Rightarrow> (bool \<times> bool option) list \<Rightarrow> (bool \<times> bool option) list \<Rightarrow> Region \<Rightarrow> owed list" where
  "region_owed f h v r = (if is_tms r then [] else
     [(region_end r - region_begin r, the (flip_tms r),
       tdo_bits f (h @ take (region_begin r) v) (window v (region_begin r) (region_end r)))])"

context pipelined_driver
begin

lemma xvc_clock_replays:
  assumes pre: "live" "drv_inv s" "owes q s" "tracks wire s" "state s = RunTestIdle"
    and ok: "region_ok st (bits_of tms n) r" "is_tms r" "state s = st_at st (bits_of tms n) (region_begin r)"
    and zero: "\<forall>j \<in> {region_begin r..<region_end r}. \<not> bit_at tms j"
    and buf: "\<not> bit_at buf 0" "0 < length buf" and n: "n \<le> CLOCK_LIMIT"
  shows "\<exists>t u. jtag_tms_seq D buf 1 s = Inr (True, t) \<and>
     jtag_clock_tck D (region_end r - region_begin r - 1) t = Inr (True, u) \<and>
     replays drv_inv (owes q) wire s (part tms tdi n r) u \<and> net_out u = net_out s"
proof -
  define len where "len = region_end r - region_begin r"
  have len: "0 < len" "region_end r \<le> n" using ok(1) by (simp_all add: len_def region_ok_def)
  have "0 < (1 :: nat)" "1 \<le> 8 * length buf" using buf(2) by (cases buf; simp)+
  from owing.tms_seq_drives [OF pre(1-4) this] obtain t c where
    t: "jtag_tms_seq D buf 1 s = Inr (True, t)" "drives drv_inv (owes q) wire s c t" "tms_bits c = bits_of buf 1" by blast
  have c: "tms_bits c = [False]" using t(3) buf(1) by (simp add: bits_of_def)
  then have "state t = RunTestIdle" using drives_state [OF pre(4) t(2)] pre(5) by simp
  moreover have "len - 1 \<le> CLOCK_LIMIT" using len n by (simp add: len_def)
  ultimately obtain u where
    u: "jtag_clock_tck D (len - 1) t = Inr (True, u)"
      "drives drv_inv (owes q) wire t (replicate (len - 1) (Cycle False None False)) u"
    using clock_drives [OF pre(1) drivesD(1-3) [OF t(2)]] by blast
  let ?new = "c @ replicate (len - 1) (Cycle False None False)"
  have d: "drives drv_inv (owes q) wire s ?new u" by (rule drives_trans [OF t(2) u(2)])
  have "window (bits_of tms n) (region_begin r) (region_end r) = replicate len False"
    using zero len by (intro nth_equalityI) (auto simp: len_def)
  moreover have "tms_bits ?new = replicate len False"
    using len(1) by (simp add: c map_replicate flip: replicate_Suc)
  ultimately have tms: "tms_bits ?new = window (bits_of tms n) (region_begin r) (region_end r)" by simp
  have "tap_view (state s) ?new = tap_view (state s) (part tms tdi n r)"
    unfolding ok(3) by (rule region_tap_view [OF ok(1) tms]) (use ok(2) in simp)
  moreover have "tms_bits ?new = tms_bits (part tms tdi n r)" unfolding tms by (simp add: part_def map_window)
  ultimately show ?thesis
    using t(1) u(1) drives_replays [OF d] unfolding len_def [symmetric] by blast
qed

lemma xvc_tms_region:
  assumes pre: "live" "drv_inv s" "owes q s" "tracks wire s"
    and ok: "region_ok st (bits_of (xvc_tms a) n) r" "is_tms r" "state s = st_at st (bits_of (xvc_tms a) n) (region_begin r)"
    and len: "length (xvc_tms a) = BUFFER_SIZE" "n \<le> SCAN_LIMIT"
  shows "\<exists>t. xvc_region D a n r s = Inr t \<and>
     replays drv_inv (owes q) wire s (part (xvc_tms a) (xvc_tdi a) n r) t \<and> net_out t = net_out s"
proof -
  let ?b = "region_begin r" and ?e = "region_end r"
  have be: "?b < ?e" "?e \<le> n" using ok(1) by (simp_all add: region_ok_def)
  have n8: "n \<le> 8 * BUFFER_SIZE" "n \<le> CLOCK_LIMIT"
    using len(2) by (simp_all add: SCAN_LIMIT_def BUFFER_SIZE_def CLOCK_LIMIT_def)
  have lenr: "region_length r = Inr (?e - ?b)" using be by (simp add: region_length_def)
  have range: "?b \<le> ?e" "?e \<le> 8 * length (xvc_tms a)" "?e \<le> 8 * BUFFER_SIZE" using be n8 len by simp_all
  from copy_region [OF range] obtain buf where
    buf: "copy_bits (xvc_tms a) ?b (?e - ?b) (replicate BUFFER_SIZE 0) 0 = Inr buf" "length buf = BUFFER_SIZE"
      "\<forall>j < ?e - ?b. bit_at buf j = bit_at (xvc_tms a) (?b + j)" by blast
  have e: "?b + (?e - ?b) = ?e" using be(1) by simp
  define co where "co = (state s = RunTestIdle \<and> (\<forall>j \<in> {?b..<?e}. \<not> bit_at (xvc_tms a) j))"
  have loop: "xvc_tms_loop (xvc_tms a) ?b 0 (?e - ?b) (replicate BUFFER_SIZE 0) (state s = RunTestIdle) = Inr (buf, co)"
    using xvc_tms_loop_spec [of ?b "?e - ?b" "xvc_tms a" 0 "replicate BUFFER_SIZE 0" "state s = RunTestIdle"]
      range be(1) buf(1) by (simp add: e co_def)
  show ?thesis
  proof (cases co)
    case True
    have "\<not> bit_at buf 0" "0 < length buf"
      using buf(2,3) be(1) True by (auto simp: co_def BUFFER_SIZE_def)
    moreover have "state s = RunTestIdle" "\<forall>j \<in> {?b..<?e}. \<not> bit_at (xvc_tms a) j"
      using True by (simp_all add: co_def)
    ultimately obtain t u where "jtag_tms_seq D buf 1 s = Inr (True, t)"
      "jtag_clock_tck D (?e - ?b - 1) t = Inr (True, u)"
      "replays drv_inv (owes q) wire s (part (xvc_tms a) (xvc_tdi a) n r) u" "net_out u = net_out s"
      using xvc_clock_replays [OF pre _ ok(1-3) _ _ _ n8(2)] by blast
    then show ?thesis using ok(2) be lenr loop True by (simp add: xvc_region_def)
  next
    case False
    have "n \<le> 8 * length buf" using buf(2) n8(1) by simp
    from owing.tms_region_replays [OF pre ok(1-3) buf(3) this, of "xvc_tdi a"]
    obtain t where "jtag_tms_seq D buf (?e - ?b) s = Inr (True, t)"
      "replays drv_inv (owes q) wire s (part (xvc_tms a) (xvc_tdi a) n r) t" "net_out t = net_out s" by blast
    then show ?thesis using ok(2) be lenr loop False by (simp add: xvc_region_def)
  qed
qed

lemma xvc_data_region:
  assumes pre: "live" "drv_inv s" "owes q s" "tracks wire s"
    and ok: "region_ok st (bits_of (xvc_tms a) n) r" "\<not> is_tms r" "state s = st_at st (bits_of (xvc_tms a) n) (region_begin r)"
    and seen: "v = tap_view st (bitbang_cycles (xvc_tms a) (xvc_tdi a) n)" "history (wire s) = h @ take (region_begin r) v"
    and len: "length (xvc_tdi a) = BUFFER_SIZE" "n \<le> SCAN_LIMIT"
  shows "\<exists>t. xvc_region D a n r s = Inr t \<and>
     replays drv_inv (owes (q @ region_owed (shown_by target) h v r)) wire s (part (xvc_tms a) (xvc_tdi a) n r) t \<and>
     net_out t = net_out s"
proof -
  let ?b = "region_begin r" and ?e = "region_end r"
  have be: "?b < ?e" "?e \<le> n" using ok(1) by (simp_all add: region_ok_def)
  have n8: "n \<le> 8 * BUFFER_SIZE" using len(2) by (simp add: SCAN_LIMIT_def BUFFER_SIZE_def)
  have range: "?b \<le> ?e" "?e \<le> 8 * length (xvc_tdi a)" "?e \<le> 8 * BUFFER_SIZE" using be n8 len by simp_all
  from copy_region [OF range] obtain buf where
    buf: "copy_bits (xvc_tdi a) ?b (?e - ?b) (replicate BUFFER_SIZE 0) 0 = Inr buf" "length buf = BUFFER_SIZE"
      "\<forall>j < ?e - ?b. bit_at buf j = bit_at (xvc_tdi a) (?b + j)" by blast
  obtain flip where flip: "flip_tms r = Some flip" using ok(1,2) by (simp add: region_ok_def)
  note sh = data_region_shifting [OF ok(1,2)]
  let ?scan = "scan_cycles buf (?e - ?b) flip True"
  have ss: "shifting (state s)" using sh(1) ok(3) by simp
  have "?e - ?b \<le> 8 * length buf" "?e - ?b \<le> SCAN_LIMIT" using sh(3) n8 len(2) buf(2) by simp_all
  from send_drives [OF pre ss sh(2) this, of flip] obtain t where
    t: "jtag_scan_chain_send D buf (?e - ?b) flip True s = Inr (True, t)"
      "drives drv_inv (owes (q @ [(?e - ?b, flip, tdo_bits (shown_by target) (history (wire s)) (tap_view (state s) ?scan))]))
         wire s ?scan t" by blast
  note view = data_region_view [OF ok(1,2) flip buf(3)]
  have "tap_view (state s) ?scan = window v ?b ?e"
    using view(2) [of True] tap_view_window [of st "bitbang_cycles (xvc_tms a) (xvc_tdi a) n" ?b ?e]
    by (simp add: ok(3) seen(1) part_def)
  then have "q @ [(?e - ?b, flip, tdo_bits (shown_by target) (history (wire s)) (tap_view (state s) ?scan))] =
      q @ region_owed (shown_by target) h v r"
    using ok(2) flip by (simp add: region_owed_def seen(2))
  with t(2) have d: "drives drv_inv (owes (q @ region_owed (shown_by target) h v r)) wire s ?scan t" by (simp only:)
  have "replays drv_inv (owes (q @ region_owed (shown_by target) h v r)) wire s (part (xvc_tms a) (xvc_tdi a) n r) t"
    "net_out t = net_out s"
    using drives_replays [OF d view(1)] view(2) [of True] ok(3) by simp_all
  then show ?thesis using ok(2) be buf(1) flip t(1) by (auto simp: xvc_region_def region_flip_def region_length_def)
qed

lemma xvc_region_replays:
  assumes pre: "live" "drv_inv s" "owes q s" "tracks wire s"
    and ok: "region_ok st (bits_of (xvc_tms a) n) r" "state s = st_at st (bits_of (xvc_tms a) n) (region_begin r)"
    and seen: "v = tap_view st (bitbang_cycles (xvc_tms a) (xvc_tdi a) n)" "history (wire s) = h @ take (region_begin r) v"
    and len: "length (xvc_tms a) = BUFFER_SIZE" "length (xvc_tdi a) = BUFFER_SIZE" "n \<le> SCAN_LIMIT"
  shows "\<exists>t. xvc_region D a n r s = Inr t \<and>
     replays drv_inv (owes (q @ region_owed (shown_by target) h v r)) wire s (part (xvc_tms a) (xvc_tdi a) n r) t \<and>
     net_out t = net_out s"
proof (cases "is_tms r")
  case True
  then have "q @ region_owed (shown_by target) h v r = q" by (simp add: region_owed_def)
  with xvc_tms_region [OF pre ok(1) True ok(2) len(1,3)] show ?thesis by (simp only:)
next
  case False
  from xvc_data_region [OF pre ok(1) False ok(2) seen len(2,3)] show ?thesis .
qed

lemma xvc_regions_replay:
  assumes "live" "length (xvc_tms a) = BUFFER_SIZE" "length (xvc_tdi a) = BUFFER_SIZE" "n \<le> SCAN_LIMIT"
    and v: "v = tap_view st (bitbang_cycles (xvc_tms a) (xvc_tdi a) n)"
  shows "tiles st (bits_of (xvc_tms a) n) p rs n \<Longrightarrow> drv_inv s \<Longrightarrow> owes q s \<Longrightarrow> tracks wire s \<Longrightarrow>
     state s = st_at st (bits_of (xvc_tms a) n) p \<Longrightarrow> history (wire s) = h @ take p v \<Longrightarrow>
     \<exists>t. xvc_regions D a n rs s = Inr t \<and>
       replays drv_inv (owes (q @ concat (map (region_owed (shown_by target) h v) rs))) wire s
         (window (bitbang_cycles (xvc_tms a) (xvc_tdi a) n) p n) t \<and> net_out t = net_out s"
proof (induction rs arbitrary: p s q)
  case Nil
  then show ?case by (auto simp: replays_refl)
next
  case (Cons r rs)
  let ?bs = "bits_of (xvc_tms a) n" and ?cyc = "bitbang_cycles (xvc_tms a) (xvc_tdi a) n"
  let ?o = "region_owed (shown_by target) h v"
  from Cons.prems(1) have r: "region_begin r = p" "region_ok st ?bs r" "tiles st ?bs (region_end r) rs n" by simp_all
  have be: "p \<le> region_end r" "region_end r \<le> n" using r tiles_le [OF r(3)] by (simp_all add: region_ok_def)
  have st: "state s = st_at st ?bs (region_begin r)" using Cons.prems(5) r(1) by simp
  have hist: "history (wire s) = h @ take (region_begin r) v" using Cons.prems(6) r(1) by simp
  from xvc_region_replays [OF assms(1) Cons.prems(2-4) r(2) st v hist assms(2-4)] obtain t where
    t: "xvc_region D a n r s = Inr t" "replays drv_inv (owes (q @ ?o r)) wire s (part (xvc_tms a) (xvc_tdi a) n r) t"
      "net_out t = net_out s" by blast
  have "tms_bits (part (xvc_tms a) (xvc_tdi a) n r) = window ?bs p (region_end r)"
    by (simp add: part_def map_window r(1))
  then have stt: "state t = st_at st ?bs (region_end r)"
    using replays_state [OF Cons.prems(4) t(2)] Cons.prems(5) st_at_window [OF be(1), of st ?bs] by simp
  have "tap_view (state s) (part (xvc_tms a) (xvc_tdi a) n r) = window v p (region_end r)"
    using tap_view_window [of st ?cyc p "region_end r"] by (simp add: Cons.prems(5) v part_def r(1))
  moreover have "take p v @ window v p (region_end r) = take (region_end r) v"
    using be(1) take_add [of p "region_end r - p" v] by (simp add: window_def)
  ultimately have hist2: "history (wire t) = h @ take (region_end r) v"
    using replays_history [OF Cons.prems(4) t(2)] Cons.prems(6) by simp
  have inv: "drv_inv t" "owes (q @ ?o r) t" "tracks wire t" using t(2) by (simp_all add: replays_def)
  from Cons.IH [OF r(3) inv stt hist2] obtain u where
    u: "xvc_regions D a n rs t = Inr u"
      "replays drv_inv (owes ((q @ ?o r) @ concat (map ?o rs))) wire t (window ?cyc (region_end r) n) u"
      "net_out u = net_out t" by blast
  have "window ?cyc p (region_end r) @ window ?cyc (region_end r) n = window ?cyc p n" using be by (rule window_append)
  with replays_trans [OF Cons.prems(4) t(2) u(2)] t u r(1) show ?case by (auto simp: part_def)
qed

end

section \<open>The commands of a byte sequence\<close>

datatype xvc_cmd =
    Xvc_getinfo
  | Xvc_settck "32 word"
  | Xvc_shift "32 word" "byte list" "byte list"

text \<open>The first command of the bytes received and its length, when it is complete.\<close>

definition xvc_next :: "byte list \<Rightarrow> (xvc_cmd \<times> nat) option" where
  "xvc_next bs =
     (if take 8 bs = GETINFO then Some (Xvc_getinfo, 8)
      else if take 7 bs = SETTCK \<and> 11 \<le> length bs then Some (Xvc_settck (load_le32 (take 4 (drop 7 bs))), 11)
      else if take 6 bs = SHIFT \<and> 10 \<le> length bs then
        (let bits = load_le32 (take 4 (drop 6 bs)); n = unat ((bits + 7) div 8) in
         if 10 + 2 * n \<le> length bs
         then Some (Xvc_shift bits (take n (drop 10 bs)) (take n (drop (10 + n) bs)), 10 + 2 * n) else None)
      else None)"

lemma keyword_lengths [simp]: "length GETINFO = 8" "length SETTCK = 7" "length SHIFT = 6"
  by (simp_all add: GETINFO_def SETTCK_def SHIFT_def)

lemma xvc_next_length: "xvc_next bs = Some (c, k) \<Longrightarrow> 8 \<le> k \<and> k \<le> length bs"
proof -
  assume n: "xvc_next bs = Some (c, k)"
  have "8 \<le> length bs" if "take 8 bs = GETINFO" using arg_cong [OF that, of length] by simp
  with n show ?thesis by (auto simp: xvc_next_def Let_def split: if_splits)
qed

function xvc_script :: "byte list \<Rightarrow> xvc_cmd list" where
  "xvc_script bs = (case xvc_next bs of None \<Rightarrow> [] | Some (c, k) \<Rightarrow> c # xvc_script (drop k bs))"
  by pat_completeness auto
termination
  by (relation "measure length") (auto dest: xvc_next_length)

function xvc_left :: "byte list \<Rightarrow> byte list" where
  "xvc_left bs = (case xvc_next bs of None \<Rightarrow> bs | Some (c, k) \<Rightarrow> xvc_left (drop k bs))"
  by pat_completeness auto
termination
  by (relation "measure length") (auto dest: xvc_next_length)

declare xvc_script.simps [simp del] xvc_left.simps [simp del]

text \<open>What a command asks of the target, and what is sent to the client, at once or at the end of the tick.\<close>

fun xvc_cycles :: "xvc_cmd \<Rightarrow> cycle list" where
  "xvc_cycles (Xvc_shift bits tms tdi) = bitbang_cycles tms tdi (unat bits)"
| "xvc_cycles _ = []"

fun xvc_now :: "xvc_cmd \<Rightarrow> byte list" where
  "xvc_now Xvc_getinfo = XVC_INFO"
| "xvc_now (Xvc_settck tck) = le32_bytes tck"
| "xvc_now (Xvc_shift _ _ _) = []"

fun xvc_later :: "xvc_cmd \<Rightarrow> nat list" where
  "xvc_later (Xvc_shift bits tms tdi) = [(unat bits + 7) div 8]"
| "xvc_later _ = []"

text \<open>
  The commands the server survives: a period of 1 to 2000 ns (of 0 the frequency is infinite, above
  2000 it rounds to 0 MHz), and a number of bits that does not wrap around when it is rounded
  up to bytes.
\<close>

fun xvc_ok :: "xvc_cmd \<Rightarrow> bool" where
  "xvc_ok Xvc_getinfo = True"
| "xvc_ok (Xvc_settck tck) = (1 \<le> unat tck \<and> unat tck \<le> 2000)"
| "xvc_ok (Xvc_shift bits tms tdi) = (unat bits + 7 < 2 ^ 32)"

text \<open>What happens to the process at any other, on a driver that divides by the frequency in MHz.\<close>

fun xvc_fault :: "xvc_cmd \<Rightarrow> fault option" where
  "xvc_fault Xvc_getinfo = None"
| "xvc_fault (Xvc_settck tck) =
     (if tck = 0 then Some BadConversion else if 2000 < unat tck then Some DivisionByZero else None)"
| "xvc_fault (Xvc_shift bits tms tdi) = (if 2 ^ 32 \<le> unat bits + 7 then Some OutOfBounds else None)"

lemma xvc_fault_ok: "xvc_fault c = None \<longleftrightarrow> xvc_ok c"
proof (cases c)
  case (Xvc_settck tck)
  have "tck \<noteq> 0 \<longleftrightarrow> 1 \<le> unat tck" by (simp add: unat_gt_0 [symmetric] Suc_le_eq)
  with Xvc_settck show ?thesis by auto
qed auto

fun xvc_first_fault :: "xvc_cmd list \<Rightarrow> fault option" where
  "xvc_first_fault [] = None"
| "xvc_first_fault (c # cs) = (case xvc_fault c of None \<Rightarrow> xvc_first_fault cs | Some e \<Rightarrow> Some e)"

lemma xvc_first_fault_ok: "xvc_first_fault cs = None \<longleftrightarrow> list_all xvc_ok cs"
proof (induction cs)
  case (Cons c cs)
  then show ?case using xvc_fault_ok [of c] by (cases "xvc_fault c") simp_all
qed simp

lemma xvc_bytes:
  fixes bits :: "32 word"
  assumes "unat bits + 7 < 2 ^ 32"
  shows "unat ((bits + 7) div 8) = (unat bits + 7) div 8"
proof -
  have "unat (bits + 7) = unat bits + 7" using assms by (simp add: unat_plus_if_size word_size)
  then show ?thesis by (simp add: unat_div)
qed

lemma xvc_total:
  fixes bits :: "32 word"
  shows "unat (of_nat (6 + 4) + 2 * ((bits + 7) div 8)) = 10 + 2 * unat ((bits + 7) div 8)"
proof -
  define b where "b = (bits + 7) div 8"
  have "unat b = unat (bits + 7) div 8" by (simp add: b_def unat_div)
  moreover have "unat (bits + 7) < 2 ^ 32" using unsigned_less [of "bits + 7"] by simp
  ultimately have b: "unat b < 2 ^ 29" by simp
  then have d: "unat (2 * b) = 2 * unat b" by (simp add: unat_mult_lem [THEN iffD1])
  have "unat (of_nat (6 + 4) :: 32 word) = 10" by simp
  with b d show ?thesis unfolding b_def [symmetric] by (simp add: unat_plus_if_size word_size)
qed

lemma xvc_freq_ok:
  assumes "1 \<le> unat tck" "unat tck \<le> 2000"
  shows "\<exists>f. xvc_freq tck = Inr f \<and> 0 < f \<and> f \<le> 1000"
proof -
  define k where "k = unat tck"
  define q where "q = (2000 + k) div (2 * k)"
  have "tck \<noteq> 0" using assms(1) by auto
  have "1 \<le> q" using assms by (simp add: q_def k_def less_eq_div_iff_mult_less_eq)
  moreover have "q \<le> 1000"
  proof -
    have "2000 + k < 1001 * (2 * k)" using assms(1) by (simp add: k_def)
    then have "q < 1001" using assms(1) by (simp add: q_def k_def div_less_iff_less_mult mult.commute)
    then show ?thesis by simp
  qed
  moreover from this have "unat (of_nat q :: 64 word) = q" by (simp add: unat_of_nat)
  ultimately have "0 < (of_nat q :: 64 word)" "(of_nat q :: 64 word) \<le> 1000"
    by (simp_all add: word_less_nat_alt word_le_nat_alt)
  then show ?thesis using \<open>tck \<noteq> 0\<close> by (simp add: xvc_freq_def q_def k_def)
qed

section \<open>One round of the parse loop\<close>

lemma xvc_match_unread:
  "buffer_inv s \<Longrightarrow> xvc_match kw extra s =
     Inr (length kw + extra \<le> length (unread s) \<and> take (length kw) (unread s) = kw)"
proof -
  assume inv: "buffer_inv s"
  then have "buffer_begin s + length kw + extra \<le> buffer_end s \<longleftrightarrow> length kw + extra \<le> length (unread s)"
    by (auto simp: length_unread buffer_inv_def)
  with buffer_bytes_unread [OF inv, of 0 "length kw"] show ?thesis by (auto simp: xvc_match_def)
qed

lemma xvc_getinfo_len: "8 \<le> length bs \<and> take 8 bs = GETINFO \<longleftrightarrow> take 8 bs = GETINFO"
proof -
  have "8 \<le> length bs" if "take 8 bs = GETINFO" using arg_cong [OF that, of length] by simp
  then show ?thesis by blast
qed

text \<open>No keyword is a prefix of another.\<close>

lemma shift_not_other:
  assumes "take 6 bs = SHIFT"
  shows "take 8 bs \<noteq> GETINFO" "take 7 bs \<noteq> SETTCK"
proof -
  have k: "take 6 GETINFO \<noteq> SHIFT" "take 6 SETTCK \<noteq> SHIFT" by code_simp+
  show "take 8 bs \<noteq> GETINFO"
  proof
    assume "take 8 bs = GETINFO"
    from arg_cong [OF this, of "take 6"] assms k(1) show False by (simp add: min_def)
  qed
  show "take 7 bs \<noteq> SETTCK"
  proof
    assume "take 7 bs = SETTCK"
    from arg_cong [OF this, of "take 6"] assms k(2) show False by (simp add: min_def)
  qed
qed

lemma settck_not_getinfo:
  assumes "take 7 bs = SETTCK"
  shows "take 8 bs \<noteq> GETINFO"
proof
  assume "take 8 bs = GETINFO"
  from arg_cong [OF this, of "take 7"] assms have "take 7 GETINFO = SETTCK" by (simp add: min_def)
  moreover have "take 7 GETINFO \<noteq> SETTCK" by code_simp
  ultimately show False by blast
qed

lemma xvc_step_unfold:
  assumes "buffer_inv s"
  shows "xvc_step E D cmds a s =
    (if take 8 (unread s) = GETINFO then bindR (xvc_getinfo E s) (\<lambda>s. Inr (Some (cmds, a, s)))
     else if take 7 (unread s) = SETTCK \<and> 11 \<le> length (unread s) then
       bindR (xvc_settck E D s) (\<lambda>s. Inr (Some (cmds, a, s)))
     else if take 6 (unread s) = SHIFT \<and> 10 \<le> length (unread s) then
       bindR (xvc_shift D a s) (\<lambda>r. case r of None \<Rightarrow> Inr None
         | Some (sc, a, s) \<Rightarrow> Inr (Some (cmds @ [sc], a, s)))
     else Inr None)"
  using xvc_getinfo_len [of "unread s"]
  by (simp add: xvc_step_def xvc_match_unread [OF assms] conj_commute)

lemma xvc_word_at:
  "buffer_inv s \<Longrightarrow> k + 4 \<le> length (unread s) \<Longrightarrow>
     buffer_bytes s (buffer_begin s + k) 4 = Inr (take 4 (drop k (unread s)))"
  by (rule buffer_bytes_unread)

lemma xvc_shift_waits:
  assumes "buffer_inv s" "10 \<le> length (unread s)"
    and "length (unread s) < 10 + 2 * unat ((load_le32 (take 4 (drop 6 (unread s))) + 7) div 8)"
  shows "xvc_shift D a s = Inr None"
proof -
  show ?thesis
    using assms unread_end [OF assms(1)] xvc_word_at [OF assms(1), of 6] unfolding xvc_shift_def
    by (simp only: keyword_lengths Let_def bindR_simps xvc_total) simp
qed

lemma xvc_step_stops:
  assumes "buffer_inv s" "xvc_next (unread s) = None"
  shows "xvc_step E D cmds a s = Inr None"
  using assms(2) xvc_shift_waits [OF assms(1)]
  by (auto simp: xvc_step_unfold [OF assms(1)] xvc_next_def Let_def not_le split: if_splits)

definition arrays_ok :: "xvc_arrays \<Rightarrow> bool" where
  "arrays_ok a \<longleftrightarrow> length (xvc_tms a) = BUFFER_SIZE \<and> length (xvc_tdi a) = BUFFER_SIZE \<and>
     length (xvc_tdo a) = BUFFER_SIZE"

text \<open>The requests that no driver survives.\<close>

lemma xvc_shift_wraps:
  assumes inv: "buffer_inv s" "arrays_ok a"
    and p: "take 6 (unread s) = SHIFT" "10 \<le> length (unread s)" "2 ^ 32 \<le> unat (load_le32 (take 4 (drop 6 (unread s)))) + 7"
  shows "xvc_step E D cmds a s = Inl OutOfBounds"
proof -
  define bits where "bits = load_le32 (take 4 (drop 6 (unread s)))"
  have "unat bits < 2 ^ 32" using unsigned_less [of bits, where 'a = nat] by simp
  then have "unat (bits + 7) < 8" using p(3) by (simp add: bits_def unat_plus_if_size word_size)
  then have b0: "unat ((bits + 7) div 8) = 0" by (simp add: unat_div)
  have step: "xvc_step E D cmds a s = bindR (xvc_shift D a s) (\<lambda>r. case r of None \<Rightarrow> Inr None
       | Some (sc, a, s) \<Rightarrow> Inr (Some (cmds @ [sc], a, s)))"
    using p shift_not_other [OF p(1)] by (simp add: xvc_step_unfold [OF inv(1)])
  have word: "buffer_bytes s (buffer_begin s + 6) 4 = Inr (take 4 (drop 6 (unread s)))"
    using xvc_word_at [OF inv(1), of 6] p(2) by simp
  have vecs: "buffer_bytes s (buffer_begin s + 6 + 4) 0 = Inr []" "buffer_bytes s (buffer_begin s + 6 + 4 + 0) 0 = Inr []"
    using buffer_bytes_unread [OF inv(1), of 10 0] p(2) by (simp_all add: add.assoc)
  have store: "store_bytes (xvc_tms a) [] = Inr (xvc_tms a)" "store_bytes (xvc_tdi a) [] = Inr (xvc_tdi a)"
    by (simp_all add: store_bytes_def write_at_def)
  have go: "\<not> buffer_end s < buffer_begin s + (10 + 2 * 0)" using unread_end [OF inv(1)] p(2) by simp
  have "8 * length (xvc_tms a) < unat bits" using p(3) inv(2) by (simp add: bits_def arrays_ok_def BUFFER_SIZE_def)
  note oob = analyze_bitbang_out_of_bounds [OF this]
  have "xvc_shift D a s = Inl OutOfBounds"
    unfolding xvc_shift_def keyword_lengths word bindR_simps Let_def bits_def [symmetric] xvc_total b0 vecs store
    using go by (simp add: oob)
  then show ?thesis by (simp add: step)
qed

lemma xvc_settck_step:
  assumes "buffer_inv s" "take 7 (unread s) = SETTCK" "11 \<le> length (unread s)"
  shows "xvc_step E D cmds a s = bindR (xvc_settck E D s) (\<lambda>s. Inr (Some (cmds, a, s)))"
  using settck_not_getinfo [OF assms(2)] assms(2,3) by (simp add: xvc_step_unfold [OF assms(1)])

lemma xvc_settck_zero:
  assumes "buffer_inv s" "take 7 (unread s) = SETTCK" "11 \<le> length (unread s)" "load_le32 (take 4 (drop 7 (unread s))) = 0"
  shows "xvc_step E D cmds a s = Inl BadConversion"
proof -
  have "xvc_settck E D s = Inl BadConversion"
    using xvc_word_at [OF assms(1), of 7] assms by (simp add: xvc_settck_def xvc_freq_def)
  then show ?thesis by (simp add: xvc_settck_step [OF assms(1-3)])
qed

text \<open>A period above 2000 ns is a frequency of 0 MHz.\<close>

lemma xvc_settck_slow:
  assumes "buffer_inv s" "take 7 (unread s) = SETTCK" "11 \<le> length (unread s)"
    and "2000 < unat (load_le32 (take 4 (drop 7 (unread s))))"
    and "adapter_set_tck_freq D 0 (s\<lparr>buffer_begin := buffer_begin s + 11\<rparr>) = Inl e"
  shows "xvc_step E D cmds a s = Inl e"
proof -
  define tck where "tck = load_le32 (take 4 (drop 7 (unread s)))"
  have "(2000 + unat tck) div (2 * unat tck) = 0" "tck \<noteq> 0" using assms(4) by (auto simp: tck_def)
  then have "xvc_freq tck = Inr 0" by (simp add: xvc_freq_def)
  then have "xvc_settck E D s = Inl e"
    using xvc_word_at [OF assms(1), of 7] assms(3,5) by (simp add: xvc_settck_def tck_def [symmetric] Let_def)
  then show ?thesis by (simp add: xvc_settck_step [OF assms(1-3)])
qed

definition region_fits :: "nat \<Rightarrow> Region \<Rightarrow> bool" where
  "region_fits n r \<longleftrightarrow> region_begin r < region_end r \<and> region_end r \<le> n \<and>
     (\<not> is_tms r \<longrightarrow> (\<exists>flip. flip_tms r = Some flip))"

definition sc_ok :: "ShiftCommand \<Rightarrow> bool" where
  "sc_ok sc \<longleftrightarrow> unat (sc_bytes sc) \<le> BUFFER_SIZE \<and> list_all (region_fits SCAN_LIMIT) (sc_regions sc)"

lemma bitbang_write_front:
  assumes "n \<le> 8 * length x" "n \<le> 8 * length y" "length x \<le> length a" "length y \<le> length b"
  shows "bitbang_cycles (write_at a 0 x) (write_at b 0 y) n = bitbang_cycles x y n"
  using assms by (auto simp: bitbang_cycles_def bit_at_write_front)

lemma write_assert_keeps:
  assumes "sock_accepts E" "sockets_keep E port"
  shows "\<exists>w. write_assert E bs s = Inr (s\<lparr>net_out := net_out s @ bs, world := w\<rparr>) \<and> port w = port (world s)"
  using write_full_accepted_keeps [OF assms, of bs s] by (auto simp: write_assert_def)

text \<open>A complete shift command, unfolded to its parts.\<close>

lemma xvc_shift_parts:
  assumes inv: "buffer_inv s" "arrays_ok a"
    and next_cmd: "xvc_next (unread s) = Some (Xvc_shift bits tms tdi, k)" and ok: "unat bits + 7 < 2 ^ 32"
  defines "b \<equiv> a\<lparr>xvc_tms := write_at (xvc_tms a) 0 tms, xvc_tdi := write_at (xvc_tdi a) 0 tdi\<rparr>"
    and "s' \<equiv> s\<lparr>buffer_begin := buffer_begin s + k\<rparr>"
  shows "take 6 (unread s) = SHIFT \<and> take 8 (unread s) \<noteq> GETINFO \<and> take 7 (unread s) \<noteq> SETTCK \<and> 10 \<le> length (unread s) \<and>
     length tms = (unat bits + 7) div 8 \<and> length tdi = (unat bits + 7) div 8 \<and>
     k = 10 + 2 * ((unat bits + 7) div 8) \<and> k \<le> length (unread s) \<and>
     xvc_shift D a s =
       bindR (analyze_bitbang (xvc_tms b) (unat bits) (state s)) (\<lambda>(regions, cur_state).
       bindR (xvc_regions D b (unat bits) regions s') (\<lambda>t.
       if cur_state \<noteq> state t then Inl AssertionFailed
       else Inr (Some (\<lparr>sc_bits = bits, sc_bytes = (bits + 7) div 8, sc_regions = regions\<rparr>, b, t))))"
proof -
  define n where "n = (unat bits + 7) div 8"
  let ?u = "unread s"
  have nb: "unat ((bits + 7) div 8) = n" unfolding n_def by (rule xvc_bytes [OF ok])
  note shift_not_other [of ?u]
  with next_cmd have p: "take 6 ?u = SHIFT" "take 8 ?u \<noteq> GETINFO" "take 7 ?u \<noteq> SETTCK" "10 \<le> length ?u"
      "bits = load_le32 (take 4 (drop 6 ?u))" "10 + 2 * n \<le> length ?u" "k = 10 + 2 * n"
      "tms = take n (drop 10 ?u)" "tdi = take n (drop (10 + n) ?u)"
    by (auto simp: xvc_next_def Let_def nb [symmetric] split: if_splits)
  note le = unread_end [OF inv(1)]
  have len: "length tms = n" "length tdi = n" using p(6,8,9) by simp_all
  have word: "buffer_bytes s (buffer_begin s + 6) 4 = Inr (take 4 (drop 6 ?u))"
    using xvc_word_at [OF inv(1), of 6] p(4) by simp
  have vecs: "buffer_bytes s (buffer_begin s + 6 + 4) n = Inr tms" "buffer_bytes s (buffer_begin s + 6 + 4 + n) n = Inr tdi"
    using buffer_bytes_unread [OF inv(1), of 10 n] buffer_bytes_unread [OF inv(1), of "10 + n" n] p(6,8,9)
    by (simp_all add: add.assoc)
  have store: "store_bytes (xvc_tms a) tms = Inr (write_at (xvc_tms a) 0 tms)"
      "store_bytes (xvc_tdi a) tdi = Inr (write_at (xvc_tdi a) 0 tdi)"
    using inv(2) len p(6) le by (simp_all add: store_bytes_def arrays_ok_def)
  have go: "\<not> buffer_end s < buffer_begin s + (10 + 2 * n)" using p(6) le by simp
  have "xvc_shift D a s =
       bindR (analyze_bitbang (xvc_tms b) (unat bits) (state s)) (\<lambda>(regions, cur_state).
       bindR (xvc_regions D b (unat bits) regions s') (\<lambda>t.
       if cur_state \<noteq> state t then Inl AssertionFailed
       else Inr (Some (\<lparr>sc_bits = bits, sc_bytes = (bits + 7) div 8, sc_regions = regions\<rparr>, b, t))))"
    unfolding xvc_shift_def keyword_lengths word bindR_simps Let_def p(5) [symmetric] xvc_total nb vecs store
      b_def s'_def p(7)
    using go by simp
  with p len show ?thesis unfolding n_def [symmetric] by (intro conjI) simp_all
qed

section \<open>What the client is owed\<close>

text \<open>
  The answer to a shift with the clock cycles \<open>cyc\<close> from the TAP state \<open>st\<close>, by a target \<open>f\<close> that has
  seen \<open>h\<close> before: the TDO levels in the cycles that shift, zeros elsewhere.
\<close>

definition xvc_answer :: "target \<Rightarrow> (bool \<times> bool option) list \<Rightarrow> JtagState \<Rightarrow> cycle list \<Rightarrow> byte list" where
  "xvc_answer f h st cyc =
     map (\<lambda>k. packed (map (\<lambda>i. i < length cyc \<and> shifting (run_tap st (take i (tms_bits cyc))) \<and>
         f (h @ take i (tap_view st cyc))) [8 * k..<8 * k + 8])) [0..<(length cyc + 7) div 8]"

lemma length_xvc_answer [simp]: "length (xvc_answer f h st cyc) = (length cyc + 7) div 8"
  by (simp add: xvc_answer_def)

lemma bit_at_xvc_answer:
  assumes "i < 8 * ((length cyc + 7) div 8)"
  shows "bit_at (xvc_answer f h st cyc) i \<longleftrightarrow> i < length cyc \<and> shifting (run_tap st (take i (tms_bits cyc))) \<and>
         f (h @ take i (tap_view st cyc))"
proof -
  define q m where "q = i div 8" and "m = i mod 8"
  have i: "i = 8 * q + m" "m < 8" by (simp_all add: q_def m_def)
  have q: "q < (length cyc + 7) div 8" using assms i(1) by linarith
  show ?thesis using q i(2)
    unfolding bit_at_def q_def [symmetric] m_def [symmetric] by (simp add: xvc_answer_def bit_packed i(1))
qed

fun xvc_answers :: "target \<Rightarrow> (bool \<times> bool option) list \<Rightarrow> JtagState \<Rightarrow> xvc_cmd list \<Rightarrow> byte list list" where
  "xvc_answers f h st [] = []"
| "xvc_answers f h st (c # cs) =
     (case c of Xvc_shift _ _ _ \<Rightarrow> [xvc_answer f h st (xvc_cycles c)] | _ \<Rightarrow> []) @
     xvc_answers f (h @ tap_view st (xvc_cycles c)) (run_tap st (tms_bits (xvc_cycles c))) cs"

text \<open>The record of a shift, and the scans it has left under way.\<close>

definition sc_for :: "JtagState \<Rightarrow> nat \<Rightarrow> byte list \<Rightarrow> ShiftCommand \<Rightarrow> bool" where
  "sc_for st n tms sc \<longleftrightarrow> sc_ok sc \<and> unat (sc_bytes sc) = (n + 7) div 8 \<and> tiles st (bits_of tms n) 0 (sc_regions sc) n"

fun cmd_pending :: "target \<Rightarrow> (bool \<times> bool option) list \<Rightarrow> JtagState \<Rightarrow> xvc_cmd \<Rightarrow> ShiftCommand list \<Rightarrow> owed list \<Rightarrow> bool" where
  "cmd_pending f h st (Xvc_shift bits tms tdi) scs q \<longleftrightarrow> (\<exists>sc. scs = [sc] \<and> sc_for st (unat bits) tms sc \<and>
     q = concat (map (region_owed f h (tap_view st (bitbang_cycles tms tdi (unat bits)))) (sc_regions sc)))"
| "cmd_pending f h st _ scs q \<longleftrightarrow> scs = [] \<and> q = []"

fun script_pending :: "target \<Rightarrow> (bool \<times> bool option) list \<Rightarrow> JtagState \<Rightarrow> xvc_cmd list \<Rightarrow> ShiftCommand list \<Rightarrow> owed list \<Rightarrow> bool" where
  "script_pending f h st [] scs q \<longleftrightarrow> scs = [] \<and> q = []"
| "script_pending f h st (c # cs) scs q \<longleftrightarrow> (\<exists>x y p r. scs = x @ y \<and> q = p @ r \<and> cmd_pending f h st c x p \<and>
     script_pending f (h @ tap_view st (xvc_cycles c)) (run_tap st (tms_bits (xvc_cycles c))) cs y r)"

section \<open>The parse loop on a queueing driver\<close>

context pipelined_driver
begin

lemma view_begin:
  "drv_inv (s\<lparr>buffer_begin := b\<rparr>) = drv_inv s" "owes q (s\<lparr>buffer_begin := b\<rparr>) = owes q s"
  "wire (s\<lparr>buffer_begin := b\<rparr>) = wire s"
  using owing.view [of "s\<lparr>buffer_begin := b\<rparr>" s q] by simp_all

lemma view_tracks: "tracks wire (s\<lparr>buffer_begin := b\<rparr>) = tracks wire s"
  by (simp add: tracks_def view_begin)

text \<open>What a round and the loop leave of the connection; \<open>k\<close> bytes have been consumed.\<close>

definition consumes where
  "consumes s k cyc q t \<longleftrightarrow> replays drv_inv (owes q) wire (s\<lparr>buffer_begin := buffer_begin s + k\<rparr>) cyc t"

lemma consumes_inv:
  assumes "buffer_inv s" "k \<le> length (unread s)" "consumes s k cyc q t"
  shows "buffer_inv t \<and> unread t = drop k (unread s) \<and> drv_inv t \<and> owes q t \<and> tracks wire t \<and>
     buffer_begin t = buffer_begin s + k"
proof -
  let ?s = "s\<lparr>buffer_begin := buffer_begin s + k\<rparr>"
  have t: "same_conn ?s t" "drv_inv t" "owes q t" "tracks wire t" using assms(3) by (simp_all add: consumes_def replays_def)
  have "buffer_inv t = buffer_inv ?s" "unread t = unread ?s" "buffer_begin t = buffer_begin s + k"
    using t(1) by (simp_all add: same_conn_def buffer_inv_def unread_def)
  with unread_consume [OF assms(1,2)] t(2-4) show ?thesis by simp
qed

lemma consumes_seen:
  assumes "tracks wire s" "consumes s k cyc q t"
  shows "history (wire t) = history (wire s) @ tap_view (state s) cyc" "state t = run_tap (state s) (tms_bits cyc)"
proof -
  let ?s = "s\<lparr>buffer_begin := buffer_begin s + k\<rparr>"
  have tr: "tracks wire ?s" using assms(1) by (simp add: view_tracks)
  show "history (wire t) = history (wire s) @ tap_view (state s) cyc"
    using replays_history [OF tr assms(2) [unfolded consumes_def]] by (simp add: view_begin)
  show "state t = run_tap (state s) (tms_bits cyc)"
    using replays_state [OF tr assms(2) [unfolded consumes_def]] by simp
qed

lemma consumes_refl: "drv_inv s \<Longrightarrow> owes q s \<Longrightarrow> tracks wire s \<Longrightarrow> consumes s 0 [] q s"
  by (simp add: consumes_def replays_refl)

lemma replays_begin:
  assumes "replays drv_inv (owes q) wire s cyc t"
  shows "replays drv_inv (owes q) wire (s\<lparr>buffer_begin := b\<rparr>) cyc (t\<lparr>buffer_begin := b\<rparr>)"
  using assms by (simp add: replays_def view_begin view_tracks same_conn_def)

lemma consumes_trans:
  assumes "tracks wire s" "consumes s k xs q t" "consumes t l ys r u"
  shows "consumes s (k + l) (xs @ ys) r u"
proof -
  have b: "buffer_begin t = buffer_begin s + k" using assms(2) by (simp add: consumes_def replays_def same_conn_def)
  have "replays drv_inv (owes q) wire (s\<lparr>buffer_begin := buffer_begin s + (k + l)\<rparr>) xs
      (t\<lparr>buffer_begin := buffer_begin s + (k + l)\<rparr>)"
    using replays_begin [OF assms(2) [unfolded consumes_def], of "buffer_begin s + (k + l)"] by simp
  moreover have "replays drv_inv (owes r) wire (t\<lparr>buffer_begin := buffer_begin s + (k + l)\<rparr>) ys u"
    using assms(3) b by (simp add: consumes_def add.assoc)
  ultimately show ?thesis
    unfolding consumes_def using assms(1) by (intro replays_trans) (simp_all add: view_tracks)
qed

lemma consumes_sent:
  "consumes s k cyc q t \<Longrightarrow> port w = port (world t) \<Longrightarrow> consumes s k cyc q (t\<lparr>net_out := x, world := w\<rparr>)"
  unfolding consumes_def by (rule owing.replays_sent)

lemma consume_begin:
  "drv_inv s \<Longrightarrow> owes q s \<Longrightarrow> tracks wire s \<Longrightarrow> consumes s k [] q (s\<lparr>buffer_begin := buffer_begin s + k\<rparr>)"
  by (simp add: consumes_def replays_refl view_begin view_tracks)

lemma xvc_getinfo_runs:
  assumes "sock_accepts E" "sockets_keep E port" "drv_inv s" "owes q s" "tracks wire s"
  shows "\<exists>t. xvc_getinfo E s = Inr t \<and> consumes s 8 [] q t \<and> net_out t = net_out s @ XVC_INFO"
proof -
  let ?s = "s\<lparr>buffer_begin := buffer_begin s + 8\<rparr>"
  from write_assert_keeps [OF assms(1,2), of XVC_INFO ?s] obtain w where
    "write_assert E XVC_INFO ?s = Inr (?s\<lparr>net_out := net_out ?s @ XVC_INFO, world := w\<rparr>)" "port w = port (world ?s)" by blast
  with consumes_sent [OF consume_begin [OF assms(3-5), of 8], where x = "net_out ?s @ XVC_INFO" and w = w] show ?thesis
    by (simp add: xvc_getinfo_def)
qed

lemma xvc_settck_runs:
  assumes "live" "sock_accepts E" "sockets_keep E port" "drv_inv s" "owes q s" "tracks wire s"
    and raw: "buffer_bytes s (buffer_begin s + 7) 4 = Inr raw" "load_le32 raw = tck"
    and ok: "1 \<le> unat tck" "unat tck \<le> 2000"
  shows "\<exists>t. xvc_settck E D s = Inr t \<and> consumes s 11 [] q t \<and> net_out t = net_out s @ le32_bytes tck"
proof -
  let ?s = "s\<lparr>buffer_begin := buffer_begin s + 11\<rparr>"
  obtain f where f: "xvc_freq tck = Inr f" "0 < f" "f \<le> 1000" using xvc_freq_ok [OF ok] by blast
  have "drv_inv ?s" "owes q ?s" "tracks wire ?s" using assms(4-6) by (simp_all add: view_begin view_tracks)
  from set_freq_drives [OF assms(1) this f(2,3)] obtain t where
    t: "adapter_set_tck_freq D f ?s = Inr (True, t)" "drives drv_inv (owes q) wire ?s [] t" by blast
  from drives_replays [OF t(2)] have r: "consumes s 11 [] q t" "net_out t = net_out s" by (simp_all add: consumes_def)
  from write_assert_keeps [OF assms(2,3), of "le32_bytes tck" t] obtain w where
    w: "write_assert E (le32_bytes tck) t = Inr (t\<lparr>net_out := net_out t @ le32_bytes tck, world := w\<rparr>)"
      "port w = port (world t)" by blast
  have "xvc_settck E D s = Inr (t\<lparr>net_out := net_out t @ le32_bytes tck, world := w\<rparr>)"
    using raw f(1) t(1) w(1) by (simp add: xvc_settck_def Let_def)
  with consumes_sent [OF r(1) w(2), where x = "net_out t @ le32_bytes tck"] r(2) show ?thesis by auto
qed

lemma xvc_shift_runs:
  assumes pre: "live" "drv_inv s" "owes q s" "tracks wire s" "buffer_inv s" "arrays_ok a"
    and next_cmd: "xvc_next (unread s) = Some (Xvc_shift bits tms tdi, k)" and ok: "unat bits + 7 < 2 ^ 32"
  shows "\<exists>sc b t p. xvc_shift D a s = Inr (Some (sc, b, t)) \<and> consumes s k (bitbang_cycles tms tdi (unat bits)) (q @ p) t \<and>
     net_out t = net_out s \<and> arrays_ok b \<and>
     cmd_pending (shown_by target) (history (wire s)) (state s) (Xvc_shift bits tms tdi) [sc] p"
proof -
  define n where "n = unat bits"
  let ?s = "s\<lparr>buffer_begin := buffer_begin s + k\<rparr>"
  let ?b = "a\<lparr>xvc_tms := write_at (xvc_tms a) 0 tms, xvc_tdi := write_at (xvc_tdi a) 0 tdi\<rparr>"
  note parts = xvc_shift_parts [OF pre(5,6) next_cmd ok, of D]
  have len: "length tms = (n + 7) div 8" "length tdi = (n + 7) div 8" "k = 10 + 2 * ((n + 7) div 8)"
      "k \<le> length (unread s)" using parts by (simp_all add: n_def)
  have "k \<le> BUFFER_SIZE" using len(4) unread_end [OF pre(5)] by simp
  then have small: "(n + 7) div 8 \<le> BUFFER_SIZE" "n \<le> SCAN_LIMIT"
    using len(3) by (simp_all add: BUFFER_SIZE_def SCAN_LIMIT_def)
  have b: "arrays_ok ?b" using pre(6) len small by (simp add: arrays_ok_def)
  then have lb: "length (xvc_tms ?b) = BUFFER_SIZE" "length (xvc_tdi ?b) = BUFFER_SIZE" by (simp_all add: arrays_ok_def)
  have n8: "n \<le> 8 * length (xvc_tms ?b)" unfolding lb using small(2) by (simp add: BUFFER_SIZE_def SCAN_LIMIT_def)
  from analyze_bitbang_tiles [OF n8, of "state s"] obtain rs where
    rs: "analyze_bitbang (xvc_tms ?b) n (state s) = Inr (rs, run_tap (state s) (bits_of (xvc_tms ?b) n))"
      "tiles (state s) (bits_of (xvc_tms ?b) n) 0 rs n" by blast
  have inv: "drv_inv ?s" "owes q ?s" "tracks wire ?s" using pre(2-4) by (simp_all add: view_begin view_tracks)
  have st: "state ?s = st_at (state s) (bits_of (xvc_tms ?b) n) 0" by simp
  have cyc: "bitbang_cycles (xvc_tms ?b) (xvc_tdi ?b) n = bitbang_cycles tms tdi n"
    using len(1,2) pre(6) small(1) by (simp add: bitbang_write_front arrays_ok_def)
  define v where "v = tap_view (state s) (bitbang_cycles tms tdi n)"
  have v: "v = tap_view (state s) (bitbang_cycles (xvc_tms ?b) (xvc_tdi ?b) n)" unfolding cyc v_def ..
  have hist: "history (wire ?s) = history (wire s) @ take 0 v" by (simp add: view_begin)
  from xvc_regions_replay [OF pre(1) lb small(2) v rs(2) inv st hist] obtain t where
    t: "xvc_regions D ?b n rs ?s = Inr t"
      "replays drv_inv (owes (q @ concat (map (region_owed (shown_by target) (history (wire s)) v) rs))) wire ?s
         (window (bitbang_cycles (xvc_tms ?b) (xvc_tdi ?b) n) 0 n) t"
      "net_out t = net_out ?s" by blast
  have "window (bitbang_cycles (xvc_tms ?b) (xvc_tdi ?b) n) 0 n = bitbang_cycles tms tdi n"
    unfolding cyc using window_all [of "bitbang_cycles tms tdi n"] by simp
  then have r: "consumes s k (bitbang_cycles tms tdi n)
      (q @ concat (map (region_owed (shown_by target) (history (wire s)) v) rs)) t" using t(2) by (simp add: consumes_def)
  have "state t = run_tap (state s) (bits_of (xvc_tms ?b) n)"
    using replays_state [OF inv(3) t(2)] unfolding map_window tms_bitbang
    using window_all [of "bits_of (xvc_tms ?b) n"] by simp
  with parts rs(1) t(1) have sh: "xvc_shift D a s =
      Inr (Some (\<lparr>sc_bits = bits, sc_bytes = (bits + 7) div 8, sc_regions = rs\<rparr>, ?b, t))" by (simp add: n_def)
  have "sc_ok \<lparr>sc_bits = bits, sc_bytes = (bits + 7) div 8, sc_regions = rs\<rparr>"
    unfolding sc_ok_def ShiftCommand.simps list_all_iff xvc_bytes [OF ok] n_def [symmetric]
  proof (intro conjI ballI)
    show "(n + 7) div 8 \<le> BUFFER_SIZE" by (rule small(1))
    fix r assume "r \<in> set rs"
    from tiles_mem [OF rs(2) this] small(2) show "region_fits SCAN_LIMIT r"
      by (simp add: region_fits_def region_ok_def)
  qed
  moreover have "tiles (state s) (bits_of tms n) 0 rs n"
    using rs(2) tms_bitbang [of "xvc_tms ?b" "xvc_tdi ?b" n] unfolding cyc tms_bitbang by simp
  ultimately have "cmd_pending (shown_by target) (history (wire s)) (state s) (Xvc_shift bits tms tdi)
      [\<lparr>sc_bits = bits, sc_bytes = (bits + 7) div 8, sc_regions = rs\<rparr>]
      (concat (map (region_owed (shown_by target) (history (wire s)) v) rs))"
    by (simp add: sc_for_def xvc_bytes [OF ok] n_def v_def)
  with sh r t(3) b show ?thesis unfolding n_def
    by (intro exI [of _ "\<lparr>sc_bits = bits, sc_bytes = (bits + 7) div 8, sc_regions = rs\<rparr>"] exI [of _ ?b] exI [of _ t]
        exI [of _ "concat (map (region_owed (shown_by target) (history (wire s)) v) rs)"]) simp
qed

lemma xvc_step_runs:
  assumes pre: "live" "sock_accepts E" "sockets_keep E port" "drv_inv s" "owes q s" "tracks wire s" "buffer_inv s" "arrays_ok a"
    and next_cmd: "xvc_next (unread s) = Some (c, k)" and ok: "xvc_ok c"
  shows "\<exists>new b t p. xvc_step E D cmds a s = Inr (Some (cmds @ new, b, t)) \<and> consumes s k (xvc_cycles c) (q @ p) t \<and>
     net_out t = net_out s @ xvc_now c \<and> arrays_ok b \<and>
     cmd_pending (shown_by target) (history (wire s)) (state s) c new p"
proof (cases c)
  case Xvc_getinfo
  with next_cmd have "take 8 (unread s) = GETINFO" "k = 8"
    by (auto simp: xvc_next_def Let_def split: if_splits)
  with xvc_getinfo_runs [OF pre(2-6)] Xvc_getinfo pre(8) show ?thesis
    by (auto simp: xvc_step_unfold [OF pre(7)] intro!: exI [of _ "[]"])
next
  case (Xvc_settck tck)
  with next_cmd have c: "take 8 (unread s) \<noteq> GETINFO" "take 7 (unread s) = SETTCK" "11 \<le> length (unread s)" "k = 11"
      "load_le32 (take 4 (drop 7 (unread s))) = tck"
    by (auto simp: xvc_next_def Let_def split: if_splits)
  have "buffer_bytes s (buffer_begin s + 7) 4 = Inr (take 4 (drop 7 (unread s)))"
    using xvc_word_at [OF pre(7), of 7] c(3) by simp
  from xvc_settck_runs [OF pre(1-6) this c(5)] ok Xvc_settck c pre(8) show ?thesis
    by (auto simp: xvc_step_unfold [OF pre(7)] intro!: exI [of _ "[]"])
next
  case (Xvc_shift bits tms tdi)
  with ok have w: "unat bits + 7 < 2 ^ 32" by simp
  note parts = xvc_shift_parts [OF pre(7,8) next_cmd [unfolded Xvc_shift] w]
  from xvc_shift_runs [OF pre(1,4-8) next_cmd [unfolded Xvc_shift] w] obtain sc b t p where
    t: "xvc_shift D a s = Inr (Some (sc, b, t))" "consumes s k (bitbang_cycles tms tdi (unat bits)) (q @ p) t"
      "net_out t = net_out s" "arrays_ok b"
      "cmd_pending (shown_by target) (history (wire s)) (state s) (Xvc_shift bits tms tdi) [sc] p" by blast
  have "xvc_step E D cmds a s = Inr (Some (cmds @ [sc], b, t))"
    using parts t(1) by (simp add: xvc_step_unfold [OF pre(7)])
  with t Xvc_shift show ?thesis
    by (intro exI [of _ "[sc]"] exI [of _ b] exI [of _ t] exI [of _ p]) (simp del: cmd_pending.simps)
qed

lemma xvc_loop_runs:
  assumes pre: "live" "sock_accepts E" "sockets_keep E port"
  shows "drv_inv s \<Longrightarrow> owes q s \<Longrightarrow> tracks wire s \<Longrightarrow> buffer_inv s \<Longrightarrow> arrays_ok a \<Longrightarrow> length (unread s) < fuel \<Longrightarrow>
     list_all xvc_ok (xvc_script (unread s)) \<Longrightarrow>
     \<exists>new b t k p. xvc_loop E D fuel cmds a s = Inr (cmds @ new, b, t) \<and>
       consumes s k (concat (map xvc_cycles (xvc_script (unread s)))) (q @ p) t \<and>
       net_out t = net_out s @ concat (map xvc_now (xvc_script (unread s))) \<and>
       script_pending (shown_by target) (history (wire s)) (state s) (xvc_script (unread s)) new p \<and>
       arrays_ok b \<and> buffer_inv t \<and> unread t = xvc_left (unread s)"
proof (induction fuel arbitrary: cmds a s q)
  case 0
  then show ?case by simp
next
  case (Suc fuel)
  show ?case
  proof (cases "xvc_next (unread s)")
    case None
    with Suc.prems xvc_step_stops [OF Suc.prems(4) None] show ?thesis
      by (auto simp: xvc_script.simps [of "unread s"] xvc_left.simps [of "unread s"] consumes_refl
          intro!: exI [of _ "[]"] exI [of _ a] exI [of _ s] exI [of _ 0])
  next
    case (Some p)
    obtain c k where p: "p = (c, k)" by fastforce
    with Some have next_cmd: "xvc_next (unread s) = Some (c, k)" by simp
    then have script: "xvc_script (unread s) = c # xvc_script (drop k (unread s))"
        "xvc_left (unread s) = xvc_left (drop k (unread s))"
      by (simp_all add: xvc_script.simps [of "unread s"] xvc_left.simps [of "unread s"])
    with Suc.prems(7) have ok: "xvc_ok c" "list_all xvc_ok (xvc_script (drop k (unread s)))" by simp_all
    from xvc_step_runs [OF pre Suc.prems(1-5) next_cmd ok(1), of cmds] obtain new b t x where
      t: "xvc_step E D cmds a s = Inr (Some (cmds @ new, b, t))" "consumes s k (xvc_cycles c) (q @ x) t"
        "net_out t = net_out s @ xvc_now c" "arrays_ok b"
        "cmd_pending (shown_by target) (history (wire s)) (state s) c new x" by blast
    note k = xvc_next_length [OF next_cmd]
    have inv: "buffer_inv t" "unread t = drop k (unread s)" "drv_inv t" "owes (q @ x) t" "tracks wire t"
      using consumes_inv [OF Suc.prems(4) _ t(2)] k by simp_all
    have "length (unread t) = length (unread s) - k" by (simp add: inv(2))
    then have "length (unread t) < fuel" using k Suc.prems(6) by linarith
    from Suc.IH [OF inv(3-5,1) t(4) this, of "cmds @ new"] ok(2) inv(2) obtain new2 b2 u l y where
      u: "xvc_loop E D fuel (cmds @ new) b t = Inr ((cmds @ new) @ new2, b2, u)"
        "consumes t l (concat (map xvc_cycles (xvc_script (drop k (unread s))))) ((q @ x) @ y) u"
        "net_out u = net_out t @ concat (map xvc_now (xvc_script (drop k (unread s))))"
        "script_pending (shown_by target) (history (wire t)) (state t) (xvc_script (drop k (unread s))) new2 y"
        "arrays_ok b2" "buffer_inv u" "unread u = xvc_left (drop k (unread s))" by auto
    have "xvc_loop E D (Suc fuel) cmds a s = Inr (cmds @ (new @ new2), b2, u)" using t(1) u(1) by simp
    moreover have "consumes s (k + l) (concat (map xvc_cycles (xvc_script (unread s)))) (q @ (x @ y)) u"
      using consumes_trans [OF Suc.prems(3) t(2) u(2)] script by simp
    moreover have "script_pending (shown_by target) (history (wire s)) (state s) (xvc_script (unread s)) (new @ new2) (x @ y)"
      using t(5) u(4) unfolding consumes_seen [OF Suc.prems(3) t(2)] script(1) script_pending.simps by blast
    ultimately show ?thesis using t(3) u script
      by (intro exI [of _ "new @ new2"] exI [of _ b2] exI [of _ u] exI [of _ "k + l"] exI [of _ "x @ y"]) simp
  qed
qed

text \<open>
  And the loop on a driver for which a frequency of 0 MHz is a division by zero: the first command the
  server does not survive ends it.
\<close>

lemma xvc_step_faults:
  assumes "drv_inv s" "owes q s" "buffer_inv s" "arrays_ok a"
    and slow: "\<And>u r. drv_inv u \<Longrightarrow> owes r u \<Longrightarrow> adapter_set_tck_freq D 0 u = Inl DivisionByZero"
    and next_cmd: "xvc_next (unread s) = Some (c, k)" and bad: "xvc_fault c = Some e"
  shows "xvc_step E D cmds a s = Inl e"
proof (cases c)
  case Xvc_getinfo
  with bad show ?thesis by simp
next
  case (Xvc_settck tck)
  with next_cmd have n: "take 7 (unread s) = SETTCK" "11 \<le> length (unread s)" "load_le32 (take 4 (drop 7 (unread s))) = tck"
    by (auto simp: xvc_next_def Let_def split: if_splits)
  have "drv_inv (s\<lparr>buffer_begin := buffer_begin s + 11\<rparr>)" "owes q (s\<lparr>buffer_begin := buffer_begin s + 11\<rparr>)"
    using assms(1,2) by (simp_all add: view_begin)
  note slow = slow [OF this]
  show ?thesis using bad Xvc_settck xvc_settck_zero [OF assms(3) n(1,2)] xvc_settck_slow [OF assms(3) n(1,2) _ slow] n(3)
    by (auto split: if_splits)
next
  case (Xvc_shift bits tms tdi)
  with next_cmd have n: "take 6 (unread s) = SHIFT" "10 \<le> length (unread s)" "load_le32 (take 4 (drop 6 (unread s))) = bits"
    by (auto simp: xvc_next_def Let_def split: if_splits)
  with bad Xvc_shift xvc_shift_wraps [OF assms(3,4) n(1,2)] show ?thesis by (auto split: if_splits)
qed

lemma xvc_loop_faults:
  assumes pre: "live" "sock_accepts E" "sockets_keep E port"
    and slow: "\<And>u r. drv_inv u \<Longrightarrow> owes r u \<Longrightarrow> adapter_set_tck_freq D 0 u = Inl DivisionByZero"
  shows "drv_inv s \<Longrightarrow> owes q s \<Longrightarrow> tracks wire s \<Longrightarrow> buffer_inv s \<Longrightarrow> arrays_ok a \<Longrightarrow> length (unread s) < fuel \<Longrightarrow>
     xvc_first_fault (xvc_script (unread s)) = Some e \<Longrightarrow> xvc_loop E D fuel cmds a s = Inl e"
proof (induction fuel arbitrary: cmds a s q)
  case 0
  then show ?case by simp
next
  case (Suc fuel)
  show ?case
  proof (cases "xvc_next (unread s)")
    case None
    with Suc.prems(7) show ?thesis by (simp add: xvc_script.simps [of "unread s"])
  next
    case (Some p)
    obtain c k where p: "p = (c, k)" by fastforce
    with Some have next_cmd: "xvc_next (unread s) = Some (c, k)" by simp
    then have script: "xvc_script (unread s) = c # xvc_script (drop k (unread s))"
      by (simp add: xvc_script.simps [of "unread s"])
    show ?thesis
    proof (cases "xvc_fault c")
      case (Some e')
      with Suc.prems(7) xvc_step_faults [OF Suc.prems(1,2,4,5) slow next_cmd Some, where E = E and cmds = cmds] show ?thesis
        by (simp add: script)
    next
      case None
      with Suc.prems(7) have ok: "xvc_ok c" "xvc_first_fault (xvc_script (drop k (unread s))) = Some e"
        by (simp_all add: script xvc_fault_ok [symmetric])
      from xvc_step_runs [OF pre Suc.prems(1-5) next_cmd ok(1), of cmds] obtain new b t x where
        t: "xvc_step E D cmds a s = Inr (Some (cmds @ new, b, t))" "consumes s k (xvc_cycles c) (q @ x) t" "arrays_ok b" by blast
      note k = xvc_next_length [OF next_cmd]
      have inv: "buffer_inv t" "unread t = drop k (unread s)" "drv_inv t" "owes (q @ x) t" "tracks wire t"
        using consumes_inv [OF Suc.prems(4) _ t(2)] k by simp_all
      have "length (unread t) = length (unread s) - k" by (simp add: inv(2))
      then have "length (unread t) < fuel" using k Suc.prems(6) by linarith
      from Suc.IH [OF inv(3-5,1) t(3) this] ok(2) inv(2) t(1) show ?thesis by simp
    qed
  qed
qed

section \<open>Reading the results back\<close>

lemma take_window: "b + j \<le> e \<Longrightarrow> take b v @ take j (window v b e) = take (b + j) v"
  by (simp add: window_def min_absorb1 take_add)

lemma xvc_recv_regions_runs:
  assumes pre: "live"
  shows "drv_inv s \<Longrightarrow> owes (concat (map (region_owed (shown_by target) h v) rs) @ q) s \<Longrightarrow> tracks wire s \<Longrightarrow>
     list_all (region_fits SCAN_LIMIT) rs \<Longrightarrow> list_all (\<lambda>r. region_end r \<le> length v) rs \<Longrightarrow> length tdo = BUFFER_SIZE \<Longrightarrow>
     \<exists>tdo' t. xvc_recv_regions D rs tdo s = Inr (tdo', t) \<and> length tdo' = BUFFER_SIZE \<and>
       drives drv_inv (owes q) wire s [] t \<and>
       (target \<noteq> None \<longrightarrow> (\<forall>i. bit_at tdo' i = (bit_at tdo i \<or>
          (\<exists>r \<in> set rs. \<not> is_tms r \<and> region_begin r \<le> i \<and> i < region_end r \<and> shown_by target (h @ take i v)))))"
proof (induction rs arbitrary: tdo s)
  case Nil
  then show ?case by (simp add: drives_def)
next
  case (Cons r rs)
  show ?case
  proof (cases "is_tms r")
    case True
    then have "region_owed (shown_by target) h v r = []" by (simp add: region_owed_def)
    with Cons.prems(2) have o: "owes (concat (map (region_owed (shown_by target) h v) rs) @ q) s" by simp
    from Cons.IH [OF Cons.prems(1) o Cons.prems(3) _ _ Cons.prems(6)] Cons.prems(4,5) True show ?thesis by auto
  next
    case False
    with Cons.prems(4,5) obtain flip where r: "region_begin r < region_end r" "region_end r \<le> SCAN_LIMIT"
      "flip_tms r = Some flip" "region_end r \<le> length v" by (auto simp: region_fits_def)
    define len where "len = region_end r - region_begin r"
    let ?bits = "tdo_bits (shown_by target) (h @ take (region_begin r) v) (window v (region_begin r) (region_end r))"
    let ?q = "concat (map (region_owed (shown_by target) h v) rs) @ q"
    have len: "0 < len" "len \<le> SCAN_LIMIT" "len \<le> 8 * length (replicate BUFFER_SIZE (0 :: byte))"
        "region_begin r + len = region_end r" "len \<le> 8 * BUFFER_SIZE"
      using r(1,2) by (simp_all add: len_def BUFFER_SIZE_def SCAN_LIMIT_def)
    have "region_owed (shown_by target) h v r = [(len, flip, ?bits)]" using False r(3) by (simp add: region_owed_def len_def)
    with Cons.prems(2) have o: "owes ((len, flip, ?bits) # ?q) s" by simp
    from recv_drives [OF pre Cons.prems(1) o Cons.prems(3) len(1-3)] len(1,5) obtain buf t where
      t: "jtag_scan_chain_recv D (replicate BUFFER_SIZE 0) len flip s = Inr (True, buf, t)"
        "length buf = BUFFER_SIZE" "drives drv_inv (owes ?q) wire s [] t" "target \<noteq> None \<Longrightarrow> bits_of buf len = ?bits" by auto
    have "0 + len \<le> 8 * length buf" "region_begin r + len \<le> 8 * length tdo"
      unfolding len(4) using t(2) Cons.prems(6) len r(2) by (simp_all add: BUFFER_SIZE_def SCAN_LIMIT_def)
    from copy_bits_ok [OF this] obtain tdo2 where
      tdo2: "copy_bits buf 0 len tdo (region_begin r) = Inr tdo2" "length tdo2 = BUFFER_SIZE"
        "\<And>i. bit_at tdo2 i = (bit_at tdo i \<or> (region_begin r \<le> i \<and> i < region_end r \<and> bit_at buf (i - region_begin r)))"
      unfolding len(4) using Cons.prems(6) by auto
    have got: "bit_at buf (i - region_begin r) = shown_by target (h @ take i v)"
      if "target \<noteq> None" "region_begin r \<le> i" "i < region_end r" for i
    proof -
      let ?j = "i - region_begin r"
      have j: "?j < len" "region_begin r + ?j = i" using that(2,3) by (simp_all add: len_def)
      have l: "length (window v (region_begin r) (region_end r)) = len" using r(4) by (simp add: len_def)
      have "bit_at buf ?j = ?bits ! ?j" using arg_cong [OF t(4) [OF that(1)], of "\<lambda>x. x ! ?j"] j(1) by simp
      also have "\<dots> = shown_by target (h @ take (region_begin r) v @ take ?j (window v (region_begin r) (region_end r)))"
        using j(1) l by simp
      also have "\<dots> = shown_by target (h @ take i v)"
        using take_window [of "region_begin r" ?j "region_end r" v] j(2) that(3) by simp
      finally show ?thesis .
    qed
    from Cons.IH [OF drivesD(1-3) [OF t(3)] _ _ tdo2(2)] Cons.prems(4,5) obtain tdo3 u where
      u: "xvc_recv_regions D rs tdo2 t = Inr (tdo3, u)" "length tdo3 = BUFFER_SIZE"
        "drives drv_inv (owes q) wire t [] u"
        "target \<noteq> None \<Longrightarrow> (\<forall>i. bit_at tdo3 i = (bit_at tdo2 i \<or>
          (\<exists>r \<in> set rs. \<not> is_tms r \<and> region_begin r \<le> i \<and> i < region_end r \<and> shown_by target (h @ take i v))))" by auto
    have "region_length r = Inr len" using r(1) by (simp add: region_length_def len_def)
    then have "xvc_recv_regions D (r # rs) tdo s = Inr (tdo3, u)"
      using False r(3) t(1) tdo2(1) u(1) by (simp add: region_flip_def)
    moreover have "drives drv_inv (owes q) wire s [] u"
      using t(3) u(3) by (auto simp: drives_def intro: same_host_trans)
    moreover have "bit_at tdo3 i = (bit_at tdo i \<or>
          (\<exists>x \<in> set (r # rs). \<not> is_tms x \<and> region_begin x \<le> i \<and> i < region_end x \<and> shown_by target (h @ take i v)))"
      if "target \<noteq> None" for i
      using u(4) [OF that] tdo2(3) [of i] got [OF that, of i] False by auto
    ultimately show ?thesis using u(2) by blast
  qed
qed

lemma xvc_reply_runs:
  assumes pre: "live" "sock_accepts E" "sockets_keep E port" "drv_inv s" "tracks wire s" "arrays_ok a"
    and sc: "cmd_pending (shown_by target) h st (Xvc_shift bits tms tdi) [sc] p" "owes (p @ q) s"
  shows "\<exists>b t bs. xvc_reply E D sc a s = Inr (b, t) \<and> arrays_ok b \<and> replays drv_inv (owes q) wire s [] t \<and>
     net_out t = net_out s @ bs \<and> length bs = (unat bits + 7) div 8 \<and>
     (target \<noteq> None \<longrightarrow> bs = xvc_answer (shown_by target) h st (bitbang_cycles tms tdi (unat bits)))"
proof -
  define n where "n = unat bits"
  let ?cyc = "bitbang_cycles tms tdi n"
  define v where "v = tap_view st ?cyc"
  let ?n = "(n + 7) div 8" and ?z = "write_at (xvc_tdo a) 0 (replicate ((n + 7) div 8) 0)"
  from sc have scn: "sc_for st n tms sc" "owes (concat (map (region_owed (shown_by target) h v) (sc_regions sc)) @ q) s"
    by (simp_all add: n_def v_def)
  then have n: "unat (sc_bytes sc) = ?n" "?n \<le> BUFFER_SIZE" "list_all (region_fits SCAN_LIMIT) (sc_regions sc)"
      "length (xvc_tdo a) = BUFFER_SIZE" and tl: "tiles st (bits_of tms n) 0 (sc_regions sc) n"
    using pre(6) by (auto simp: sc_for_def sc_ok_def arrays_ok_def)
  have z: "store_bytes (xvc_tdo a) (replicate ?n 0) = Inr ?z" "length ?z = BUFFER_SIZE"
    using n(2,4) by (simp_all add: store_bytes_def)
  have fit: "list_all (\<lambda>r. region_end r \<le> length v) (sc_regions sc)"
    using tiles_mem [OF tl] by (auto simp: list_all_iff region_ok_def v_def)
  from xvc_recv_regions_runs [OF pre(1,4) scn(2) pre(5) n(3) fit z(2)] obtain tdo t where
    t: "xvc_recv_regions D (sc_regions sc) ?z s = Inr (tdo, t)" "length tdo = BUFFER_SIZE"
      "drives drv_inv (owes q) wire s [] t"
      "target \<noteq> None \<Longrightarrow> (\<forall>i. bit_at tdo i = (bit_at ?z i \<or>
          (\<exists>r \<in> set (sc_regions sc). \<not> is_tms r \<and> region_begin r \<le> i \<and> i < region_end r \<and> shown_by target (h @ take i v))))"
    by blast
  from write_assert_keeps [OF pre(2,3), of "take ?n tdo" t] obtain w where
    w: "write_assert E (take ?n tdo) t = Inr (t\<lparr>net_out := net_out t @ take ?n tdo, world := w\<rparr>)" "port w = port (world t)"
    by blast
  let ?u = "t\<lparr>net_out := net_out t @ take ?n tdo, world := w\<rparr>"
  have "xvc_reply E D sc a s = Inr (a\<lparr>xvc_tdo := tdo\<rparr>, ?u)" by (simp add: xvc_reply_def n(1) z(1) t(1) w(1))
  moreover have "replays drv_inv (owes q) wire s [] ?u"
    using owing.replays_sent [OF drives_replays(1) [OF t(3)] w(2)] by simp
  moreover have "net_out t = net_out s" using drives_replays(2) [OF t(3)] by simp
  moreover have len: "length (take ?n tdo) = ?n" using t(2) n(2) by simp
  moreover have "arrays_ok (a\<lparr>xvc_tdo := tdo\<rparr>)" using pre(6) t(2) by (simp add: arrays_ok_def)
  moreover have "take ?n tdo = xvc_answer (shown_by target) h st ?cyc" if "target \<noteq> None"
  proof (rule bytes_eq_bits)
    show "length (take ?n tdo) = length (xvc_answer (shown_by target) h st ?cyc)" using len by simp
    fix i assume "i < 8 * length (xvc_answer (shown_by target) h st ?cyc)"
    then have i: "i < 8 * ?n" by simp
    have "bit_at ?z i = False" using i n(2,4) by (simp add: bit_at_write_front)
    moreover have "(\<exists>r \<in> set (sc_regions sc). \<not> is_tms r \<and> region_begin r \<le> i \<and> i < region_end r) \<longleftrightarrow>
        i < n \<and> shifting (run_tap st (take i (bits_of tms n)))"
      using tiles_mem [OF tl] tiles_cover [OF tl, of i] by (fastforce simp: region_ok_def st_at_def)
    ultimately show "bit_at (take ?n tdo) i = bit_at (xvc_answer (shown_by target) h st ?cyc) i"
      using t(4) [OF that] i bit_at_xvc_answer [of i ?cyc "shown_by target" h st]
      by (auto simp: bit_at_take v_def)
  qed
  ultimately show ?thesis unfolding n_def [symmetric]
    by (intro exI [of _ "a\<lparr>xvc_tdo := tdo\<rparr>"] exI [of _ ?u] exI [of _ "take ?n tdo"]) simp
qed

lemma xvc_replies_run:
  assumes pre: "live" "sock_accepts E" "sockets_keep E port"
  shows "drv_inv s \<Longrightarrow> owes (p @ q) s \<Longrightarrow> tracks wire s \<Longrightarrow> script_pending (shown_by target) h st script scs p \<Longrightarrow> arrays_ok a \<Longrightarrow>
     \<exists>b t bs. xvc_replies E D scs a s = Inr (b, t) \<and> arrays_ok b \<and> replays drv_inv (owes q) wire s [] t \<and>
       net_out t = net_out s @ concat bs \<and> map length bs = concat (map xvc_later script) \<and>
       (target \<noteq> None \<longrightarrow> bs = xvc_answers (shown_by target) h st script)"
proof (induction script arbitrary: a s h st scs p)
  case Nil
  then show ?case by (auto simp: replays_refl intro!: exI [of _ "[]"])
next
  case (Cons c script)
  let ?h = "h @ tap_view st (xvc_cycles c)" and ?st = "run_tap st (tms_bits (xvc_cycles c))"
  from Cons.prems(4) obtain x y k r where
    split: "scs = x @ y" "p = k @ r" "cmd_pending (shown_by target) h st c x k"
      "script_pending (shown_by target) ?h ?st script y r" by auto
  show ?case
  proof (cases "\<exists>bits tms tdi. c = Xvc_shift bits tms tdi")
    case False
    then have c: "xvc_later c = []" "x = []" "k = []" "(case c of Xvc_shift b m i \<Rightarrow> [xvc_answer f h st (xvc_cycles c)] | _ \<Rightarrow> []) = []" for f
      using split(3) by (cases c; simp)+
    from Cons.IH [OF Cons.prems(1) _ Cons.prems(3) split(4) Cons.prems(5)] Cons.prems(2) show ?thesis
      unfolding xvc_answers.simps c split(1,2) by (simp add: c(1))
  next
    case True
    then obtain bits tms tdi where c: "c = Xvc_shift bits tms tdi" by blast
    obtain sc where x: "x = [sc]" using split(3) unfolding c by auto
    have o: "owes (k @ (r @ q)) s" using Cons.prems(2) split(2) by simp
    from xvc_reply_runs [OF pre Cons.prems(1,3,5) split(3) [unfolded c x] o] obtain b t z where
      t: "xvc_reply E D sc a s = Inr (b, t)" "arrays_ok b" "replays drv_inv (owes (r @ q)) wire s [] t"
        "net_out t = net_out s @ z" "length z = (unat bits + 7) div 8"
        "target \<noteq> None \<Longrightarrow> z = xvc_answer (shown_by target) h st (bitbang_cycles tms tdi (unat bits))" by blast
    have inv: "drv_inv t" "owes (r @ q) t" "tracks wire t" using t(3) by (simp_all add: replays_def)
    from Cons.IH [OF inv split(4) t(2)] obtain d u zs where
      u: "xvc_replies E D y b t = Inr (d, u)" "arrays_ok d" "replays drv_inv (owes q) wire t [] u"
        "net_out u = net_out t @ concat zs" "map length zs = concat (map xvc_later script)"
        "target \<noteq> None \<Longrightarrow> zs = xvc_answers (shown_by target) ?h ?st script" by blast
    have "replays drv_inv (owes q) wire s [] u" using replays_trans [OF Cons.prems(3) t(3) u(3)] by simp
    then show ?thesis using t(1,4-6) u unfolding split(1) x
      by (intro exI [of _ d] exI [of _ u] exI [of _ "z # zs"]) (simp add: c)
  qed
qed

section \<open>The tick\<close>

lemma xvc_tick_spec:
  assumes pre: "live" "sock_accepts E" "sockets_keep E port" "drv_inv s" "owes [] s" "tracks wire s" "arrays_ok a" "0 \<le> client_fd s"
    and read: "read_socket E s = Inr (True, r)" "buffer_inv s"
    and ok: "list_all xvc_ok (xvc_script (unread r))"
  shows "\<exists>b t bs new. jtag_xvc_tick E D a s = Inr (b, t) \<and> arrays_ok b \<and> drv_inv t \<and> owes [] t \<and> tracks wire t \<and>
     wire t = wire s @ new \<and>
     tap_view (state s) new = tap_view (state s) (concat (map xvc_cycles (xvc_script (unread r)))) \<and>
     state t = run_tap (state s) (tms_bits (concat (map xvc_cycles (xvc_script (unread r))))) \<and>
     net_out t = net_out s @ concat (map xvc_now (xvc_script (unread r))) @ concat bs \<and>
     map length bs = concat (map xvc_later (xvc_script (unread r))) \<and>
     (target \<noteq> None \<longrightarrow> bs = xvc_answers (shown_by target) (history (wire s)) (state s) (xvc_script (unread r))) \<and>
     buffer_inv t \<and> unread t = xvc_left (unread r)"
proof -
  let ?script = "xvc_script (unread r)"
  from read_socket_frame [OF read(2,1)] have f: "buffer_inv r" "state r = state s" "usb_out r = usb_out s"
    "common_state.more r = common_state.more s" "net_out r = net_out s" by simp_all
  with owing.view [of r s "[]"] read_socket_keeps [OF pre(3) read(1)] have
    inv: "drv_inv r" "owes [] r" "wire r = wire s" using pre(4,5) by simp_all
  then have tr: "tracks wire r" using pre(6) f(2) by (simp add: tracks_def)
  have "length (unread r) < BUFFER_SIZE + 1" using unread_end [OF f(1)] by simp
  from xvc_loop_runs [OF pre(1-3) inv(1,2) tr f(1) pre(7) this ok, of "[]"] obtain new b t k p where
    t: "xvc_loop E D (BUFFER_SIZE + 1) [] a r = Inr (new, b, t)" "consumes r k (concat (map xvc_cycles ?script)) p t"
      "net_out t = net_out r @ concat (map xvc_now ?script)"
      "script_pending (shown_by target) (history (wire r)) (state r) ?script new p"
      "arrays_ok b" "buffer_inv t" "unread t = xvc_left (unread r)" by auto
  let ?r = "r\<lparr>buffer_begin := buffer_begin r + k\<rparr>"
  have ct: "replays drv_inv (owes p) wire ?r (concat (map xvc_cycles ?script)) t" using t(2) by (simp add: consumes_def)
  have it: "drv_inv t" "owes (p @ []) t" "tracks wire t" using ct by (simp_all add: replays_def)
  from xvc_replies_run [OF pre(1-3) it t(4,5)] obtain c u bs where
    u: "xvc_replies E D new b t = Inr (c, u)" "arrays_ok c" "replays drv_inv (owes []) wire t [] u"
      "net_out u = net_out t @ concat bs" "map length bs = concat (map xvc_later ?script)"
      "target \<noteq> None \<longrightarrow> bs = xvc_answers (shown_by target) (history (wire r)) (state r) ?script" by blast
  have trr: "tracks wire ?r" using tr by (simp add: view_tracks)
  have all: "replays drv_inv (owes []) wire ?r (concat (map xvc_cycles ?script)) u"
    using replays_trans [OF trr ct u(3)] by simp
  have "jtag_xvc_tick E D a s = Inr (c, u)"
    using pre(8) read(1) t(1) u(1) by (simp add: jtag_xvc_tick_def)
  moreover have "buffer_inv u" "unread u = unread t"
    using t(6) u(3) by (simp_all add: replays_def same_conn_def buffer_inv_def unread_def)
  moreover obtain w where "wire u = wire s @ w" "tap_view (state s) w = tap_view (state s) (concat (map xvc_cycles ?script))"
    using all inv(3) f(2) by (auto simp: replays_def view_begin)
  ultimately show ?thesis
    using u t(3,7) all replays_state [OF trr all] f(2,5) inv(3)
    by (intro exI [of _ c] exI [of _ u] exI [of _ bs] exI [of _ w]) (simp add: replays_def)
qed

lemma xvc_tick_faults:
  assumes pre: "live" "sock_accepts E" "sockets_keep E port" "drv_inv s" "owes [] s" "tracks wire s" "arrays_ok a" "0 \<le> client_fd s"
    and read: "read_socket E s = Inr (True, r)" "buffer_inv s"
    and slow: "\<And>u r. drv_inv u \<Longrightarrow> owes r u \<Longrightarrow> adapter_set_tck_freq D 0 u = Inl DivisionByZero"
    and bad: "xvc_first_fault (xvc_script (unread r)) = Some e"
  shows "jtag_xvc_tick E D a s = Inl e"
proof -
  from read_socket_frame [OF read(2,1)] have f: "buffer_inv r" "state r = state s" "usb_out r = usb_out s"
    "common_state.more r = common_state.more s" by simp_all
  with owing.view [of r s "[]"] read_socket_keeps [OF pre(3) read(1)] have
    inv: "drv_inv r" "owes [] r" "wire r = wire s" using pre(4,5) by simp_all
  then have tr: "tracks wire r" using pre(6) f(2) by (simp add: tracks_def)
  have "length (unread r) < BUFFER_SIZE + 1" using unread_end [OF f(1)] by simp
  from xvc_loop_faults [OF pre(1-3) slow inv(1,2) tr f(1) pre(7) this bad] show ?thesis
    using pre(8) read(1) by (simp add: jtag_xvc_tick_def)
qed

end

end
