(* ===== verification/Mpsse_Buffer.thy ===== *)
theory Mpsse_Buffer
  imports Driver
begin

text \<open>
  src/mpsse_buffer.cpp: the command buffer between the MPSSE driver and the USB transfers.
  Commands are collected in an array of 8192 bytes and sent when about 2 KiB are waiting.
  The lemmas show that an append after a successful \<open>ensure_space\<close> is inside the array, and
  that buffering is transparent: the bytes accepted by the adapter followed by the pending
  ones (\<open>stream\<close>) are exactly the bytes appended so far.
\<close>

definition BUFFER_LENGTH :: nat where
  "BUFFER_LENGTH = 8192"

definition MAX_TRANSFER_LENGTH :: nat where
  "MAX_TRANSFER_LENGTH = 2048"

record 'w mpsse_state = "'w common_state" +
  mpsse_buffer :: "byte list"
  mpsse_buffer_pos :: nat

text \<open>The process as it starts: the two statics are zero-initialised.\<close>

definition mpsse_start :: "'w \<Rightarrow> 'w mpsse_state" where
  "mpsse_start w = common_state.extend (process_start w) (mpsse_state.fields (replicate BUFFER_LENGTH 0) 0)"

lemma mpsse_start_fields [simp]:
  "mpsse_buffer (mpsse_start w) = replicate BUFFER_LENGTH 0" "mpsse_buffer_pos (mpsse_start w) = 0"
  "usb_out (mpsse_start w) = []" "state (mpsse_start w) = TestLogicReset" "world (mpsse_start w) = w"
  "client_fd (mpsse_start w) = -1"
  by (simp_all add: mpsse_start_def process_start_def common_state.defs mpsse_state.defs)

definition mpsse_buffer_init :: "('w, 'z) mpsse_state_scheme \<Rightarrow> ('w, 'z) mpsse_state_scheme" where
  "mpsse_buffer_init s = s\<lparr>mpsse_buffer_pos := 0\<rparr>"

definition mpsse_buffer_flush :: "'w ext \<Rightarrow> ('w, 'z) mpsse_state_scheme
    \<Rightarrow> bool \<times> ('w, 'z) mpsse_state_scheme" where
  "mpsse_buffer_flush E s =
     (if mpsse_buffer_pos s = 0 then (True, s)
      else (case ftdi_write_retry E (take (mpsse_buffer_pos s) (mpsse_buffer s)) s of
        (ok, s) \<Rightarrow> (ok, s\<lparr>mpsse_buffer_pos := 0\<rparr>)))"

definition mpsse_buffer_is_empty :: "('w, 'z) mpsse_state_scheme \<Rightarrow> bool" where
  "mpsse_buffer_is_empty s = (mpsse_buffer_pos s = 0)"

definition mpsse_buffer_ensure_space :: "'w ext \<Rightarrow> nat \<Rightarrow> ('w, 'z) mpsse_state_scheme
    \<Rightarrow> bool \<times> ('w, 'z) mpsse_state_scheme" where
  "mpsse_buffer_ensure_space E num_bytes s =
     (if BUFFER_LENGTH \<le> num_bytes then (False, s)
      else if MAX_TRANSFER_LENGTH \<le> mpsse_buffer_pos s + num_bytes then mpsse_buffer_flush E s
      else (True, s))"

definition mpsse_buffer_append_byte :: "byte \<Rightarrow> ('w, 'z) mpsse_state_scheme
    \<Rightarrow> ('w, 'z) mpsse_state_scheme result" where
  "mpsse_buffer_append_byte data s =
     (if mpsse_buffer_pos s < length (mpsse_buffer s) then
        Inr (s\<lparr>mpsse_buffer := (mpsse_buffer s)[mpsse_buffer_pos s := data],
              mpsse_buffer_pos := mpsse_buffer_pos s + 1\<rparr>)
      else Inl OutOfBounds)"

definition mpsse_buffer_append :: "byte list \<Rightarrow> nat \<Rightarrow> ('w, 'z) mpsse_state_scheme
    \<Rightarrow> ('w, 'z) mpsse_state_scheme result" where
  "mpsse_buffer_append data num_bytes s =
     (if num_bytes \<le> length data \<and> mpsse_buffer_pos s + num_bytes \<le> length (mpsse_buffer s) then
        Inr (s\<lparr>mpsse_buffer := write_at (mpsse_buffer s) (mpsse_buffer_pos s) (take num_bytes data),
              mpsse_buffer_pos := mpsse_buffer_pos s + num_bytes\<rparr>)
      else Inl OutOfBounds)"

section \<open>The buffer is transparent\<close>

definition pending :: "('w, 'z) mpsse_state_scheme \<Rightarrow> byte list" where
  "pending s = take (mpsse_buffer_pos s) (mpsse_buffer s)"

definition stream :: "('w, 'z) mpsse_state_scheme \<Rightarrow> byte list" where
  "stream s = usb_out s @ pending s"

definition mpsse_safe :: "('w, 'z) mpsse_state_scheme \<Rightarrow> bool" where
  "mpsse_safe s \<longleftrightarrow> length (mpsse_buffer s) = BUFFER_LENGTH \<and> mpsse_buffer_pos s \<le> BUFFER_LENGTH"

text \<open>
  \<open>quiet\<close>: what every operation of the buffer leaves alone, also when it fails; \<open>emits\<close>: a
  successful operation that has added \<open>bs\<close> to the stream.
\<close>

definition quiet :: "('w, 'z) mpsse_state_scheme \<Rightarrow> ('w, 'z) mpsse_state_scheme \<Rightarrow> bool" where
  "quiet s t \<longleftrightarrow> mpsse_safe t \<and> same_host s t \<and> usb_ctl t = usb_ctl s \<and>
     bits_send t = bits_send s \<and> mpsse_state.more t = mpsse_state.more s"

definition emits :: "('w, 'z) mpsse_state_scheme \<Rightarrow> byte list \<Rightarrow> ('w, 'z) mpsse_state_scheme \<Rightarrow> bool" where
  "emits s bs t \<longleftrightarrow> quiet s t \<and> state t = state s \<and> stream t = stream s @ bs"

lemma quiet_refl: "mpsse_safe s \<Longrightarrow> quiet s s"
  by (simp add: quiet_def)

lemma quiet_trans [trans]: "quiet s t \<Longrightarrow> quiet t u \<Longrightarrow> quiet s u"
  by (auto simp: quiet_def intro: same_host_trans)

lemma emits_quiet: "emits s bs t \<Longrightarrow> quiet s t"
  by (simp add: emits_def)

lemma quiet_safe: "quiet s t \<Longrightarrow> mpsse_safe t"
  by (simp add: quiet_def)

lemma emits_refl: "mpsse_safe s \<Longrightarrow> emits s [] s"
  by (simp add: emits_def quiet_refl)

lemma emits_trans: "emits s xs t \<Longrightarrow> emits t ys u \<Longrightarrow> emits s (xs @ ys) u"
  by (auto simp: emits_def intro: quiet_trans)

lemma flush_spec:
  assumes "mpsse_safe s" "mpsse_buffer_flush E s = (ok, t)"
  shows "quiet s t \<and> state t = state s \<and> mpsse_buffer_pos t = 0 \<and> (ok \<longrightarrow> emits s [] t \<and> usb_out t = stream s)
    \<and> (usb_writes_accepted E \<longrightarrow> ok)"
proof (cases "mpsse_buffer_pos s = 0")
  case True
  with assms show ?thesis
    by (auto simp: mpsse_buffer_flush_def emits_refl quiet_refl stream_def pending_def)
next
  case False
  obtain s1 where w: "ftdi_write_retry E (pending s) s = (ok, s1)" and t: "t = s1\<lparr>mpsse_buffer_pos := 0\<rparr>"
    using assms(2) False by (auto simp: mpsse_buffer_flush_def pending_def split: prod.splits)
  from ftdi_write_retry_log [OF w] obtain k wd where
    s1: "s1 = s\<lparr>usb_out := usb_out s @ take k (pending s), world := wd\<rparr>"
    and k: "ok \<longrightarrow> k = length (pending s)" by blast
  have "ok" if "usb_writes_accepted E"
    using ftdi_write_retry_accepted [OF that, of "pending s" s] w by simp
  then show ?thesis
    using assms(1) t s1 k
    by (auto simp: quiet_def emits_def mpsse_safe_def same_host_def stream_def pending_def)
qed

lemma ensure_space_spec:
  assumes "mpsse_safe s" "mpsse_buffer_ensure_space E n s = (ok, t)"
  shows "quiet s t \<and> state t = state s \<and>
     (ok \<longrightarrow> emits s [] t \<and> mpsse_buffer_pos t + n \<le> BUFFER_LENGTH) \<and>
     (usb_writes_accepted E \<and> n < BUFFER_LENGTH \<longrightarrow> ok)"
proof (cases "BUFFER_LENGTH \<le> n \<or> mpsse_buffer_pos s + n < MAX_TRANSFER_LENGTH")
  case True
  with assms show ?thesis
    by (auto simp: mpsse_buffer_ensure_space_def emits_refl quiet_refl BUFFER_LENGTH_def MAX_TRANSFER_LENGTH_def
        split: if_splits)
next
  case False
  with assms have "mpsse_buffer_flush E s = (ok, t)"
    by (simp add: mpsse_buffer_ensure_space_def not_less)
  with flush_spec [OF assms(1) this] False show ?thesis by auto
qed

lemma append_byte_spec:
  assumes "mpsse_safe s" "mpsse_buffer_pos s < BUFFER_LENGTH"
  shows "\<exists>t. mpsse_buffer_append_byte b s = Inr t \<and> emits s [b] t \<and> mpsse_buffer_pos t = mpsse_buffer_pos s + 1"
  using assms
  by (auto simp: mpsse_buffer_append_byte_def emits_def quiet_def mpsse_safe_def same_host_def stream_def
      pending_def take_Suc_upd)

lemma append_spec:
  assumes "mpsse_safe s" "n \<le> length data" "mpsse_buffer_pos s + n \<le> BUFFER_LENGTH"
  shows "\<exists>t. mpsse_buffer_append data n s = Inr t \<and> emits s (take n data) t \<and>
     mpsse_buffer_pos t = mpsse_buffer_pos s + n"
proof -
  have "take (mpsse_buffer_pos s + n) (write_at (mpsse_buffer s) (mpsse_buffer_pos s) (take n data))
      = take (mpsse_buffer_pos s) (mpsse_buffer s) @ take n data"
    using assms take_write_at [of "mpsse_buffer_pos s" "take n data" "mpsse_buffer s"]
    by (simp add: mpsse_safe_def)
  then show ?thesis
    using assms
    by (auto simp: mpsse_buffer_append_def emits_def quiet_def mpsse_safe_def same_host_def stream_def pending_def)
qed

text \<open>A run of appended bytes after one \<open>ensure_space\<close>.\<close>

fun append_all :: "byte list \<Rightarrow> ('w, 'z) mpsse_state_scheme \<Rightarrow> ('w, 'z) mpsse_state_scheme result" where
  "append_all [] s = Inr s"
| "append_all (b # bs) s = bindR (mpsse_buffer_append_byte b s) (append_all bs)"

lemma append_all_spec:
  assumes "mpsse_safe s" "mpsse_buffer_pos s + length bs \<le> BUFFER_LENGTH"
  shows "\<exists>t. append_all bs s = Inr t \<and> emits s bs t \<and> mpsse_buffer_pos t = mpsse_buffer_pos s + length bs"
  using assms
proof (induction bs arbitrary: s)
  case Nil
  then show ?case by (simp add: emits_refl)
next
  case (Cons b bs)
  then obtain t where t: "mpsse_buffer_append_byte b s = Inr t" "emits s [b] t"
      "mpsse_buffer_pos t = mpsse_buffer_pos s + 1"
    using append_byte_spec [of s b] by auto
  with Cons.IH [of t] Cons.prems obtain u where
    "append_all bs t = Inr u" "emits t bs u" "mpsse_buffer_pos u = mpsse_buffer_pos t + length bs"
    by (auto simp: emits_def quiet_safe)
  with t emits_trans [OF t(2), of bs u] show ?case by auto
qed

end
