(* ===== verification/Mpsse.thy ===== *)
theory Mpsse
  imports Mpsse_Buffer
begin

text \<open>
  src/mpsse.cpp: the driver for FTDI chips in MPSSE mode, one definition per function. The
  opcodes and flags are those of libftdi's \<open>ftdi.h\<close>; the static \<open>ftdi\<close> handle is the
  environment \<open>E\<close>. The two \<open>while\<close> loops of the receive path have no bound of their own; the
  model follows them for \<open>ext_polls E\<close> polls and then reports \<open>Diverges\<close>.
\<close>

section \<open>Constants of ftdi.h\<close>

definition MPSSE_WRITE_NEG :: byte where "MPSSE_WRITE_NEG = 0x01"
definition MPSSE_BITMODE :: byte where "MPSSE_BITMODE = 0x02"
definition MPSSE_LSB :: byte where "MPSSE_LSB = 0x08"
definition MPSSE_DO_WRITE :: byte where "MPSSE_DO_WRITE = 0x10"
definition MPSSE_DO_READ :: byte where "MPSSE_DO_READ = 0x20"
definition MPSSE_WRITE_TMS :: byte where "MPSSE_WRITE_TMS = 0x40"
definition SET_BITS_LOW :: byte where "SET_BITS_LOW = 0x80"
definition SET_BITS_HIGH :: byte where "SET_BITS_HIGH = 0x82"
definition TCK_DIVISOR :: byte where "TCK_DIVISOR = 0x86"
definition SEND_IMMEDIATE :: byte where "SEND_IMMEDIATE = 0x87"
definition DIS_DIV_5 :: byte where "DIS_DIV_5 = 0x8a"
definition BITMODE_MPSSE :: byte where "BITMODE_MPSSE = 0x02"

lemmas mpsse_constants =
  MPSSE_WRITE_NEG_def MPSSE_BITMODE_def MPSSE_LSB_def MPSSE_DO_WRITE_def MPSSE_DO_READ_def
  MPSSE_WRITE_TMS_def SET_BITS_LOW_def SET_BITS_HIGH_def TCK_DIVISOR_def SEND_IMMEDIATE_def
  DIS_DIV_5_def BITMODE_MPSSE_def

section \<open>Sending\<close>

definition tms_opcode :: byte where
  "tms_opcode = MPSSE_WRITE_TMS OR MPSSE_LSB OR MPSSE_BITMODE OR MPSSE_WRITE_NEG"

fun mpsse_tms_loop :: "'w ext \<Rightarrow> byte list \<Rightarrow> nat \<Rightarrow> nat \<Rightarrow> nat \<Rightarrow> ('w, 'z) mpsse_state_scheme op" where
  "mpsse_tms_loop E data num_bits i 0 s = Inr (True, s)"
| "mpsse_tms_loop E data num_bits i (Suc k) s =
     (let cur_bits = min 8 (num_bits - i * 8) in
      check_then (Inr (mpsse_buffer_ensure_space E 3 s)) (\<lambda>s.
        if i < length data then
          bindR (append_all [tms_opcode, of_nat (cur_bits - 1), data ! i] s)
            (mpsse_tms_loop E data num_bits (Suc i) k)
        else Inl OutOfBounds))"

definition mpsse_jtag_tms_seq :: "'w ext \<Rightarrow> byte list \<Rightarrow> nat \<Rightarrow> ('w, 'z) mpsse_state_scheme op" where
  "mpsse_jtag_tms_seq E data num_bits s = mpsse_tms_loop E data num_bits 0 ((num_bits + 7) div 8) s"

text \<open>The three parts of \<open>mpsse_jtag_scan_chain_send\<close>: whole bytes, remaining bits, last bit with TMS.\<close>

definition mpsse_send_bytes :: "'w ext \<Rightarrow> byte list \<Rightarrow> nat \<Rightarrow> byte \<Rightarrow> ('w, 'z) mpsse_state_scheme op" where
  "mpsse_send_bytes E data length_in_bytes do_read_flag s =
     (if length_in_bytes = 0 then Inr (True, s)
      else check_then (Inr (mpsse_buffer_ensure_space E (3 + length_in_bytes) s)) (\<lambda>s.
        bindR (append_all [do_read_flag OR MPSSE_DO_WRITE OR MPSSE_LSB OR MPSSE_WRITE_NEG,
                           of_nat ((length_in_bytes - 1) mod 256),
                           of_nat ((length_in_bytes - 1) div 256)] s) (\<lambda>s.
        bindR (mpsse_buffer_append data length_in_bytes s) (\<lambda>s. Inr (True, s)))))"

definition mpsse_send_bits :: "'w ext \<Rightarrow> byte list \<Rightarrow> nat \<Rightarrow> byte \<Rightarrow> ('w, 'z) mpsse_state_scheme op" where
  "mpsse_send_bits E data bulk do_read_flag s =
     (if bulk mod 8 = 0 then Inr (True, s)
      else check_then (Inr (mpsse_buffer_ensure_space E 3 s)) (\<lambda>s.
        if bulk div 8 < length data then
          bindR (append_all [do_read_flag OR MPSSE_DO_WRITE OR MPSSE_LSB OR MPSSE_WRITE_NEG OR MPSSE_BITMODE,
                             of_nat (bulk mod 8 - 1), data ! (bulk div 8)] s) (\<lambda>s. Inr (True, s))
        else Inl OutOfBounds))"

definition mpsse_send_last :: "'w ext \<Rightarrow> byte list \<Rightarrow> nat \<Rightarrow> bool \<Rightarrow> byte \<Rightarrow> ('w, 'z) mpsse_state_scheme op" where
  "mpsse_send_last E data num_bits flip do_read_flag s0 =
     (if \<not> flip then Inr (True, s0)
      else
        let s = s0\<lparr>state := next_state (state s0) True\<rparr> in
        bindR (read_bit data (size_dec num_bits)) (\<lambda>b.
        check_then (Inr (mpsse_buffer_ensure_space E 3 s)) (\<lambda>s.
          bindR (append_all [do_read_flag OR MPSSE_WRITE_TMS OR MPSSE_LSB OR MPSSE_BITMODE OR MPSSE_WRITE_NEG,
                             0x00, 0x01 OR push_bit 7 (of_bool b)] s) (\<lambda>s. Inr (True, s)))))"

definition mpsse_jtag_scan_chain_send :: "'w ext \<Rightarrow> byte list \<Rightarrow> nat \<Rightarrow> bool \<Rightarrow> bool
    \<Rightarrow> ('w, 'z) mpsse_state_scheme op" where
  "mpsse_jtag_scan_chain_send E data num_bits flip do_read s =
     (let bulk = bulk_bits num_bits flip;
          do_read_flag = (if do_read then MPSSE_DO_READ else 0) in
      check_then (mpsse_send_bytes E data (bulk div 8) do_read_flag s) (\<lambda>s.
      check_then (mpsse_send_bits E data bulk do_read_flag s) (\<lambda>s.
      mpsse_send_last E data num_bits flip do_read_flag s)))"

section \<open>Receiving\<close>

fun mpsse_read_loop :: "'w ext \<Rightarrow> nat \<Rightarrow> nat \<Rightarrow> byte list \<Rightarrow> ('w, 'z) mpsse_state_scheme
    \<Rightarrow> (bool \<times> byte list \<times> ('w, 'z) mpsse_state_scheme) result" where
  "mpsse_read_loop E 0 len got s = (if length got < len then Inl Diverges else Inr (True, got, s))"
| "mpsse_read_loop E (Suc polls) len got s =
     (if length got < len then
        (case call_ftdi_read E (len - length got) s of
           (None, s) \<Rightarrow> Inr (False, got, s)
         | (Some bs, s) \<Rightarrow> mpsse_read_loop E polls len (got @ bs) s)
      else Inr (True, got, s))"

text \<open>\<open>while (ftdi_read_data(ftdi, &last_bit, 1) != 1);\<close>\<close>

fun mpsse_last_loop :: "'w ext \<Rightarrow> nat \<Rightarrow> ('w, 'z) mpsse_state_scheme
    \<Rightarrow> (byte \<times> ('w, 'z) mpsse_state_scheme) result" where
  "mpsse_last_loop E 0 s = Inl Diverges"
| "mpsse_last_loop E (Suc polls) s =
     (case call_ftdi_read E 1 s of
        (Some [b], s) \<Rightarrow> Inr (b, s)
      | (_, s) \<Rightarrow> mpsse_last_loop E polls s)"

definition mpsse_recv_flush :: "'w ext \<Rightarrow> ('w, 'z) mpsse_state_scheme op" where
  "mpsse_recv_flush E s =
     (if mpsse_buffer_is_empty s then Inr (True, s)
      else check_then (Inr (mpsse_buffer_ensure_space E 1 s)) (\<lambda>s.
        bindR (mpsse_buffer_append_byte SEND_IMMEDIATE s) (\<lambda>s. Inr (mpsse_buffer_flush E s))))"

text \<open>The sampled bits of a bit-mode read sit at the top of the byte: shift them down.\<close>

definition mpsse_align_bits :: "byte list \<Rightarrow> nat \<Rightarrow> byte list result" where
  "mpsse_align_bits recv bulk =
     (if bulk mod 8 = 0 then Inr recv
      else if bulk div 8 < length recv then
        Inr (recv[bulk div 8 := drop_bit (8 - bulk mod 8) (recv ! (bulk div 8))])
      else Inl OutOfBounds)"

definition mpsse_recv_last :: "'w ext \<Rightarrow> byte list \<Rightarrow> nat \<Rightarrow> bool \<Rightarrow> ('w, 'z) mpsse_state_scheme
    \<Rightarrow> (bool \<times> byte list \<times> ('w, 'z) mpsse_state_scheme) result" where
  "mpsse_recv_last E recv num_bits flip s =
     (if \<not> flip then Inr (True, recv, s)
      else bindR (mpsse_last_loop E (ext_polls E) s) (\<lambda>(last_bit, s).
        if size_dec num_bits div 8 < length recv then
          Inr (True, or_bit recv (size_dec num_bits) (bit last_bit 7), s)
        else Inl OutOfBounds))"

definition mpsse_jtag_scan_chain_recv :: "'w ext \<Rightarrow> byte list \<Rightarrow> nat \<Rightarrow> bool \<Rightarrow> ('w, 'z) mpsse_state_scheme
    \<Rightarrow> (bool \<times> byte list \<times> ('w, 'z) mpsse_state_scheme) result" where
  "mpsse_jtag_scan_chain_recv E recv num_bits flip s =
     bindR (mpsse_recv_flush E s) (\<lambda>(ok, s).
       if \<not> ok then Inr (False, recv, s)
       else
         let bulk = bulk_bits num_bits flip; len = (bulk + 7) mod 2 ^ 64 div 8 in
         if length recv < len then Inl OutOfBounds
         else
           bindR (mpsse_read_loop E (ext_polls E) len [] s) (\<lambda>(ok, got, s).
             let recv = write_at (write_at recv 0 (replicate len 0)) 0 got in
             if \<not> ok then Inr (False, recv, s)
             else bindR (mpsse_align_bits recv bulk) (\<lambda>recv. mpsse_recv_last E recv num_bits flip s)))"

section \<open>Clock\<close>

text \<open>
  The arithmetic is that of \<open>uint64_t\<close>, the result is converted to \<open>int\<close>. The second check
  is the division in the message about the actual frequency.
\<close>

definition tck_divisor :: "64 word \<Rightarrow> int result" where
  "tck_divisor freq =
     (if freq = 0 then Inl DivisionByZero
      else
        let divisor = sint (ucast ((60 div 2 + freq - 1) div freq - 1) :: 32 word) in
        if (1 + divisor) * 2 = 0 then Inl DivisionByZero else Inr divisor)"

definition mpsse_set_tck_freq :: "'w ext \<Rightarrow> 64 word \<Rightarrow> ('w, 'z) mpsse_state_scheme op" where
  "mpsse_set_tck_freq E freq s =
     check_then (Inr (mpsse_buffer_flush E s)) (\<lambda>s.
       bindR (tck_divisor freq) (\<lambda>divisor.
         Inr (ftdi_write_retry E [TCK_DIVISOR, of_int divisor, 0x00, DIS_DIV_5] s)))"

definition mpsse_jtag_clock_tck :: "'w ext \<Rightarrow> nat \<Rightarrow> ('w, 'z) mpsse_state_scheme op" where
  "mpsse_jtag_clock_tck E count s =
     check_then (Inr (mpsse_buffer_flush E s)) (\<lambda>s.
     check_then
       (let times_8 = count div 8 in
        if times_8 = 0 then Inr (True, s)
        else Inr (ftdi_write_retry E
               [0x8F, of_nat ((times_8 - 1) mod 256), of_nat ((times_8 - 1) div 256)] s)) (\<lambda>s.
       if count mod 8 = 0 then Inr (True, s)
       else Inr (ftdi_write_retry E [0x8E, of_nat (count mod 8 - 1)] s)))"

section \<open>Initialisation\<close>

definition mpsse_pins :: "AdapterTypes \<Rightarrow> 16 word \<times> 16 word" where
  "mpsse_pins t = (case t of
     Adapter_Xilinx \<Rightarrow> (0x0088, 0x008b)
   | Adapter_DigilentHS2 \<Rightarrow> (0x00e8, 0x60eb)
   | Adapter_DigilentHS3 \<Rightarrow> (0x0088, 0x008b))"

definition mpsse_setup_bytes :: "AdapterTypes \<Rightarrow> byte list" where
  "mpsse_setup_bytes t = (case mpsse_pins t of (initialOutput, direction) \<Rightarrow>
     [SET_BITS_LOW, ucast (initialOutput AND 0xff), ucast (direction AND 0xff),
      SET_BITS_HIGH, ucast (drop_bit 8 initialOutput), ucast (drop_bit 8 direction),
      SEND_IMMEDIATE])"

definition mpsse_init :: "'w ext \<Rightarrow> config \<Rightarrow> ('w, 'z) mpsse_state_scheme op" where
  "mpsse_init E cfg s =
     (case call_ftdi_control E Ftdi_new s of (h, s) \<Rightarrow>
      if h = 0 then Inl AssertionFailed else
      case call_ftdi_control E (Ftdi_set_interface (ftdi_channel cfg)) s of (ret, s) \<Rightarrow>
      if ret \<noteq> 0 then Inr (False, s) else
      case call_ftdi_control E (if use_bus_addr cfg
             then Ftdi_usb_open_bus_addr (usb_bus_addr cfg) (usb_dev_addr cfg)
             else Ftdi_usb_open (ftdi_vid cfg) (ftdi_pid cfg)) s of (ret, s) \<Rightarrow>
      if ret \<noteq> 0 then Inr (False, s) else
      bindR (control_assert E Ftdi_usb_reset s) (\<lambda>s.
      bindR (control_assert E (Ftdi_set_baudrate 115200) s) (\<lambda>s.
      bindR (control_assert E (Ftdi_set_latency_timer 255) s) (\<lambda>s.
      let s = snd (call_ftdi_control E (Ftdi_set_bitmode 0 0) s);
          s = snd (call_ftdi_control E (Ftdi_set_bitmode 0 BITMODE_MPSSE) s) in
      check_then (Inr (ftdi_write_retry E (mpsse_setup_bytes (adapter_type cfg)) s)) (\<lambda>s.
      mpsse_set_tck_freq E (freq_mhz cfg) (mpsse_buffer_init s))))))"

definition mpsse_deinit :: "'w ext \<Rightarrow> ('w, 'z) mpsse_state_scheme op" where
  "mpsse_deinit E s = Inr (True, snd (call_ftdi_control E (Ftdi_set_bitmode 0 0) s))"

definition mpsse_driver :: "'w ext \<Rightarrow> ('w, 'z) mpsse_state_scheme driver" where
  "mpsse_driver E = \<lparr>
     drv_init = mpsse_init E,
     drv_deinit = mpsse_deinit E,
     drv_set_tck_freq = mpsse_set_tck_freq E,
     drv_tms_seq = mpsse_jtag_tms_seq E,
     drv_scan_send = mpsse_jtag_scan_chain_send E,
     drv_scan_recv = mpsse_jtag_scan_chain_recv E,
     drv_clock_tck = mpsse_jtag_clock_tck E\<rparr>"

section \<open>What the operations append\<close>

text \<open>
  \<open>sends\<close>: an operation whose data is in bounds ends without a fault, keeps the buffer
  invariant and the host side in every case, succeeds when USB writes do, and when it
  succeeds has added exactly the given bytes to the stream.
\<close>

definition sends :: "'w ext \<Rightarrow> ('w, 'z) mpsse_state_scheme op \<Rightarrow> ('w, 'z) mpsse_state_scheme
    \<Rightarrow> byte list \<Rightarrow> bool" where
  "sends E f s bs \<longleftrightarrow> (\<exists>ok t. f s = Inr (ok, t) \<and> quiet s t \<and> state t = state s \<and>
     (usb_writes_accepted E \<longrightarrow> ok) \<and> (ok \<longrightarrow> emits s bs t))"

lemma sends_Nil: "mpsse_safe s \<Longrightarrow> sends E (\<lambda>s. Inr (True, s)) s []"
  by (auto simp: sends_def quiet_refl emits_refl)

lemma sends_then:
  assumes "sends E f s xs" and "\<And>t. emits s xs t \<Longrightarrow> sends E g t ys"
  shows "sends E (\<lambda>s. check_then (f s) g) s (xs @ ys)"
proof -
  from assms(1) obtain ok t where f: "f s = Inr (ok, t)" "quiet s t" "state t = state s"
      "usb_writes_accepted E \<longrightarrow> ok" "ok \<longrightarrow> emits s xs t"
    by (auto simp: sends_def)
  show ?thesis
  proof (cases ok)
    case False
    with f show ?thesis by (auto simp: sends_def)
  next
    case True
    with f have e: "emits s xs t" by simp
    from assms(2) [OF this] obtain ok' u where "g t = Inr (ok', u)" "quiet t u" "state u = state t"
        "usb_writes_accepted E \<longrightarrow> ok'" "ok' \<longrightarrow> emits t ys u"
      by (auto simp: sends_def)
    with f True e show ?thesis by (auto simp: sends_def intro: quiet_trans emits_trans)
  qed
qed

text \<open>A command packet: space is made for the whole of it before its bytes are appended.\<close>

lemma sends_packet:
  assumes "mpsse_safe s" "length bs \<le> n" "n < BUFFER_LENGTH"
  shows "sends E (\<lambda>s. check_then (Inr (mpsse_buffer_ensure_space E n s))
           (\<lambda>s. bindR (append_all bs s) (\<lambda>s. Inr (True, s)))) s bs"
proof -
  obtain ok t where e: "mpsse_buffer_ensure_space E n s = (ok, t)" by fastforce
  note spec = ensure_space_spec [OF assms(1) e]
  show ?thesis
  proof (cases ok)
    case False
    with spec e assms(3) show ?thesis by (auto simp: sends_def)
  next
    case True
    with spec have t: "emits s [] t" "mpsse_buffer_pos t + n \<le> BUFFER_LENGTH" by auto
    then obtain u where "append_all bs t = Inr u" "emits t bs u"
      using append_all_spec [of t bs] assms(2) by (auto simp: emits_def quiet_safe)
    with e True t emits_trans [OF t(1), of bs u] show ?thesis
      by (auto simp: sends_def emits_def)
  qed
qed

lemma emits_safe: "emits s bs t \<Longrightarrow> mpsse_safe t"
  by (auto simp: emits_def dest: quiet_safe)

definition tms_packet :: "byte list \<Rightarrow> nat \<Rightarrow> nat \<Rightarrow> byte list" where
  "tms_packet data num_bits i = [tms_opcode, of_nat (min 8 (num_bits - i * 8) - 1), data ! i]"

lemma tms_loop_sends:
  "mpsse_safe s \<Longrightarrow> i + k \<le> length data \<Longrightarrow>
     sends E (mpsse_tms_loop E data n i k) s (concat (map (tms_packet data n) [i..<i + k]))"
proof (induction k arbitrary: i s)
  case 0
  then show ?case using sends_Nil [of s E] by simp
next
  case (Suc k)
  have i: "i < length data" using Suc.prems by simp
  have unfold: "mpsse_tms_loop E data n i (Suc k) = (\<lambda>s. check_then
      (check_then (Inr (mpsse_buffer_ensure_space E 3 s))
        (\<lambda>s. bindR (append_all (tms_packet data n i) s) (\<lambda>s. Inr (True, s))))
      (mpsse_tms_loop E data n (Suc i) k))"
  proof (rule ext)
    fix s
    obtain ok t where e: "mpsse_buffer_ensure_space E 3 s = (ok, t)" by fastforce
    show "mpsse_tms_loop E data n i (Suc k) s = check_then
      (check_then (Inr (mpsse_buffer_ensure_space E 3 s))
        (\<lambda>s. bindR (append_all (tms_packet data n i) s) (\<lambda>s. Inr (True, s))))
      (mpsse_tms_loop E data n (Suc i) k)"
      using i e by (cases ok; cases "append_all (tms_packet data n i) t")
        (simp_all add: tms_packet_def del: append_all.simps)
  qed
  have "sends E (mpsse_tms_loop E data n i (Suc k)) s
     (tms_packet data n i @ concat (map (tms_packet data n) [Suc i..<Suc i + k]))"
    unfolding unfold
  proof (rule sends_then)
    show "sends E (\<lambda>s. check_then (Inr (mpsse_buffer_ensure_space E 3 s))
        (\<lambda>s. bindR (append_all (tms_packet data n i) s) (\<lambda>s. Inr (True, s)))) s (tms_packet data n i)"
      by (rule sends_packet) (simp_all add: Suc.prems(1) tms_packet_def BUFFER_LENGTH_def)
    show "sends E (mpsse_tms_loop E data n (Suc i) k) t
        (concat (map (tms_packet data n) [Suc i..<Suc i + k]))"
      if "emits s (tms_packet data n i) t" for t
      using Suc.IH [of t "Suc i"] Suc.prems(2) emits_safe [OF that] by simp
  qed
  then show ?case by (simp add: upt_conv_Cons del: mpsse_tms_loop.simps upt_Suc)
qed

lemma mpsse_tms_seq_sends:
  assumes "mpsse_safe s" "n \<le> 8 * length data"
  shows "sends E (mpsse_jtag_tms_seq E data n) s (concat (map (tms_packet data n) [0..<(n + 7) div 8]))"
proof -
  have "0 + (n + 7) div 8 \<le> length data" using assms(2) by simp
  from tms_loop_sends [OF assms(1) this, of E n] show ?thesis
    by (simp add: mpsse_jtag_tms_seq_def sends_def)
qed

lemma sends_payload:
  assumes "mpsse_safe s" "length hdr + m \<le> n" "n < BUFFER_LENGTH" "m \<le> length data"
  shows "sends E (\<lambda>s. check_then (Inr (mpsse_buffer_ensure_space E n s))
           (\<lambda>s. bindR (append_all hdr s) (\<lambda>s. bindR (mpsse_buffer_append data m s) (\<lambda>s. Inr (True, s)))))
           s (hdr @ take m data)"
proof -
  obtain ok t where e: "mpsse_buffer_ensure_space E n s = (ok, t)" by fastforce
  note spec = ensure_space_spec [OF assms(1) e]
  show ?thesis
  proof (cases ok)
    case False
    with spec e assms(3) show ?thesis by (auto simp: sends_def)
  next
    case True
    with spec have t: "emits s [] t" "mpsse_buffer_pos t + n \<le> BUFFER_LENGTH" by auto
    then obtain u where u: "append_all hdr t = Inr u" "emits t hdr u"
        "mpsse_buffer_pos u = mpsse_buffer_pos t + length hdr"
      using append_all_spec [of t hdr] assms(2) by (auto dest: emits_safe)
    then obtain v where v: "mpsse_buffer_append data m u = Inr v" "emits u (take m data) v"
      using append_spec [of u m data] assms(2,4) t by (auto dest: emits_safe)
    from emits_trans [OF t(1) emits_trans [OF u(2) v(2)]] have "emits s (hdr @ take m data) v" by simp
    with e True u v show ?thesis by (auto simp: sends_def emits_def)
  qed
qed

definition read_flag :: "bool \<Rightarrow> byte" where
  "read_flag rd = (if rd then MPSSE_DO_READ else 0)"

definition bytes_packet :: "byte list \<Rightarrow> nat \<Rightarrow> bool \<Rightarrow> byte list" where
  "bytes_packet data len rd = (if len = 0 then [] else
     [read_flag rd OR MPSSE_DO_WRITE OR MPSSE_LSB OR MPSSE_WRITE_NEG,
      of_nat ((len - 1) mod 256), of_nat ((len - 1) div 256)] @ take len data)"

definition bits_packet :: "byte list \<Rightarrow> nat \<Rightarrow> bool \<Rightarrow> byte list" where
  "bits_packet data bulk rd = (if bulk mod 8 = 0 then [] else
     [read_flag rd OR MPSSE_DO_WRITE OR MPSSE_LSB OR MPSSE_WRITE_NEG OR MPSSE_BITMODE,
      of_nat (bulk mod 8 - 1), data ! (bulk div 8)])"

definition last_packet :: "byte list \<Rightarrow> nat \<Rightarrow> bool \<Rightarrow> bool \<Rightarrow> byte list" where
  "last_packet data n flip rd = (if \<not> flip then [] else
     [read_flag rd OR MPSSE_WRITE_TMS OR MPSSE_LSB OR MPSSE_BITMODE OR MPSSE_WRITE_NEG,
      0x00, 0x01 OR push_bit 7 (of_bool (bit_at data (n - 1)))])"

lemma send_bytes_sends:
  assumes "mpsse_safe s" "len \<le> length data" "3 + len < BUFFER_LENGTH"
  shows "sends E (mpsse_send_bytes E data len (read_flag rd)) s (bytes_packet data len rd)"
proof (cases "len = 0")
  case True
  then show ?thesis using sends_Nil [OF assms(1), of E]
    by (simp add: mpsse_send_bytes_def bytes_packet_def sends_def)
next
  case False
  with sends_payload [OF assms(1), of "take 3 (bytes_packet data len rd)" len "3 + len" data E] assms
  show ?thesis
    by (simp add: mpsse_send_bytes_def bytes_packet_def sends_def del: append_all.simps)
qed

lemma send_bits_sends:
  assumes "mpsse_safe s" "bulk \<le> 8 * length data"
  shows "sends E (mpsse_send_bits E data bulk (read_flag rd)) s (bits_packet data bulk rd)"
proof (cases "bulk mod 8 = 0")
  case True
  then show ?thesis using sends_Nil [OF assms(1), of E]
    by (simp add: mpsse_send_bits_def bits_packet_def sends_def)
next
  case False
  with assms(2) have "bulk div 8 < length data" by presburger
  with False sends_packet [OF assms(1), of "bits_packet data bulk rd" 3 E]
  show ?thesis
    by (simp add: mpsse_send_bits_def bits_packet_def sends_def BUFFER_LENGTH_def del: append_all.simps)
qed

lemma send_last_spec:
  assumes "mpsse_safe s" "0 < n" "n \<le> 8 * length data"
  shows "\<exists>ok t. mpsse_send_last E data n flip (read_flag rd) s = Inr (ok, t) \<and> quiet s t \<and>
     (usb_writes_accepted E \<longrightarrow> ok) \<and>
     state t = (if flip then next_state (state s) True else state s) \<and>
     (ok \<longrightarrow> stream t = stream s @ last_packet data n flip rd)"
proof (cases flip)
  case False
  with assms show ?thesis by (auto simp: mpsse_send_last_def last_packet_def quiet_refl)
next
  case True
  let ?s = "s\<lparr>state := next_state (state s) True\<rparr>"
  have safe: "mpsse_safe ?s" and st: "stream ?s = stream s"
    using assms(1) by (simp_all add: mpsse_safe_def stream_def pending_def)
  have sq: "quiet ?s t \<Longrightarrow> quiet s t" for t by (simp add: quiet_def same_host_def)
  have b: "read_bit data (n - 1) = Inr (bit_at data (n - 1))" using assms by simp
  from sends_packet [OF safe, of "last_packet data n flip rd" 3 E] True
  have "sends E (\<lambda>s. check_then (Inr (mpsse_buffer_ensure_space E 3 s))
           (\<lambda>s. bindR (append_all (last_packet data n flip rd) s) (\<lambda>s. Inr (True, s)))) ?s
           (last_packet data n flip rd)"
    by (simp add: last_packet_def BUFFER_LENGTH_def del: append_all.simps)
  then obtain ok t where "check_then (Inr (mpsse_buffer_ensure_space E 3 ?s))
           (\<lambda>s. bindR (append_all (last_packet data n flip rd) s) (\<lambda>s. Inr (True, s))) = Inr (ok, t)"
      "quiet ?s t" "state t = state ?s" "usb_writes_accepted E \<longrightarrow> ok"
      "ok \<longrightarrow> emits ?s (last_packet data n flip rd) t"
    unfolding sends_def by blast
  then show ?thesis using True b assms(2) st sq
    by (simp add: mpsse_send_last_def last_packet_def emits_def del: append_all.simps)
qed

definition scan_bytes :: "byte list \<Rightarrow> nat \<Rightarrow> bool \<Rightarrow> bool \<Rightarrow> byte list" where
  "scan_bytes data n flip rd = bytes_packet data (bulk_bits n flip div 8) rd @
     bits_packet data (bulk_bits n flip) rd @ last_packet data n flip rd"

lemma mpsse_scan_send_spec:
  assumes "mpsse_safe s" "0 < n" "n \<le> 8 * length data" "n \<le> SCAN_LIMIT"
  shows "\<exists>ok t. mpsse_jtag_scan_chain_send E data n flip rd s = Inr (ok, t) \<and> quiet s t \<and>
     (usb_writes_accepted E \<longrightarrow> ok) \<and>
     (ok \<longrightarrow> state t = (if flip then next_state (state s) True else state s) \<and>
            stream t = stream s @ scan_bytes data n flip rd)"
proof -
  let ?b = "bulk_bits n flip" and ?f = "read_flag rd"
  have bulk: "?b \<le> n" using assms(2) by (rule bulk_bits_le)
  have len: "?b div 8 \<le> length data" "3 + ?b div 8 < BUFFER_LENGTH" "?b \<le> 8 * length data"
    using bulk assms(3,4) by (simp_all add: SCAN_LIMIT_def BUFFER_LENGTH_def)
  have "sends E (\<lambda>s. check_then (mpsse_send_bytes E data (?b div 8) ?f s) (mpsse_send_bits E data ?b ?f))
      s (bytes_packet data (?b div 8) rd @ bits_packet data ?b rd)"
    by (rule sends_then [OF send_bytes_sends [OF assms(1) len(1,2)] send_bits_sends])
      (use len(3) in \<open>auto dest: emits_safe\<close>)
  then obtain ok t where t:
    "check_then (mpsse_send_bytes E data (?b div 8) ?f s) (mpsse_send_bits E data ?b ?f) = Inr (ok, t)"
    "quiet s t" "state t = state s" "usb_writes_accepted E \<longrightarrow> ok"
    "ok \<longrightarrow> emits s (bytes_packet data (?b div 8) rd @ bits_packet data ?b rd) t"
    unfolding sends_def by blast
  have unfold: "mpsse_jtag_scan_chain_send E data n flip rd s =
    check_then (check_then (mpsse_send_bytes E data (?b div 8) ?f s) (mpsse_send_bits E data ?b ?f))
      (mpsse_send_last E data n flip ?f)"
    by (cases "mpsse_send_bytes E data (?b div 8) ?f s")
      (auto simp: mpsse_jtag_scan_chain_send_def read_flag_def check_then_def Let_def)
  show ?thesis
  proof (cases ok)
    case False
    with t unfold show ?thesis by auto
  next
    case True
    with t have e: "stream t = stream s @ bytes_packet data (?b div 8) rd @ bits_packet data ?b rd"
      by (simp add: emits_def)
    from send_last_spec [OF quiet_safe [OF t(2)] assms(2,3), of E flip rd] obtain ok' u where
      "mpsse_send_last E data n flip ?f t = Inr (ok', u)" "quiet t u" "usb_writes_accepted E \<longrightarrow> ok'"
      "state u = (if flip then next_state (state t) True else state t)"
      "ok' \<longrightarrow> stream u = stream t @ last_packet data n flip rd" by blast
    with t(1,2,3) True e unfold show ?thesis
      by (auto simp: scan_bytes_def intro: quiet_trans)
  qed
qed

section \<open>What the receive path does\<close>

lemma mpsse_read_loop_frame:
  "length got \<le> len \<Longrightarrow>
     mpsse_read_loop E polls len got s = Inl Diverges \<or>
     (\<exists>ok got' w. mpsse_read_loop E polls len got s = Inr (ok, got', s\<lparr>world := w\<rparr>) \<and>
        length got' \<le> len \<and> (ok \<longrightarrow> length got' = len))"
proof (induction polls arbitrary: got s)
  case 0
  then show ?case by (auto intro: exI [of _ "world s"])
next
  case (Suc polls)
  show ?case
  proof (cases "length got < len")
    case False
    with Suc.prems show ?thesis by (auto intro: exI [of _ "world s"])
  next
    case True
    obtain r s1 where c: "call_ftdi_read E (len - length got) s = (r, s1)" by fastforce
    from call_ftdi_read_frame [OF c] obtain w where s1: "s1 = s\<lparr>world := w\<rparr>"
      and l: "\<And>bs. r = Some bs \<Longrightarrow> length bs \<le> len - length got" by auto
    show ?thesis
    proof (cases r)
      case None
      with Suc.prems c True s1 show ?thesis by auto
    next
      case (Some b)
      with Suc.IH [of "got @ b" s1] l [OF Some] c True s1 show ?thesis by auto
    qed
  qed
qed

lemma mpsse_read_loop_answered:
  assumes "usb_reads_answered E" "length got \<le> len" "len - length got \<le> polls"
  shows "\<exists>got' w. mpsse_read_loop E polls len got s = Inr (True, got', s\<lparr>world := w\<rparr>) \<and> length got' = len"
  using assms(2,3)
proof (induction polls arbitrary: got s)
  case 0
  then have "mpsse_read_loop E 0 len got s = Inr (True, got, s\<lparr>world := world s\<rparr>) \<and> length got = len" by simp
  then show ?case by blast
next
  case (Suc polls)
  show ?case
  proof (cases "length got < len")
    case False
    with Suc.prems have
      "mpsse_read_loop E (Suc polls) len got s = Inr (True, got, s\<lparr>world := world s\<rparr>) \<and> length got = len"
      by simp
    then show ?thesis by blast
  next
    case True
    with call_ftdi_read_answered [OF assms(1), of "len - length got" s] obtain bs w where
      bs: "call_ftdi_read E (len - length got) s = (Some bs, s\<lparr>world := w\<rparr>)"
        "bs \<noteq> []" "length bs \<le> len - length got" by auto
    from bs(2) obtain m where "length bs = Suc m" by (cases bs) auto
    then have "length (got @ bs) \<le> len" "len - length (got @ bs) \<le> polls"
      using bs(3) Suc.prems True by simp_all
    from Suc.IH [OF this, of "s\<lparr>world := w\<rparr>"] bs(1) True show ?thesis by simp
  qed
qed

lemma mpsse_last_loop_frame:
  "mpsse_last_loop E polls s = Inl Diverges \<or> (\<exists>b w. mpsse_last_loop E polls s = Inr (b, s\<lparr>world := w\<rparr>))"
proof (induction polls arbitrary: s)
  case 0
  then show ?case by simp
next
  case (Suc polls)
  obtain r s1 where c: "call_ftdi_read E 1 s = (r, s1)" by fastforce
  from call_ftdi_read_frame [OF c] obtain w where s1: "s1 = s\<lparr>world := w\<rparr>" by blast
  show ?case using Suc.IH [of s1] c s1 by (auto split: option.splits list.splits)
qed

lemma mpsse_last_loop_answered:
  assumes "usb_reads_answered E" "0 < polls"
  shows "\<exists>b w. mpsse_last_loop E polls s = Inr (b, s\<lparr>world := w\<rparr>)"
proof -
  from assms(2) obtain p where p: "polls = Suc p" by (cases polls) auto
  from call_ftdi_read_answered [OF assms(1), of 1 s] obtain bs w where
    bs: "call_ftdi_read E 1 s = (Some bs, s\<lparr>world := w\<rparr>)" "bs \<noteq> []" "length bs \<le> 1" by auto
  then obtain b where "bs = [b]" by (cases bs) auto
  with bs(1) p have "mpsse_last_loop E polls s = Inr (b, s\<lparr>world := w\<rparr>)" by simp
  then show ?thesis by blast
qed

lemma mpsse_recv_flush_spec:
  assumes "mpsse_safe s"
  shows "\<exists>ok t. mpsse_recv_flush E s = Inr (ok, t) \<and> quiet s t \<and> state t = state s \<and>
     (usb_writes_accepted E \<longrightarrow> ok) \<and>
     (ok \<longrightarrow> mpsse_buffer_pos t = 0 \<and> (stream t = stream s \<or> stream t = stream s @ [SEND_IMMEDIATE]))"
proof (cases "mpsse_buffer_is_empty s")
  case True
  with assms show ?thesis by (auto simp: mpsse_recv_flush_def quiet_refl mpsse_buffer_is_empty_def)
next
  case False
  obtain ok t where e: "mpsse_buffer_ensure_space E 1 s = (ok, t)" by fastforce
  note sp = ensure_space_spec [OF assms e]
  show ?thesis
  proof (cases ok)
    case False
    with e sp \<open>\<not> mpsse_buffer_is_empty s\<close> show ?thesis
      by (auto simp: mpsse_recv_flush_def BUFFER_LENGTH_def)
  next
    case True
    with sp have t: "emits s [] t" "mpsse_buffer_pos t < BUFFER_LENGTH" by auto
    obtain u where u: "mpsse_buffer_append_byte SEND_IMMEDIATE t = Inr u" "emits t [SEND_IMMEDIATE] u"
      using append_byte_spec [OF emits_safe [OF t(1)] t(2)] by blast
    have su: "emits s [SEND_IMMEDIATE] u" using emits_trans [OF t(1) u(2)] by simp
    obtain ok' v where v: "mpsse_buffer_flush E u = (ok', v)" by fastforce
    note fl = flush_spec [OF emits_safe [OF u(2)] v]
    have "mpsse_recv_flush E s = Inr (ok', v)"
      using e True u v \<open>\<not> mpsse_buffer_is_empty s\<close> by (simp add: mpsse_recv_flush_def)
    with fl su show ?thesis by (auto simp: emits_def intro: quiet_trans)
  qed
qed

lemma world_quiet [simp]:
  "quiet s (t\<lparr>world := w\<rparr>) = quiet s t" "stream (t\<lparr>world := w\<rparr>) = stream t"
  by (simp_all add: quiet_def mpsse_safe_def same_host_def stream_def pending_def)

lemma mpsse_align_bits_ok:
  "bulk \<le> 8 * length recv \<Longrightarrow> \<exists>recv'. mpsse_align_bits recv bulk = Inr recv' \<and> length recv' = length recv"
proof -
  assume "bulk \<le> 8 * length recv"
  then have "bulk mod 8 \<noteq> 0 \<Longrightarrow> bulk div 8 < length recv" by presburger
  then show ?thesis by (simp add: mpsse_align_bits_def)
qed

text \<open>
  The receive function on a buffer that is large enough: it is unfolded once here, for a
  given outcome of the flush and of the read loop.
\<close>

lemma mpsse_recv_unfold:
  assumes "0 < n" "n \<le> 2 ^ 63" "n \<le> 8 * length buf" "mpsse_recv_flush E s = Inr (True, t)"
    and "len = (bulk_bits n flip + 7) div 8"
  shows "mpsse_jtag_scan_chain_recv E buf n flip s =
     bindR (mpsse_read_loop E (ext_polls E) len [] t) (\<lambda>(ok, got, u).
       let buf = write_at (write_at buf 0 (replicate len 0)) 0 got in
       if \<not> ok then Inr (False, buf, u)
       else bindR (mpsse_align_bits buf (bulk_bits n flip)) (\<lambda>buf. mpsse_recv_last E buf n flip u))"
proof -
  have "\<not> length buf < len" using assms bulk_bits_le [of n flip] by simp
  then show ?thesis
    unfolding mpsse_jtag_scan_chain_recv_def Let_def bulk_len [OF assms(1,2)] assms(4,5)
    by simp
qed

lemma mpsse_recv_spec:
  assumes "mpsse_safe s" "0 < n" "n \<le> 8 * length buf" "n \<le> SCAN_LIMIT"
    and "usb_writes_accepted E" "usb_reads_answered E" "4096 \<le> ext_polls E"
  shows "\<exists>buf' t. mpsse_jtag_scan_chain_recv E buf n flip s = Inr (True, buf', t) \<and> quiet s t \<and>
     state t = state s \<and> length buf' = length buf \<and>
     (stream t = stream s \<or> stream t = stream s @ [SEND_IMMEDIATE])"
proof -
  from mpsse_recv_flush_spec [OF assms(1), of E] assms(5) obtain t where
    t: "mpsse_recv_flush E s = Inr (True, t)" "quiet s t" "state t = state s"
      "stream t = stream s \<or> stream t = stream s @ [SEND_IMMEDIATE]" by auto
  define len where "len = (bulk_bits n flip + 7) div 8"
  have n: "n \<le> 2 ^ 63" using assms(4) by (simp add: SCAN_LIMIT_def)
  have bulk: "bulk_bits n flip \<le> n" using assms(2) by (rule bulk_bits_le)
  then have len: "len \<le> length buf" "len \<le> 4096"
    using assms(3,4) by (simp_all add: len_def SCAN_LIMIT_def)
  then obtain got w where got: "mpsse_read_loop E (ext_polls E) len [] t = Inr (True, got, t\<lparr>world := w\<rparr>)"
      "length got = len"
    using mpsse_read_loop_answered [OF assms(6), of "[]" len "ext_polls E" t] assms(7) by auto
  let ?buf = "write_at (write_at buf 0 (replicate len 0)) 0 got"
  have lb: "length ?buf = length buf" using len got(2) by simp
  then obtain buf1 where b1: "mpsse_align_bits ?buf (bulk_bits n flip) = Inr buf1" "length buf1 = length buf"
    using mpsse_align_bits_ok [of "bulk_bits n flip" ?buf] bulk assms(3) by auto
  obtain b w' where lst: "mpsse_last_loop E (ext_polls E) (t\<lparr>world := w\<rparr>) = Inr (b, t\<lparr>world := w'\<rparr>)"
    using mpsse_last_loop_answered [OF assms(6), of "ext_polls E" "t\<lparr>world := w\<rparr>"] assms(7) by auto
  have "(n - 1) div 8 < length buf1" using b1(2) assms(2,3) by (simp add: div_less_bits)
  then have last: "\<exists>buf2 u. mpsse_recv_last E buf1 n flip (t\<lparr>world := w\<rparr>) = Inr (True, buf2, u) \<and>
      length buf2 = length buf1 \<and> (\<exists>w. u = t\<lparr>world := w\<rparr>)"
    using lst assms(2) by (auto simp: mpsse_recv_last_def)
  with mpsse_recv_unfold [OF assms(2) n assms(3) t(1) len_def] got b1 t(2,3,4) show ?thesis
    by (auto simp: Let_def)
qed

end
