(* ===== verification/Mpsse_Wire.thy ===== *)
theory Mpsse_Wire
  imports Mpsse
begin

text \<open>
  The specification side of the MPSSE driver: how the chip reads a byte stream as commands
  (\<open>decode\<close>), which TCK cycles a command produces (\<open>cmd_cycles\<close>), and which bytes it returns
  for the sampled TDO bits (\<open>answers\<close>), for the commands the driver uses. Against it the
  driver's contract is proved: the bytes \<open>mpsse_jtag_tms_seq\<close>, \<open>mpsse_jtag_scan_chain_send\<close> and
  \<open>mpsse_jtag_clock_tck\<close> hand over are exactly the cycles asked for, and
  \<open>mpsse_jtag_scan_chain_recv\<close> rebuilds the sampled bits from the answer.
\<close>

section \<open>The command language\<close>

datatype mpsse_cmd =
    ClockTms nat byte bool       \<comment> \<open>number of bits, data (bit 7 is TDI), sample TDO\<close>
  | ShiftBytes "byte list" bool
  | ShiftBits nat byte bool
  | ClockBytes nat
  | ClockBits nat
  | SetPinsLow byte byte
  | SetPinsHigh byte byte
  | Divisor byte byte
  | DisableDiv5
  | SendNow

definition word16 :: "byte \<Rightarrow> byte \<Rightarrow> nat" where
  "word16 lo hi = unat lo + 256 * unat hi"

fun arg1 :: "byte list \<Rightarrow> (byte \<Rightarrow> mpsse_cmd) \<Rightarrow> (mpsse_cmd \<times> byte list) option" where
  "arg1 (a # bs) f = Some (f a, bs)"
| "arg1 _ f = None"

fun arg2 :: "byte list \<Rightarrow> (byte \<Rightarrow> byte \<Rightarrow> mpsse_cmd) \<Rightarrow> (mpsse_cmd \<times> byte list) option" where
  "arg2 (a # b # bs) f = Some (f a b, bs)"
| "arg2 _ f = None"

fun arg_data :: "byte list \<Rightarrow> bool \<Rightarrow> (mpsse_cmd \<times> byte list) option" where
  "arg_data (lo # hi # bs) rd =
     (let n = word16 lo hi + 1 in
      if n \<le> length bs then Some (ShiftBytes (take n bs) rd, drop n bs) else None)"
| "arg_data _ rd = None"

fun parse_cmd :: "byte list \<Rightarrow> (mpsse_cmd \<times> byte list) option" where
  "parse_cmd [] = None"
| "parse_cmd (c # bs) =
     (if c = 0x4B then arg2 bs (\<lambda>n d. ClockTms (unat n + 1) d False)
      else if c = 0x6B then arg2 bs (\<lambda>n d. ClockTms (unat n + 1) d True)
      else if c = 0x1B then arg2 bs (\<lambda>n d. ShiftBits (unat n + 1) d False)
      else if c = 0x3B then arg2 bs (\<lambda>n d. ShiftBits (unat n + 1) d True)
      else if c = 0x19 then arg_data bs False
      else if c = 0x39 then arg_data bs True
      else if c = 0x8F then arg2 bs (\<lambda>lo hi. ClockBytes (word16 lo hi + 1))
      else if c = 0x8E then arg1 bs (\<lambda>n. ClockBits (unat n + 1))
      else if c = 0x80 then arg2 bs SetPinsLow
      else if c = 0x82 then arg2 bs SetPinsHigh
      else if c = 0x86 then arg2 bs Divisor
      else if c = 0x8A then Some (DisableDiv5, bs)
      else if c = 0x87 then Some (SendNow, bs)
      else None)"

lemma arg1_length: "arg1 bs f = Some (c, r) \<Longrightarrow> length r < length bs"
  by (cases bs) auto

lemma arg2_length: "arg2 bs f = Some (c, r) \<Longrightarrow> length r < length bs"
  by (cases "(bs, f)" rule: arg2.cases) auto

lemma arg_data_length: "arg_data bs rd = Some (c, r) \<Longrightarrow> length r < length bs"
  by (cases "(bs, rd)" rule: arg_data.cases) (auto simp: Let_def split: if_splits)

lemma parse_cmd_length: "parse_cmd bs = Some (c, r) \<Longrightarrow> length r < length bs"
  by (cases bs) (auto split: if_splits dest!: arg1_length arg2_length arg_data_length)

function decode :: "byte list \<Rightarrow> mpsse_cmd list option" where
  "decode bs =
     (if bs = [] then Some []
      else case parse_cmd bs of None \<Rightarrow> None
           | Some (c, r) \<Rightarrow> map_option (Cons c) (decode r))"
  by pat_completeness auto
termination
  by (relation "measure length") (auto dest: parse_cmd_length)

declare decode.simps [simp del]

lemma decode_Nil [simp]: "decode [] = Some []"
  by (simp add: decode.simps)

lemma decode_step:
  "parse_cmd bs = Some (c, r) \<Longrightarrow> decode bs = map_option (Cons c) (decode r)"
  by (cases "bs = []") (simp_all add: decode.simps [of bs] del: parse_cmd.simps(2))

lemma arg1_append: "arg1 bs f = Some (c, r) \<Longrightarrow> arg1 (bs @ ys) f = Some (c, r @ ys)"
  by (cases bs) auto

lemma arg2_append: "arg2 bs f = Some (c, r) \<Longrightarrow> arg2 (bs @ ys) f = Some (c, r @ ys)"
  by (cases "(bs, f)" rule: arg2.cases) auto

lemma arg_data_append: "arg_data bs rd = Some (c, r) \<Longrightarrow> arg_data (bs @ ys) rd = Some (c, r @ ys)"
  by (cases "(bs, rd)" rule: arg_data.cases) (auto simp: Let_def split: if_splits)

lemma parse_cmd_append: "parse_cmd bs = Some (c, r) \<Longrightarrow> parse_cmd (bs @ ys) = Some (c, r @ ys)"
  by (cases bs) (auto split: if_splits intro: arg1_append arg2_append arg_data_append)

text \<open>A stream of complete commands can be read up to its end before the rest is looked at.\<close>

lemma decode_append:
  "decode xs = Some cs \<Longrightarrow> decode (xs @ ys) = map_option ((@) cs) (decode ys)"
proof (induction xs arbitrary: cs rule: decode.induct)
  case (1 xs)
  show ?case
  proof (cases "xs = []")
    case True
    with "1.prems" show ?thesis by (simp add: option.map_ident)
  next
    case False
    with "1.prems" obtain c r cs' where p: "parse_cmd xs = Some (c, r)" "decode r = Some cs'" "cs = c # cs'"
      by (auto simp: decode.simps [of xs] split: option.splits)
    from "1.IH" [OF False p(1) refl p(2)] decode_step [OF parse_cmd_append [OF p(1), of ys]] p(3)
    show ?thesis by (simp add: option.map_comp comp_def)
  qed
qed

lemma decode_append_Some:
  "decode xs = Some cs \<Longrightarrow> decode ys = Some ds \<Longrightarrow> decode (xs @ ys) = Some (cs @ ds)"
  by (simp add: decode_append)

lemma decode_concat:
  assumes "\<And>x. x \<in> set xs \<Longrightarrow> decode (f x) = Some [g x]"
  shows "decode (concat (map f xs)) = Some (map g xs)"
  using assms by (induction xs) (auto simp: decode_append)

section \<open>Cycles of a command\<close>

text \<open>\<open>lvl\<close> is the TMS pin between commands: the data commands hold it.\<close>

fun cmd_level :: "bool \<Rightarrow> mpsse_cmd \<Rightarrow> bool" where
  "cmd_level lvl (ClockTms n d _) = bit d (n - 1)"
| "cmd_level lvl (SetPinsLow v _) = bit v 3"
| "cmd_level lvl _ = lvl"

fun cmd_cycles :: "bool \<Rightarrow> mpsse_cmd \<Rightarrow> cycle list" where
  "cmd_cycles lvl (ClockTms n d rd) = map (\<lambda>i. Cycle (bit d i) (Some (bit d 7)) rd) [0..<n]"
| "cmd_cycles lvl (ShiftBytes ds rd) = map (\<lambda>i. Cycle lvl (Some (bit_at ds i)) rd) [0..<8 * length ds]"
| "cmd_cycles lvl (ShiftBits n d rd) = map (\<lambda>i. Cycle lvl (Some (bit d i)) rd) [0..<n]"
| "cmd_cycles lvl (ClockBytes n) = replicate (8 * n) (Cycle lvl None False)"
| "cmd_cycles lvl (ClockBits n) = replicate n (Cycle lvl None False)"
| "cmd_cycles lvl _ = []"

fun run_cmds :: "bool \<Rightarrow> mpsse_cmd list \<Rightarrow> cycle list" where
  "run_cmds lvl [] = []"
| "run_cmds lvl (c # cs) = cmd_cycles lvl c @ run_cmds (cmd_level lvl c) cs"

definition level_after :: "bool \<Rightarrow> mpsse_cmd list \<Rightarrow> bool" where
  "level_after lvl cs = foldl cmd_level lvl cs"

lemma run_cmds_append: "run_cmds lvl (xs @ ys) = run_cmds lvl xs @ run_cmds (level_after lvl xs) ys"
  by (induction xs arbitrary: lvl) (auto simp: level_after_def)

lemma level_after_append [simp]: "level_after lvl (xs @ ys) = level_after (level_after lvl xs) ys"
  by (simp add: level_after_def)

lemma level_after_simps [simp]:
  "level_after lvl [] = lvl" "level_after lvl (c # cs) = level_after (cmd_level lvl c) cs"
  by (simp_all add: level_after_def)

text \<open>
  The commands the driver sends once it is initialised: the pin level afterwards is the
  TMS value of the last cycle, or unchanged where there was none.
\<close>

fun clocking :: "mpsse_cmd \<Rightarrow> bool" where
  "clocking (SetPinsLow _ _) = False"
| "clocking (ClockTms n _ _) = (0 < n)"
| "clocking _ = True"

lemma cmd_level_last:
  "clocking c \<Longrightarrow> cmd_level lvl c = (if cmd_cycles lvl c = [] then lvl else cyc_tms (last (cmd_cycles lvl c)))"
  by (cases c) (auto simp: last_map)

lemma level_after_last:
  "\<forall>c \<in> set cs. clocking c \<Longrightarrow>
     level_after lvl cs = (if run_cmds lvl cs = [] then lvl else cyc_tms (last (run_cmds lvl cs)))"
proof (induction cs arbitrary: lvl)
  case Nil
  then show ?case by simp
next
  case (Cons c cs)
  then have "level_after (cmd_level lvl c) cs =
      (if run_cmds (cmd_level lvl c) cs = [] then cmd_level lvl c
       else cyc_tms (last (run_cmds (cmd_level lvl c) cs)))" by simp
  with cmd_level_last [of c lvl] Cons.prems show ?case by simp
qed

section \<open>The bytes of the driver, decoded\<close>

lemma decode_one: "parse_cmd bs = Some (c, []) \<Longrightarrow> decode bs = Some [c]"
  by (simp add: decode_step)

lemma opcodes:
  "tms_opcode = 0x4B"
  "read_flag rd OR MPSSE_DO_WRITE OR MPSSE_LSB OR MPSSE_WRITE_NEG = (if rd then 0x39 else 0x19)"
  "read_flag rd OR MPSSE_DO_WRITE OR MPSSE_LSB OR MPSSE_WRITE_NEG OR MPSSE_BITMODE = (if rd then 0x3B else 0x1B)"
  "read_flag rd OR MPSSE_WRITE_TMS OR MPSSE_LSB OR MPSSE_BITMODE OR MPSSE_WRITE_NEG = (if rd then 0x6B else 0x4B)"
  by (simp_all add: tms_opcode_def read_flag_def mpsse_constants)

lemma unat_small: "n < 256 \<Longrightarrow> unat (of_nat n :: byte) = n"
  by (simp add: unat_of_nat)

lemma word16_of_nat:
  "n < 65536 \<Longrightarrow> word16 (of_nat (n mod 256)) (of_nat (n div 256)) = n"
  by (simp add: word16_def unat_small)

lemma decode_tms_packet:
  assumes "8 * i < n"
  shows "decode (tms_packet data n i) = Some [ClockTms (min 8 (n - 8 * i)) (data ! i) False]"
proof -
  define k where "k = (of_nat (min 8 (n - i * 8) - 1) :: byte)"
  have "min 8 (n - i * 8) - 1 < 256" by (rule le_less_trans [of _ 7]) auto
  then have "unat k + 1 = min 8 (n - 8 * i)"
    unfolding k_def using assms by (subst unat_small) (auto simp: mult.commute)
  moreover have "tms_packet data n i = [0x4B, k, data ! i]"
    unfolding tms_packet_def opcodes k_def ..
  ultimately show ?thesis by (simp add: decode_one)
qed

definition tms_cmds :: "byte list \<Rightarrow> nat \<Rightarrow> mpsse_cmd list" where
  "tms_cmds data n = map (\<lambda>i. ClockTms (min 8 (n - 8 * i)) (data ! i) False) [0..<(n + 7) div 8]"

lemma decode_tms_seq: "decode (concat (map (tms_packet data n) [0..<(n + 7) div 8])) = Some (tms_cmds data n)"
  unfolding tms_cmds_def by (rule decode_concat) (auto intro: decode_tms_packet)

lemma decode_bytes_packet:
  assumes "len \<le> length data" "len \<le> 65536"
  shows "decode (bytes_packet data len rd) = Some (if len = 0 then [] else [ShiftBytes (take len data) rd])"
proof (cases "len = 0")
  case True
  then show ?thesis by (simp add: bytes_packet_def)
next
  case False
  define lo hi where "lo = (of_nat ((len - 1) mod 256) :: byte)" and "hi = (of_nat ((len - 1) div 256) :: byte)"
  have "word16 lo hi + 1 = len"
    unfolding lo_def hi_def using False assms by (subst word16_of_nat) auto
  moreover have "bytes_packet data len rd = (if rd then 0x39 else 0x19) # lo # hi # take len data"
    using False unfolding bytes_packet_def opcodes lo_def hi_def by simp
  ultimately have "parse_cmd (bytes_packet data len rd) = Some (ShiftBytes (take len data) rd, [])"
    using assms by (cases rd) (simp_all add: Let_def)
  with False show ?thesis by (simp add: decode_one)
qed

lemma decode_bits_packet:
  "decode (bits_packet data bulk rd) =
     Some (if bulk mod 8 = 0 then [] else [ShiftBits (bulk mod 8) (data ! (bulk div 8)) rd])"
proof (cases "bulk mod 8 = 0")
  case True
  then show ?thesis by (simp add: bits_packet_def)
next
  case False
  define k where "k = (of_nat (bulk mod 8 - 1) :: byte)"
  have "bulk mod 8 - 1 < 256" by (rule le_less_trans [of _ 7]) auto
  then have "unat k + 1 = bulk mod 8"
    using False unfolding k_def by (subst unat_small) auto
  moreover have "bits_packet data bulk rd = [if rd then 0x3B else 0x1B, k, data ! (bulk div 8)]"
    using False unfolding bits_packet_def opcodes k_def by simp
  ultimately have "parse_cmd (bits_packet data bulk rd) =
      Some (ShiftBits (bulk mod 8) (data ! (bulk div 8)) rd, [])"
    by (cases rd) simp_all
  with False show ?thesis by (simp add: decode_one)
qed

definition last_data :: "bool \<Rightarrow> byte" where
  "last_data b = 0x01 OR push_bit 7 (of_bool b)"

lemma bit_last_data: "bit (last_data b) 0" "bit (last_data b) 7 = b"
  by (cases b; simp add: last_data_def)+

lemma decode_last_packet:
  "decode (last_packet data n flip rd) =
     Some (if flip then [ClockTms 1 (last_data (bit_at data (n - 1))) rd] else [])"
  by (cases flip; cases rd)
    (simp_all add: last_packet_def opcodes last_data_def [symmetric] decode_one)

definition scan_cmds :: "byte list \<Rightarrow> nat \<Rightarrow> bool \<Rightarrow> bool \<Rightarrow> mpsse_cmd list" where
  "scan_cmds data n flip rd =
     (let bulk = bulk_bits n flip in
      (if bulk div 8 = 0 then [] else [ShiftBytes (take (bulk div 8) data) rd]) @
      (if bulk mod 8 = 0 then [] else [ShiftBits (bulk mod 8) (data ! (bulk div 8)) rd]) @
      (if flip then [ClockTms 1 (last_data (bit_at data (n - 1))) rd] else []))"

lemma decode_scan_bytes:
  assumes "0 < n" "n \<le> 8 * length data" "n \<le> SCAN_LIMIT"
  shows "decode (scan_bytes data n flip rd) = Some (scan_cmds data n flip rd)"
proof -
  have "bulk_bits n flip div 8 \<le> length data" "bulk_bits n flip div 8 \<le> 65536"
    using bulk_bits_le [OF assms(1), of flip] assms(2,3) by (simp_all add: SCAN_LIMIT_def)
  then show ?thesis
    unfolding scan_bytes_def scan_cmds_def Let_def
    by (intro decode_append_Some decode_bytes_packet decode_bits_packet decode_last_packet)
qed

section \<open>The cycles of the driver's commands\<close>

lemma run_cmds_tms_map:
  "tms_bits (run_cmds lvl (map (\<lambda>i. ClockTms (k i) (d i) False) xs)) =
     concat (map (\<lambda>i. map (bit (d i)) [0..<k i]) xs)"
  "\<forall>c \<in> set (run_cmds lvl (map (\<lambda>i. ClockTms (k i) (d i) False) xs)). \<not> cyc_cap c"
  by (induction xs arbitrary: lvl) auto

lemma tms_cmds_cycles:
  "tms_bits (run_cmds lvl (tms_cmds data n)) = bits_of data n"
  "\<forall>c \<in> set (run_cmds lvl (tms_cmds data n)). \<not> cyc_cap c"
proof -
  have eq: "map (bit (data ! i)) [0..<min 8 (n - 8 * i)] =
      map (\<lambda>j. bit_at data (8 * i + j)) [0..<min 8 (n - 8 * i)]" for i
    by (simp add: bit_at_8)
  have "min n (8 * ((n + 7) div 8)) = n" by simp
  with concat_chunks [of "bit_at data" 8 n "(n + 7) div 8"]
  show "tms_bits (run_cmds lvl (tms_cmds data n)) = bits_of data n"
    unfolding tms_cmds_def run_cmds_tms_map eq by (simp add: bits_of_def)
  show "\<forall>c \<in> set (run_cmds lvl (tms_cmds data n)). \<not> cyc_cap c"
    unfolding tms_cmds_def by (rule run_cmds_tms_map)
qed

lemma scan_cmds_cycles:
  assumes "0 < n" "n \<le> 8 * length data"
  shows "run_cmds False (scan_cmds data n flip rd) = scan_cycles data n flip rd"
proof -
  define b where "b = bulk_bits n flip"
  define f where "f = (\<lambda>i. Cycle False (Some (bit_at data i)) rd)"
  have b: "b \<le> n" "n = (if flip then Suc b else b)"
    using assms(1) by (auto simp: b_def bulk_bits_def)
  then have L: "b div 8 \<le> length data" using assms(2) by simp
  have bytes: "run_cmds False (if b div 8 = 0 then [] else [ShiftBytes (take (b div 8) data) rd])
      = map f [0..<8 * (b div 8)]"
    using L by (simp add: f_def min_def bit_at_take)
  have "map (\<lambda>i. Cycle False (Some (bit (data ! (b div 8)) i)) rd) [0..<b mod 8]
      = map (\<lambda>i. f (8 * (b div 8) + i)) [0..<b mod 8]"
    unfolding f_def by (rule map_cong [OF refl], subst bit_at_8) (simp_all add: less_trans [OF _ pos_mod_bound])
  then have bits: "run_cmds False (if b mod 8 = 0 then [] else [ShiftBits (b mod 8) (data ! (b div 8)) rd])
      = map f [8 * (b div 8)..<b]"
    using mult_div_mod_eq [of 8 b] by (auto simp: map_upt_shift)
  have last: "run_cmds False (if flip then [ClockTms 1 (last_data (bit_at data (n - 1))) rd] else [])
      = (if flip then [Cycle True (Some (bit_at data (n - 1))) rd] else [])"
    by (simp add: bit_last_data)
  have lvl: "level_after False (if b div 8 = 0 then [] else [ShiftBytes (take (b div 8) data) rd]) = False"
    "level_after False (if b mod 8 = 0 then [] else [ShiftBits (b mod 8) (data ! (b div 8)) rd]) = False"
    by simp_all
  have "run_cmds False (scan_cmds data n flip rd) =
      map f [0..<8 * (b div 8)] @ map f [8 * (b div 8)..<b] @
      (if flip then [Cycle True (Some (bit_at data (n - 1))) rd] else [])"
    unfolding scan_cmds_def Let_def b_def [symmetric] run_cmds_append lvl bytes bits last ..
  also have "\<dots> = map f [0..<b] @ (if flip then [Cycle True (Some (bit_at data (n - 1))) rd] else [])"
    using upt_add_eq_append [of 0 "8 * (b div 8)" "b mod 8"] by (simp flip: map_append)
  also have "\<dots> = scan_cycles data n flip rd"
    using b(2) by (auto simp: scan_cycles_def f_def)
  finally show ?thesis .
qed

lemma clocking_cmds:
  "\<forall>c \<in> set (tms_cmds data n). clocking c" "\<forall>c \<in> set (scan_cmds data n flip rd). clocking c"
  by (auto simp: tms_cmds_def scan_cmds_def Let_def)

section \<open>The contract\<close>

text \<open>
  \<open>mpsse_wire\<close>: all cycles commanded so far, sent or still in the buffer. Before the pins are
  first set up TMS is taken to be high.
\<close>

definition mpsse_wire :: "('w, 'z) mpsse_state_scheme \<Rightarrow> cycle list" where
  "mpsse_wire s = (case decode (stream s) of None \<Rightarrow> [] | Some cs \<Rightarrow> run_cmds True cs)"

definition mpsse_inv :: "('w, 'z) mpsse_state_scheme \<Rightarrow> bool" where
  "mpsse_inv s \<longleftrightarrow> mpsse_safe s \<and>
     (case decode (stream s) of None \<Rightarrow> False
      | Some cs \<Rightarrow> run_cmds True cs \<noteq> [] \<longrightarrow> level_after True cs = cyc_tms (last (run_cmds True cs)))"

definition mpsse_live :: "'w ext \<Rightarrow> bool" where
  "mpsse_live E \<longleftrightarrow> usb_writes_accepted E \<and> usb_reads_answered E \<and> 4096 \<le> ext_polls E"

lemma mpsse_inv_safe: "mpsse_inv s \<Longrightarrow> mpsse_safe s"
  by (simp add: mpsse_inv_def)

lemma stream_grows:
  assumes "mpsse_inv s" "mpsse_safe t" "stream t = stream s @ bs" "decode bs = Some cs"
    and "\<forall>c \<in> set cs. clocking c"
  shows "mpsse_inv t \<and> (\<exists>lvl. mpsse_wire t = mpsse_wire s @ run_cmds lvl cs \<and>
      (mpsse_wire s \<noteq> [] \<longrightarrow> lvl = cyc_tms (last (mpsse_wire s))))"
proof -
  from assms(1) obtain cs0 where cs0: "decode (stream s) = Some cs0"
      "run_cmds True cs0 \<noteq> [] \<longrightarrow> level_after True cs0 = cyc_tms (last (run_cmds True cs0))"
    by (auto simp: mpsse_inv_def split: option.splits)
  have d: "decode (stream t) = Some (cs0 @ cs)"
    using assms(3,4) cs0(1) by (simp add: decode_append)
  have r: "run_cmds True (cs0 @ cs) = run_cmds True cs0 @ run_cmds (level_after True cs0) cs"
    by (rule run_cmds_append)
  have l: "level_after True (cs0 @ cs) = (if run_cmds (level_after True cs0) cs = [] then level_after True cs0
      else cyc_tms (last (run_cmds (level_after True cs0) cs)))"
    using level_after_last [OF assms(5)] by simp
  have "run_cmds True (cs0 @ cs) \<noteq> [] \<longrightarrow>
      level_after True (cs0 @ cs) = cyc_tms (last (run_cmds True (cs0 @ cs)))"
    using cs0(2) unfolding r l by (cases "run_cmds (level_after True cs0) cs = []") auto
  then have "mpsse_inv t" using assms(2) d by (simp add: mpsse_inv_def)
  moreover have "mpsse_wire t = mpsse_wire s @ run_cmds (level_after True cs0) cs"
      "mpsse_wire s \<noteq> [] \<longrightarrow> level_after True cs0 = cyc_tms (last (mpsse_wire s))"
    using d r cs0 by (simp_all add: mpsse_wire_def)
  ultimately show ?thesis by blast
qed

lemma stream_grows_low:
  assumes "mpsse_inv s" "mpsse_safe t" "stream t = stream s @ bs" "decode bs = Some cs"
    and "\<forall>c \<in> set cs. clocking c" "tms_low (mpsse_wire s)"
  shows "mpsse_inv t \<and> mpsse_wire t = mpsse_wire s @ run_cmds False cs"
  using stream_grows [OF assms(1-5)] assms(6) by (auto simp: tms_low_def)

lemma mpsse_view:
  fixes s t :: "('w, 'z) mpsse_state_scheme"
  assumes "usb_out t = usb_out s" "common_state.more t = common_state.more s"
  shows "mpsse_inv t = mpsse_inv s \<and> True = True \<and> mpsse_wire t = mpsse_wire s"
proof -
  have "mpsse_buffer t = mpsse_buffer s" "mpsse_buffer_pos t = mpsse_buffer_pos s"
    using assms(2) by (cases s; cases t; simp)+
  then show ?thesis
    using assms(1) by (simp add: mpsse_inv_def mpsse_wire_def mpsse_safe_def stream_def pending_def)
qed

lemma mpsse_tms_contract:
  assumes inv: "mpsse_inv s" and n: "n \<le> 8 * length data"
  shows "\<exists>ok t. mpsse_jtag_tms_seq E data n s = Inr (ok, t) \<and> same_host s t \<and> state t = state s \<and>
     (mpsse_live E \<longrightarrow> ok) \<and>
     (ok \<longrightarrow> mpsse_inv t \<and> (\<exists>cyc. mpsse_wire t = mpsse_wire s @ cyc \<and> tms_bits cyc = bits_of data n \<and>
        (\<forall>c \<in> set cyc. \<not> cyc_cap c)))"
proof -
  from mpsse_tms_seq_sends [OF mpsse_inv_safe [OF inv] n, of E] obtain ok t where
    t: "mpsse_jtag_tms_seq E data n s = Inr (ok, t)" "quiet s t" "state t = state s"
      "usb_writes_accepted E \<longrightarrow> ok"
      "ok \<longrightarrow> emits s (concat (map (tms_packet data n) [0..<(n + 7) div 8])) t"
    unfolding sends_def by blast
  have "mpsse_inv t \<and> (\<exists>lvl. mpsse_wire t = mpsse_wire s @ run_cmds lvl (tms_cmds data n) \<and>
      (mpsse_wire s \<noteq> [] \<longrightarrow> lvl = cyc_tms (last (mpsse_wire s))))" if ok
    using stream_grows [OF inv quiet_safe [OF t(2)] _ decode_tms_seq clocking_cmds(1)] t(5) that
    by (simp add: emits_def)
  then have "mpsse_inv t \<and> (\<exists>cyc. mpsse_wire t = mpsse_wire s @ cyc \<and> tms_bits cyc = bits_of data n \<and>
        (\<forall>c \<in> set cyc. \<not> cyc_cap c))" if ok
    using that tms_cmds_cycles [of _ data n] by blast
  with t show ?thesis by (auto simp: quiet_def mpsse_live_def)
qed

lemma mpsse_send_contract:
  assumes inv: "mpsse_inv s" and low: "tms_low (mpsse_wire s)"
    and n: "0 < n" "n \<le> 8 * length data" "n \<le> SCAN_LIMIT"
  shows "\<exists>ok t. mpsse_jtag_scan_chain_send E data n flip rd s = Inr (ok, t) \<and> same_host s t \<and>
     (mpsse_live E \<longrightarrow> ok) \<and>
     (ok \<longrightarrow> mpsse_inv t \<and> state t = (if flip then next_state (state s) True else state s) \<and>
        mpsse_wire t = mpsse_wire s @ scan_cycles data n flip rd)"
proof -
  from mpsse_scan_send_spec [OF mpsse_inv_safe [OF inv] n, of E flip rd] obtain ok t where
    t: "mpsse_jtag_scan_chain_send E data n flip rd s = Inr (ok, t)" "quiet s t" "usb_writes_accepted E \<longrightarrow> ok"
      "ok \<longrightarrow> state t = (if flip then next_state (state s) True else state s) \<and>
            stream t = stream s @ scan_bytes data n flip rd"
    by blast
  have "mpsse_inv t \<and> mpsse_wire t = mpsse_wire s @ run_cmds False (scan_cmds data n flip rd)" if ok
    using stream_grows_low [OF inv quiet_safe [OF t(2)] _ decode_scan_bytes [OF n] clocking_cmds(2) low] t(4) that
    by simp
  with t scan_cmds_cycles [OF n(1,2), of flip rd] show ?thesis by (auto simp: quiet_def mpsse_live_def)
qed

lemma decode_send_immediate: "decode [SEND_IMMEDIATE] = Some [SendNow]"
  by (simp add: decode_one SEND_IMMEDIATE_def)

lemma mpsse_recv_contract:
  assumes inv: "mpsse_inv s" and n: "0 < n" "n \<le> SCAN_LIMIT" "n \<le> 8 * length buf" and live: "mpsse_live E"
  shows "\<exists>buf' t. mpsse_jtag_scan_chain_recv E buf n flip s = Inr (True, buf', t) \<and> same_host s t \<and>
     state t = state s \<and> mpsse_inv t \<and> mpsse_wire t = mpsse_wire s \<and> length buf' = length buf"
proof -
  from mpsse_recv_spec [OF mpsse_inv_safe [OF inv] n(1,3,2), of E flip] live obtain buf' t where
    t: "mpsse_jtag_scan_chain_recv E buf n flip s = Inr (True, buf', t)" "quiet s t" "state t = state s"
      "length buf' = length buf" and st: "stream t = stream s \<or> stream t = stream s @ [SEND_IMMEDIATE]"
    by (auto simp: mpsse_live_def)
  have "mpsse_inv t \<and> mpsse_wire t = mpsse_wire s"
  proof (cases "stream t = stream s")
    case True
    with stream_grows [OF inv quiet_safe [OF t(2)], of "[]" "[]"] show ?thesis by simp
  next
    case False
    with st stream_grows [OF inv quiet_safe [OF t(2)] _ decode_send_immediate] show ?thesis by auto
  qed
  with t show ?thesis by (auto simp: quiet_def)
qed

interpretation mpsse: jtag_driver "mpsse_driver E" mpsse_inv "\<lambda>_. True" mpsse_wire "mpsse_live E" "\<lambda>_. ()" None
  for E :: "'w ext"
proof (unfold_locales, goal_cases)
  case (1 t s)
  then show ?case by (intro mpsse_view)
next
  case (2 s n data)
  with mpsse_tms_contract [of s n data E] show ?case by (simp add: mpsse_driver_def)
next
  case (3 s n data flip rd)
  with mpsse_send_contract [of s n data E flip rd] show ?case by (simp add: mpsse_driver_def)
next
  case (4 s n data flip t buf)
  then have "mpsse_inv t"
    using mpsse_send_contract [of s n data E flip True] by (auto simp: mpsse_driver_def)
  with 4 mpsse_recv_contract [of t n buf E flip] show ?case by (simp add: mpsse_driver_def)
qed

end
