(* ===== verification/Mpsse_Clock.thy ===== *)
theory Mpsse_Clock
  imports Mpsse_Wire
begin

text \<open>
  The remaining operations of the MPSSE driver against the same specification: clocking
  without data, the choice of the TCK divisor, and what \<open>mpsse_init\<close> establishes.
\<close>

section \<open>Clocking without data\<close>

definition clock_bytes :: "nat \<Rightarrow> byte list" where
  "clock_bytes count =
     (if count div 8 = 0 then []
      else [0x8F, of_nat ((count div 8 - 1) mod 256), of_nat ((count div 8 - 1) div 256)]) @
     (if count mod 8 = 0 then [] else [0x8E, of_nat (count mod 8 - 1)])"

definition clock_cmds :: "nat \<Rightarrow> mpsse_cmd list" where
  "clock_cmds count =
     (if count div 8 = 0 then [] else [ClockBytes (count div 8)]) @
     (if count mod 8 = 0 then [] else [ClockBits (count mod 8)])"

lemma decode_clock_bytes:
  assumes "count \<le> CLOCK_LIMIT"
  shows "decode (clock_bytes count) = Some (clock_cmds count)"
  unfolding clock_bytes_def clock_cmds_def
proof (rule decode_append_Some)
  show "decode (if count div 8 = 0 then []
      else [0x8F, of_nat ((count div 8 - 1) mod 256), of_nat ((count div 8 - 1) div 256)]) =
    Some (if count div 8 = 0 then [] else [ClockBytes (count div 8)])"
  proof (cases "count div 8 = 0")
    case False
    define lo hi where "lo = (of_nat ((count div 8 - 1) mod 256) :: byte)"
      and "hi = (of_nat ((count div 8 - 1) div 256) :: byte)"
    have "count div 8 - 1 < 65536" using assms by (simp add: CLOCK_LIMIT_def)
    then have "word16 lo hi + 1 = count div 8"
      using False unfolding lo_def hi_def by (subst word16_of_nat) auto
    then have "decode [0x8F, lo, hi] = Some [ClockBytes (count div 8)]" by (simp add: decode_one)
    with False show ?thesis by (simp add: lo_def hi_def)
  qed simp
next
  show "decode (if count mod 8 = 0 then [] else [0x8E, of_nat (count mod 8 - 1)]) =
    Some (if count mod 8 = 0 then [] else [ClockBits (count mod 8)])"
  proof (cases "count mod 8 = 0")
    case False
    define k where "k = (of_nat (count mod 8 - 1) :: byte)"
    have "count mod 8 - 1 < 256" by (rule le_less_trans [of _ 7]) auto
    then have "unat k + 1 = count mod 8" using False unfolding k_def by (subst unat_small) auto
    then have "decode [0x8E, k] = Some [ClockBits (count mod 8)]" by (simp add: decode_one)
    with False show ?thesis by (simp add: k_def)
  qed simp
qed

lemma clock_cmds_cycles: "run_cmds lvl (clock_cmds count) = replicate count (Cycle lvl None False)"
proof -
  have "run_cmds lvl (clock_cmds count) =
      replicate (8 * (count div 8)) (Cycle lvl None False) @ replicate (count mod 8) (Cycle lvl None False)"
    by (simp add: clock_cmds_def)
  then show ?thesis by (simp flip: replicate_add)
qed

text \<open>A write that bypasses the (empty) buffer also goes to the end of the stream.\<close>

lemma direct_write_sends:
  assumes "mpsse_safe s" "mpsse_buffer_pos s = 0"
  shows "sends E (\<lambda>s. Inr (ftdi_write_retry E bs s)) s bs \<and>
     (\<forall>ok t. ftdi_write_retry E bs s = (ok, t) \<longrightarrow> mpsse_buffer_pos t = 0)"
proof -
  obtain ok t where w: "ftdi_write_retry E bs s = (ok, t)" by fastforce
  from ftdi_write_retry_log [OF w] obtain k wd where
    t: "t = s\<lparr>usb_out := usb_out s @ take k bs, world := wd\<rparr>" and k: "ok \<longrightarrow> k = length bs" by blast
  have "ok" if "usb_writes_accepted E" using ftdi_write_retry_accepted [OF that, of bs s] w by simp
  with w t k assms show ?thesis
    by (auto simp: sends_def emits_def quiet_def mpsse_safe_def same_host_def stream_def pending_def)
qed

lemma sends_then_pos:
  assumes "sends E f s xs" and "\<And>t. f s = Inr (True, t) \<Longrightarrow> emits s xs t \<Longrightarrow> sends E g t ys"
  shows "sends E (\<lambda>s. check_then (f s) g) s (xs @ ys)"
proof -
  from assms(1) obtain ok t where f: "f s = Inr (ok, t)" "quiet s t" "state t = state s"
      "usb_writes_accepted E \<longrightarrow> ok" "ok \<longrightarrow> emits s xs t"
    by (auto simp: sends_def)
  show ?thesis
  proof (cases ok)
    case False
    with f show ?thesis by (auto simp: sends_def)
  next
    case True
    with f have e: "emits s xs t" "f s = Inr (True, t)" by simp_all
    from assms(2) [OF e(2,1)] obtain ok' u where "g t = Inr (ok', u)" "quiet t u" "state u = state t"
        "usb_writes_accepted E \<longrightarrow> ok'" "ok' \<longrightarrow> emits t ys u"
      by (auto simp: sends_def)
    with f True e show ?thesis by (auto simp: sends_def intro: quiet_trans emits_trans)
  qed
qed

lemma flush_sends:
  assumes "mpsse_safe s"
  shows "sends E (\<lambda>s. Inr (mpsse_buffer_flush E s)) s []"
proof -
  obtain ok t where f: "mpsse_buffer_flush E s = (ok, t)" by fastforce
  from flush_spec [OF assms f] f show ?thesis by (auto simp: sends_def)
qed

lemma optional_write_sends:
  assumes "mpsse_safe s" "mpsse_buffer_pos s = 0"
  shows "sends E (\<lambda>s. if c then Inr (True, s) else Inr (ftdi_write_retry E bs s)) s (if c then [] else bs)"
    and "(if c then Inr (True, s) else Inr (ftdi_write_retry E bs s)) = (Inr (True, t) :: _ result) \<Longrightarrow>
      mpsse_buffer_pos t = 0"
  using direct_write_sends [OF assms, of E bs] sends_Nil [OF assms(1), of E] assms(2)
  by (cases c; auto)+

lemma mpsse_clock_sends:
  fixes E :: "'w ext" and s :: "('w, 'z) mpsse_state_scheme"
  assumes "mpsse_safe s"
  shows "sends E (mpsse_jtag_clock_tck E count) s (clock_bytes count)"
proof -
  define b1 b2 where "b1 = [0x8F, of_nat ((count div 8 - 1) mod 256), of_nat ((count div 8 - 1) div 256) :: byte]"
    and "b2 = [0x8E, of_nat (count mod 8 - 1) :: byte]"
  define f1 f2 :: "('w, 'z) mpsse_state_scheme op"
    where "f1 = (\<lambda>s. if count div 8 = 0 then Inr (True, s) else Inr (ftdi_write_retry E b1 s))"
      and "f2 = (\<lambda>s. if count mod 8 = 0 then Inr (True, s) else Inr (ftdi_write_retry E b2 s))"
  have step: "sends E (\<lambda>s. check_then (f1 s) f2) t
      ((if count div 8 = 0 then [] else b1) @ (if count mod 8 = 0 then [] else b2))"
    if t: "mpsse_safe t" "mpsse_buffer_pos t = 0" for t
  proof (rule sends_then_pos)
    show "sends E f1 t (if count div 8 = 0 then [] else b1)"
      unfolding f1_def by (rule optional_write_sends [OF t])
    fix u
    assume u: "f1 t = Inr (True, u)" "emits t (if count div 8 = 0 then [] else b1) u"
    have "(if count div 8 = 0 then Inr (True, t) else Inr (ftdi_write_retry E b1 t)) = (Inr (True, u) :: _ result)"
      using u(1) by (simp only: f1_def)
    from optional_write_sends(2) [OF t this] have "mpsse_buffer_pos u = 0" .
    from optional_write_sends(1) [OF emits_safe [OF u(2)] this, of E "count mod 8 = 0" b2]
    show "sends E f2 u (if count mod 8 = 0 then [] else b2)" by (simp only: f2_def)
  qed
  have "sends E (\<lambda>s. check_then (Inr (mpsse_buffer_flush E s)) (\<lambda>s. check_then (f1 s) f2)) s
      ([] @ (if count div 8 = 0 then [] else b1) @ (if count mod 8 = 0 then [] else b2))"
  proof (rule sends_then_pos [OF flush_sends [OF assms]])
    fix t
    assume t: "(Inr (mpsse_buffer_flush E s) :: _ result) = Inr (True, t)" "emits s [] t"
    have "mpsse_buffer_pos t = 0" using flush_spec [OF assms, of E True t] t(1) by simp
    with emits_safe [OF t(2)] show "sends E (\<lambda>s. check_then (f1 s) f2) t
      ((if count div 8 = 0 then [] else b1) @ (if count mod 8 = 0 then [] else b2))"
      by (rule step)
  qed
  then show ?thesis
    unfolding mpsse_jtag_clock_tck_def [abs_def] clock_bytes_def Let_def f1_def f2_def b1_def b2_def
      append_Nil .
qed

lemma clocking_clock_cmds: "\<forall>c \<in> set (clock_cmds count). clocking c"
  by (auto simp: clock_cmds_def)

lemma mpsse_clock_contract:
  assumes inv: "mpsse_inv s" and ne: "mpsse_wire s \<noteq> []" and count: "count \<le> CLOCK_LIMIT"
  shows "\<exists>ok t. mpsse_jtag_clock_tck E count s = Inr (ok, t) \<and> same_host s t \<and> state t = state s \<and>
     (mpsse_live E \<longrightarrow> ok) \<and>
     (ok \<longrightarrow> mpsse_inv t \<and>
        mpsse_wire t = mpsse_wire s @ replicate count (Cycle (cyc_tms (last (mpsse_wire s))) None False))"
proof -
  from mpsse_clock_sends [OF mpsse_inv_safe [OF inv], of E count] obtain ok t where
    t: "mpsse_jtag_clock_tck E count s = Inr (ok, t)" "quiet s t" "state t = state s"
      "usb_writes_accepted E \<longrightarrow> ok" "ok \<longrightarrow> emits s (clock_bytes count) t"
    unfolding sends_def by blast
  have "mpsse_inv t \<and>
      mpsse_wire t = mpsse_wire s @ replicate count (Cycle (cyc_tms (last (mpsse_wire s))) None False)" if ok
    using stream_grows [OF inv quiet_safe [OF t(2)] _ decode_clock_bytes [OF count] clocking_clock_cmds] t(5) that ne
    by (auto simp: emits_def clock_cmds_cycles)
  with t show ?thesis by (auto simp: quiet_def mpsse_live_def)
qed

section \<open>The TCK divisor\<close>

text \<open>
  The chip divides 60 MHz by \<open>2 * (1 + divisor)\<close>. For a requested frequency of 1 to 30 MHz
  the divisor fits the byte it is sent in, the resulting frequency does not exceed the
  request, and the next smaller divisor would exceed it.
\<close>

lemma tck_divisor_eq:
  assumes "0 < freq" "unat freq \<le> 2 ^ 64 - 30"
  shows "tck_divisor freq = Inr (int ((29 + unat freq) div unat freq - 1))"
proof -
  define f where "f = unat freq"
  have f: "0 < f" "f \<le> 2 ^ 64 - 30" "freq = of_nat f"
    using assms by (simp_all add: f_def unat_gt_0)
  define q where "q = (29 + f) div f"
  have q: "1 \<le> q" "q \<le> 30"
  proof -
    show "1 \<le> q" using f(1) by (simp add: q_def Suc_le_eq div_greater_zero_iff)
    have "29 \<le> 29 * f" using f(1) by simp
    then have "(29 + f) div f \<le> (30 * f) div f" by (intro div_le_mono) simp
    then show "q \<le> 30" using f(1) by (simp add: q_def)
  qed
  have "(60 div 2 + freq - 1 :: 64 word) = of_nat (29 + f)"
    by (simp add: f(3))
  then have "(60 div 2 + freq - 1) div freq = (of_nat (29 + f) :: 64 word) div of_nat f"
    using f(3) by simp
  also have "\<dots> = of_nat q"
  proof (rule word_unat_eq_iff [THEN iffD2])
    have "unat (of_nat (29 + f) :: 64 word) = 29 + f" "unat (of_nat f :: 64 word) = f"
      using f(2) by (simp_all only: unat_of_nat) simp_all
    moreover have "unat (of_nat q :: 64 word) = q"
      using q(2) by (simp only: unat_of_nat) simp
    ultimately show "unat ((of_nat (29 + f) :: 64 word) div of_nat f) = unat (of_nat q :: 64 word)"
      by (simp add: unat_div q_def del: of_nat_add of_nat_numeral)
  qed
  finally have "(60 div 2 + freq - 1) div freq - 1 = (of_nat (q - 1) :: 64 word)"
    using q(1) by (simp add: of_nat_diff)
  moreover have "sint (ucast (of_nat (q - 1) :: 64 word) :: 32 word) = int (q - 1)"
  proof -
    define k where "k = q - 1"
    have k: "k < 30" using q(2) by (simp add: k_def)
    have "ucast (of_nat k :: 64 word) = (of_nat k :: 32 word)"
      by (rule word_unat_eq_iff [THEN iffD2]) (use k in \<open>simp add: unsigned_ucast_eq unsigned_of_nat take_bit_nat_eq_self\<close>)
    moreover have "sint (of_nat k :: 32 word) = int k"
      using k by (simp add: signed_of_nat signed_take_bit_int_eq_self)
    ultimately show ?thesis by (simp add: k_def)
  qed
  ultimately show ?thesis
    using assms(1) by (simp add: tck_divisor_def Let_def q_def f_def)
qed

lemma mpsse_set_tck_sends:
  fixes E :: "'w ext" and s :: "('w, 'z) mpsse_state_scheme"
  assumes "mpsse_safe s" "tck_divisor freq = Inr d"
  shows "sends E (mpsse_set_tck_freq E freq) s [TCK_DIVISOR, of_int d, 0x00, DIS_DIV_5]"
proof -
  let ?bs = "[TCK_DIVISOR, of_int d, 0x00, DIS_DIV_5]"
  have "sends E (\<lambda>s. check_then (Inr (mpsse_buffer_flush E s)) (\<lambda>s. Inr (ftdi_write_retry E ?bs s))) s ([] @ ?bs)"
  proof (rule sends_then_pos [OF flush_sends [OF assms(1)]])
    fix t
    assume t: "(Inr (mpsse_buffer_flush E s) :: _ result) = Inr (True, t)" "emits s [] t"
    have "mpsse_buffer_pos t = 0" using flush_spec [OF assms(1), of E True t] t(1) by simp
    from direct_write_sends [OF emits_safe [OF t(2)] this]
    show "sends E (\<lambda>s. Inr (ftdi_write_retry E ?bs s)) t ?bs" by blast
  qed
  then show ?thesis by (simp add: mpsse_set_tck_freq_def [abs_def] assms(2))
qed

lemma decode_divisor: "decode [TCK_DIVISOR, d, 0x00, DIS_DIV_5] = Some [Divisor d 0, DisableDiv5]"
  by (simp add: decode_step mpsse_constants)

lemma mpsse_set_tck_contract:
  assumes inv: "mpsse_inv s" and freq: "0 < freq" "freq \<le> 1000"
  shows "\<exists>ok t. mpsse_set_tck_freq E freq s = Inr (ok, t) \<and> same_host s t \<and> state t = state s \<and>
     (mpsse_live E \<longrightarrow> ok) \<and> (ok \<longrightarrow> mpsse_inv t \<and> mpsse_wire t = mpsse_wire s)"
proof -
  have "unat freq \<le> 1000" using freq(2) by (simp add: word_le_nat_alt)
  then have "unat freq \<le> 2 ^ 64 - 30" by simp
  with tck_divisor_eq [OF freq(1)] obtain d where d: "tck_divisor freq = Inr d" by blast
  from mpsse_set_tck_sends [OF mpsse_inv_safe [OF inv] d, of E] obtain ok t where
    t: "mpsse_set_tck_freq E freq s = Inr (ok, t)" "quiet s t" "state t = state s"
      "usb_writes_accepted E \<longrightarrow> ok" "ok \<longrightarrow> emits s [TCK_DIVISOR, of_int d, 0x00, DIS_DIV_5] t"
    unfolding sends_def by blast
  have "mpsse_inv t \<and> mpsse_wire t = mpsse_wire s" if ok
    using stream_grows [OF inv quiet_safe [OF t(2)] _ decode_divisor] t(5) that by (auto simp: emits_def)
  with t show ?thesis by (auto simp: quiet_def mpsse_live_def)
qed

text \<open>The MPSSE driver queues: every law of the extended interface holds for it.\<close>

interpretation mpsse_queue: pipelined_driver "mpsse_driver E" mpsse_inv "\<lambda>_ _. True" mpsse_wire "mpsse_live E"
    "\<lambda>_. ()" None
  for E :: "'w ext"
proof (intro pipelined_driver.intro, goal_cases)
  case (1 q)
  show ?case by (rule mpsse.wire_driver_axioms)
next
  case (2 s q n data flip rd)
  with mpsse_send_contract [of s n data E flip rd] show ?case by (simp add: mpsse_driver_def)
next
  case (3 s q count)
  with mpsse_clock_contract [of s count E] show ?case by (simp add: mpsse_driver_def)
next
  case (4 s n flip bits q buf)
  with mpsse_recv_contract [of s n buf E flip] show ?case by (simp add: mpsse_driver_def)
next
  case (5 s q freq)
  with mpsse_set_tck_contract [of s freq E] show ?case by (simp add: mpsse_driver_def)
qed

lemma tck_divisor_zero: "tck_divisor 0 = Inl DivisionByZero"
  by (simp add: tck_divisor_def)

text \<open>Close to \<open>2 ^ 64\<close> the sum wraps, the divisor becomes -1 and the message divides by zero.\<close>

lemma tck_divisor_wraps:
  assumes "2 ^ 64 - 29 \<le> unat freq"
  shows "tck_divisor freq = Inl DivisionByZero"
proof -
  define f where "f = unat freq"
  have f: "2 ^ 64 - 29 \<le> f" "f < 2 ^ 64" using assms unsigned_less [of freq] by (simp_all add: f_def)
  have freq: "freq = of_nat f" "freq \<noteq> 0" using f by (auto simp: f_def)
  have "unat (60 div 2 + freq - 1 :: 64 word) = 29 + f - 2 ^ 64"
  proof -
    have "(60 div 2 + freq - 1 :: 64 word) = of_nat (29 + f)" by (simp add: freq(1))
    moreover have "(29 + f) mod 2 ^ 64 = 29 + f - 2 ^ 64"
      using f by (simp add: mod_if)
    ultimately show ?thesis by (simp only: unat_of_nat len_bit0 len_num1) simp
  qed
  then have "unat (60 div 2 + freq - 1 :: 64 word) < unat freq"
    using f by (simp add: f_def [symmetric])
  then have "(60 div 2 + freq - 1) div freq = 0"
    by (intro word_unat_eq_iff [THEN iffD2]) (simp add: unat_div)
  moreover have "(ucast (- 1 :: 64 word) :: 32 word) = - 1"
    by (rule bit_word_eqI) (simp add: bit_ucast_iff)
  ultimately show ?thesis
    using freq(2) by (simp add: tck_divisor_def Let_def)
qed

lemma ceiling_divisor:
  assumes "0 < f" "f \<le> (30 :: nat)"
  shows "30 \<le> f * ((29 + f) div f)" "f * ((29 + f) div f - 1) < 30" "(29 + f) div f \<le> 30"
proof -
  define q where "q = (29 + f) div f"
  have "q * f + (29 + f) mod f = 29 + f" unfolding q_def by (rule div_mult_mod_eq)
  moreover have "(29 + f) mod f < f" using assms(1) by simp
  ultimately have q: "30 \<le> q * f" "q * f \<le> 29 + f" by linarith+
  then show "30 \<le> f * ((29 + f) div f)" by (simp add: q_def mult.commute)
  have "q \<noteq> 0" using q(1) by (intro notI) simp
  then obtain m where m: "q = Suc m" by (cases q) auto
  then have "f * m < 30" using q(2) by (simp add: mult.commute)
  then show "f * ((29 + f) div f - 1) < 30" by (simp add: q_def [symmetric] m)
  have "29 + f \<le> 30 * f" using assms(1) by simp
  then have "(29 + f) div f \<le> 30 * f div f" by (rule div_le_mono)
  then show "(29 + f) div f \<le> 30" using assms(1) by simp
qed

section \<open>What initialisation establishes\<close>

definition init_cmds :: "AdapterTypes \<Rightarrow> int \<Rightarrow> mpsse_cmd list" where
  "init_cmds a d = (case mpsse_pins a of (out, dir) \<Rightarrow>
     [SetPinsLow (ucast (out AND 0xff)) (ucast (dir AND 0xff)),
      SetPinsHigh (ucast (drop_bit 8 out)) (ucast (drop_bit 8 dir)),
      SendNow, Divisor (of_int d) 0, DisableDiv5])"

lemma decode_init:
  "decode (mpsse_setup_bytes a @ [TCK_DIVISOR, of_int d, 0x00, DIS_DIV_5]) = Some (init_cmds a d)"
  by (cases a) (simp_all add: mpsse_setup_bytes_def mpsse_pins_def init_cmds_def mpsse_constants decode_step)

lemma init_cmds_cycles: "run_cmds lvl (init_cmds a d) = []" "level_after lvl (init_cmds a d)"
  by (cases a; simp add: init_cmds_def mpsse_pins_def)+

definition idle_host :: "('w, 'z) mpsse_state_scheme \<Rightarrow> ('w, 'z) mpsse_state_scheme \<Rightarrow> bool" where
  "idle_host s t \<longleftrightarrow> same_host s t \<and> state t = state s \<and> usb_out t = usb_out s \<and>
     mpsse_buffer t = mpsse_buffer s"

lemma call_ftdi_control_frame:
  "call_ftdi_control E op s = (r, t) \<Longrightarrow> \<exists>w c. t = s\<lparr>usb_ctl := c, world := w\<rparr>"
  by (auto simp: call_ftdi_control_def split: prod.splits)

lemma control_idle: "call_ftdi_control E op s = (r, t) \<Longrightarrow> idle_host s t"
  by (auto simp: idle_host_def same_host_def dest!: call_ftdi_control_frame)

lemma idle_host_trans [trans]: "idle_host s t \<Longrightarrow> idle_host t u \<Longrightarrow> idle_host s u"
  by (auto simp: idle_host_def intro: same_host_trans)

lemma control_assert_idle: "control_assert E op s = Inr t \<Longrightarrow> idle_host s t"
  by (auto simp: control_assert_def dest: control_idle split: prod.splits if_splits)

lemma mpsse_init_True:
  assumes "mpsse_init E cfg s = Inr (True, t)"
  shows "\<exists>s1 d. idle_host s s1 \<and> tck_divisor (freq_mhz cfg) = Inr d \<and>
     (\<exists>w. t = s1\<lparr>usb_out := usb_out s @ mpsse_setup_bytes (adapter_type cfg) @
                        [TCK_DIVISOR, of_int d, 0x00, DIS_DIV_5],
               mpsse_buffer_pos := 0, world := w\<rparr>)"
proof -
  obtain h a where 1: "call_ftdi_control E Ftdi_new s = (h, a)" by fastforce
  obtain r2 b where 2: "call_ftdi_control E (Ftdi_set_interface (ftdi_channel cfg)) a = (r2, b)" by fastforce
  define open_op where "open_op = (if use_bus_addr cfg
             then Ftdi_usb_open_bus_addr (usb_bus_addr cfg) (usb_dev_addr cfg)
             else Ftdi_usb_open (ftdi_vid cfg) (ftdi_pid cfg))"
  obtain r3 c where 3: "call_ftdi_control E open_op b = (r3, c)" by fastforce
  have i: "idle_host s c"
    using control_idle [OF 1] control_idle [OF 2] control_idle [OF 3] idle_host_trans by blast
  from assms obtain e f g u v where
    steps: "control_assert E Ftdi_usb_reset c = Inr e" "control_assert E (Ftdi_set_baudrate 115200) e = Inr f"
      "control_assert E (Ftdi_set_latency_timer 255) f = Inr g"
      "v = snd (call_ftdi_control E (Ftdi_set_bitmode 0 BITMODE_MPSSE)
             (snd (call_ftdi_control E (Ftdi_set_bitmode 0 0) g)))"
      "ftdi_write_retry E (mpsse_setup_bytes (adapter_type cfg)) v = (True, u)"
      "mpsse_set_tck_freq E (freq_mhz cfg) (mpsse_buffer_init u) = Inr (True, t)"
    by (auto simp: mpsse_init_def 1 2 open_op_def [symmetric] 3 Let_def result_iff split: if_splits)
  have j: "idle_host c v"
    using control_assert_idle [OF steps(1)] control_assert_idle [OF steps(2)] control_assert_idle [OF steps(3)]
      steps(4) control_idle [OF prod.collapse [symmetric]] idle_host_trans by metis
  with i have "idle_host s v" by (rule idle_host_trans)
  moreover from ftdi_write_retry_True [OF steps(5)] obtain w where
    u: "u = v\<lparr>usb_out := usb_out v @ mpsse_setup_bytes (adapter_type cfg), world := w\<rparr>" by blast
  moreover from steps(6) obtain d where d: "tck_divisor (freq_mhz cfg) = Inr d"
      "ftdi_write_retry E [TCK_DIVISOR, of_int d, 0x00, DIS_DIV_5] (mpsse_buffer_init u) = (True, t)"
    by (auto simp: mpsse_set_tck_freq_def mpsse_buffer_flush_def mpsse_buffer_init_def result_iff)
  moreover from ftdi_write_retry_True [OF d(2)] obtain w' where
    "t = (mpsse_buffer_init u)\<lparr>usb_out := usb_out (mpsse_buffer_init u) @
        [TCK_DIVISOR, of_int d, 0x00, DIS_DIV_5], world := w'\<rparr>" by blast
  ultimately show ?thesis
    by (intro exI [of _ v] exI [of _ d] conjI exI [of _ w']) (auto simp: mpsse_buffer_init_def idle_host_def)
qed

lemma mpsse_init_works:
  assumes "ftdi_control_works E" "usb_writes_accepted E" "tck_divisor (freq_mhz cfg) = Inr d"
  shows "\<exists>t. mpsse_init E cfg s = Inr (True, t)"
proof -
  obtain h a where 1: "call_ftdi_control E Ftdi_new s = (h, a)" by fastforce
  obtain r2 b where 2: "call_ftdi_control E (Ftdi_set_interface (ftdi_channel cfg)) a = (r2, b)" by fastforce
  define open_op where "open_op = (if use_bus_addr cfg
             then Ftdi_usb_open_bus_addr (usb_bus_addr cfg) (usb_dev_addr cfg)
             else Ftdi_usb_open (ftdi_vid cfg) (ftdi_pid cfg))"
  obtain r3 c where 3: "call_ftdi_control E open_op b = (r3, c)" by fastforce
  have r: "h \<noteq> 0" "r2 = 0" "r3 = 0"
    using call_ftdi_control_works [OF assms(1) 1] call_ftdi_control_works [OF assms(1) 2]
      call_ftdi_control_works [OF assms(1) 3] by (auto simp: open_op_def split: if_splits)
  obtain e where e: "control_assert E Ftdi_usb_reset c = Inr e" using control_assert_works [OF assms(1)] by blast
  obtain f where f: "control_assert E (Ftdi_set_baudrate 115200) e = Inr f"
    using control_assert_works [OF assms(1)] by blast
  obtain g where g: "control_assert E (Ftdi_set_latency_timer 255) f = Inr g"
    using control_assert_works [OF assms(1)] by blast
  define v where "v = snd (call_ftdi_control E (Ftdi_set_bitmode 0 BITMODE_MPSSE)
             (snd (call_ftdi_control E (Ftdi_set_bitmode 0 0) g)))"
  obtain u where u: "ftdi_write_retry E (mpsse_setup_bytes (adapter_type cfg)) v = (True, u)"
    using write_retry_works [OF assms(2)] by blast
  obtain t where "ftdi_write_retry E [TCK_DIVISOR, of_int d, 0x00, DIS_DIV_5] (mpsse_buffer_init u) = (True, t)"
    using write_retry_works [OF assms(2)] by blast
  then have "mpsse_set_tck_freq E (freq_mhz cfg) (mpsse_buffer_init u) = Inr (True, t)"
    using assms(3) by (simp add: mpsse_set_tck_freq_def mpsse_buffer_flush_def mpsse_buffer_init_def)
  with r e f g u show ?thesis
    by (simp add: mpsse_init_def 1 2 open_op_def [symmetric] 3 Let_def v_def [symmetric])
qed

text \<open>
  After a successful initialisation from a fresh process the invariant of the driver holds,
  no cycle has been commanded, and the software state is the state the wire accounts for.
\<close>

lemma mpsse_init_ready:
  assumes "mpsse_init E cfg s = Inr (True, t)"
    and "usb_out s = []" "length (mpsse_buffer s) = BUFFER_LENGTH" "state s = TestLogicReset"
  shows "mpsse_inv t \<and> mpsse_wire t = [] \<and> tracks mpsse_wire t \<and> same_host s t"
proof -
  from mpsse_init_True [OF assms(1)] obtain s1 d w where i: "idle_host s s1"
    and t: "t = s1\<lparr>usb_out := usb_out s @ mpsse_setup_bytes (adapter_type cfg) @
                        [TCK_DIVISOR, of_int d, 0x00, DIS_DIV_5], mpsse_buffer_pos := 0, world := w\<rparr>" by blast
  have "stream t = mpsse_setup_bytes (adapter_type cfg) @ [TCK_DIVISOR, of_int d, 0x00, DIS_DIV_5]"
    using t assms(2) by (simp add: stream_def pending_def)
  then have "decode (stream t) = Some (init_cmds (adapter_type cfg) d)" by (simp only: decode_init)
  moreover have "mpsse_safe t" "state t = TestLogicReset" "same_host s t"
    using t i assms(3,4) by (auto simp: mpsse_safe_def idle_host_def same_host_def)
  ultimately show ?thesis
    by (simp add: mpsse_inv_def mpsse_wire_def tracks_def init_cmds_cycles)
qed

end
