(* ===== verification/Mpsse_Read.thy ===== *)
theory Mpsse_Read
  imports Mpsse_Clock
begin

text \<open>
  The receive path of the MPSSE driver against what the chip returns. \<open>answers\<close> relates a
  command list and the TDO bits sampled by it to the bytes of the reply: whole bytes
  hold their bits from bit 0 up, a shift of fewer than eight bits (and a TMS command) leaves
  them at the top of its byte and says nothing of the bits below. The round trip theorem
  states that \<open>mpsse_jtag_scan_chain_recv\<close>, fed with the reply to the commands of
  \<open>mpsse_jtag_scan_chain_send\<close>, rebuilds the sampled bits and consumes exactly that reply.
\<close>

fun answers :: "mpsse_cmd list \<Rightarrow> bool list \<Rightarrow> byte list \<Rightarrow> bool" where
  "answers [] tdo reply \<longleftrightarrow> tdo = [] \<and> reply = []"
| "answers (ShiftBytes ds True # cs) tdo reply \<longleftrightarrow>
     length ds \<le> length reply \<and> 8 * length ds \<le> length tdo \<and>
     (\<forall>i < 8 * length ds. bit_at reply i = tdo ! i) \<and>
     answers cs (drop (8 * length ds) tdo) (drop (length ds) reply)"
| "answers (ShiftBits n d True # cs) tdo reply \<longleftrightarrow>
     reply \<noteq> [] \<and> n \<le> length tdo \<and> (\<forall>j < min 8 n. bit (hd reply) (8 - n + j) = tdo ! j) \<and>
     answers cs (drop n tdo) (tl reply)"
| "answers (ClockTms n d True # cs) tdo reply \<longleftrightarrow>
     reply \<noteq> [] \<and> n \<le> length tdo \<and> (\<forall>j < min 8 n. bit (hd reply) (8 - n + j) = tdo ! j) \<and>
     answers cs (drop n tdo) (tl reply)"
| "answers (_ # cs) tdo reply \<longleftrightarrow> answers cs tdo reply"

lemma mpsse_read_loop_fifo:
  assumes "ftdi_fifo E q"
  shows "q (world s) = xs @ rest \<Longrightarrow> length got + length xs = len \<Longrightarrow> length xs \<le> polls \<Longrightarrow>
     \<exists>w. mpsse_read_loop E polls len got s = Inr (True, got @ xs, s\<lparr>world := w\<rparr>) \<and> q w = rest"
proof (induction polls arbitrary: got s xs)
  case 0
  then have "mpsse_read_loop E 0 len got s = Inr (True, got @ xs, s\<lparr>world := world s\<rparr>)" "q (world s) = rest"
    by simp_all
  then show ?case by blast
next
  case (Suc polls)
  show ?case
  proof (cases "xs = []")
    case True
    with Suc.prems have
      "mpsse_read_loop E (Suc polls) len got s = Inr (True, got @ xs, s\<lparr>world := world s\<rparr>)" "q (world s) = rest"
      by simp_all
    then show ?thesis by blast
  next
    case False
    then have less: "length got < len" "len - length got = length xs" using Suc.prems(2) by auto
    have pos: "0 < length xs" using False by simp
    from call_ftdi_read_fifo [OF assms Suc.prems(1) refl pos] obtain bs ys w where
      b: "xs = bs @ ys" "bs \<noteq> []" "q w = ys @ rest"
        "call_ftdi_read E (length xs) s = (Some bs, s\<lparr>world := w\<rparr>)" by blast
    have pre: "q (world (s\<lparr>world := w\<rparr>)) = ys @ rest" "length (got @ bs) + length ys = len"
      using b Suc.prems(2) by simp_all
    have "length ys \<le> polls" using b(1,2) Suc.prems(3) by (cases bs) auto
    from Suc.IH [OF pre this] obtain w' where
      "mpsse_read_loop E polls len (got @ bs) (s\<lparr>world := w\<rparr>) = Inr (True, got @ xs, s\<lparr>world := w'\<rparr>)"
      "q w' = rest" using b(1) by auto
    with b(4) less show ?thesis by auto
  qed
qed

lemma mpsse_last_loop_fifo:
  assumes "ftdi_fifo E q" "q (world s) = y # rest" "0 < polls"
  shows "\<exists>w. mpsse_last_loop E polls s = Inr (y, s\<lparr>world := w\<rparr>) \<and> q w = rest"
proof -
  from assms(3) obtain p where p: "polls = Suc p" by (cases polls) auto
  have one: "q (world s) = [y] @ rest" "1 = length [y]" using assms(2) by simp_all
  from call_ftdi_read_fifo [OF assms(1) one] obtain bs ys w where
    b: "[y] = bs @ ys" "bs \<noteq> []" "q w = ys @ rest" "call_ftdi_read E 1 s = (Some bs, s\<lparr>world := w\<rparr>)"
    by auto
  have "bs = [y]" "ys = []" using b(1,2) by (cases bs; simp)+
  with b p have "mpsse_last_loop E polls s = Inr (y, s\<lparr>world := w\<rparr>)" "q w = rest" by simp_all
  then show ?thesis by blast
qed

text \<open>The reply to a scan, cut into its three parts.\<close>

lemma answers_scan:
  assumes "answers (scan_cmds data n flip True) tdo reply" "0 < n" "n \<le> 8 * length data"
    and "b = bulk_bits n flip"
  obtains r1 r2 r3 where "reply = r1 @ r2 @ r3" "length r1 = b div 8" "length tdo = n"
    "\<forall>i < 8 * (b div 8). bit_at r1 i = tdo ! i"
    "length r2 = (if b mod 8 = 0 then 0 else 1)" "length r3 = (if flip then 1 else 0)"
    "b mod 8 \<noteq> 0 \<longrightarrow> (\<forall>j < b mod 8. bit (hd r2) (8 - b mod 8 + j) = tdo ! (8 * (b div 8) + j))"
    "flip \<longrightarrow> bit (hd r3) 7 = tdo ! (n - 1)"
proof -
  define L k where "L = b div 8" and "k = b mod 8"
  have b: "b = 8 * L + k" "n = (if flip then Suc b else b)" "k < 8"
    using assms(2,4) by (simp_all add: L_def k_def bulk_bits_def)
  have L: "length (take L data) = L" using b assms(3) by (auto split: if_splits)
  let ?T = "if flip then [ClockTms 1 (last_data (bit_at data (n - 1))) True] else []"
  let ?B = "if k = 0 then [] else [ShiftBits k (data ! L) True]"
  have cmds: "scan_cmds data n flip True =
      (if L = 0 then [] else [ShiftBytes (take L data) True]) @ ?B @ ?T"
    by (simp add: scan_cmds_def Let_def assms(4) [symmetric] L_def k_def)
  have a1: "L \<le> length reply" "8 * L \<le> length tdo" "\<forall>i < 8 * L. bit_at reply i = tdo ! i"
      "answers (?B @ ?T) (drop (8 * L) tdo) (drop L reply)"
    using assms(1) L unfolding cmds by (cases "L = 0"; simp)+
  define rep where "rep = drop L reply"
  have a2: "k \<noteq> 0 \<longrightarrow> rep \<noteq> []" "8 * L + k \<le> length tdo"
      "k \<noteq> 0 \<longrightarrow> (\<forall>j < k. bit (hd rep) (8 - k + j) = tdo ! (8 * L + j))"
      "answers ?T (drop (8 * L + k) tdo) (drop (if k = 0 then 0 else 1) rep)"
  proof -
    have a: "answers (?B @ ?T) (drop (8 * L) tdo) rep" using a1(4) by (simp only: rep_def)
    have "(k \<noteq> 0 \<longrightarrow> rep \<noteq> []) \<and> 8 * L + k \<le> length tdo \<and>
      (k \<noteq> 0 \<longrightarrow> (\<forall>j < k. bit (hd rep) (8 - k + j) = tdo ! (8 * L + j))) \<and>
      answers ?T (drop (8 * L + k) tdo) (drop (if k = 0 then 0 else 1) rep)"
    proof (cases "k = 0")
      case True
      with a a1(2) show ?thesis by simp
    next
      case False
      then have "answers (ShiftBits k (data ! L) True # ?T) (drop (8 * L) tdo) rep" using a by simp
      then have "rep \<noteq> []" "k \<le> length (drop (8 * L) tdo)"
          "\<forall>j < k. bit (hd rep) (8 - k + j) = drop (8 * L) tdo ! j"
          "answers ?T (drop k (drop (8 * L) tdo)) (tl rep)" using b(3) unfolding answers.simps by simp_all
      moreover have "drop k (drop (8 * L) tdo) = drop (8 * L + k) tdo" by (simp add: add.commute)
      ultimately show ?thesis using False a1(2) by (simp add: drop_Suc)
    qed
    then show "k \<noteq> 0 \<longrightarrow> rep \<noteq> []" "8 * L + k \<le> length tdo"
      "k \<noteq> 0 \<longrightarrow> (\<forall>j < k. bit (hd rep) (8 - k + j) = tdo ! (8 * L + j))"
      "answers ?T (drop (8 * L + k) tdo) (drop (if k = 0 then 0 else 1) rep)" by blast+
  qed
  define rep3 where "rep3 = drop (if k = 0 then 0 else 1) rep"
  have a3: "length tdo = n" "length rep3 = (if flip then 1 else 0)" "flip \<longrightarrow> bit (hd rep3) 7 = tdo ! (n - 1)"
  proof -
    have a: "answers ?T (drop b tdo) rep3" using a2(4) by (simp only: rep3_def b(1))
    have n: "n = (if flip then Suc b else b)" "b \<le> length tdo" using b(1,2) a2(2) by simp_all
    have "length tdo = n \<and> length rep3 = (if flip then 1 else 0) \<and> (flip \<longrightarrow> bit (hd rep3) 7 = tdo ! (n - 1))"
    proof (cases flip)
      case True
      with a have "answers [] (drop 1 (drop b tdo)) (tl rep3)" "rep3 \<noteq> []" "1 \<le> length (drop b tdo)"
          "\<forall>j < 1. bit (hd rep3) (8 - 1 + j) = drop b tdo ! j" by simp_all
      then show ?thesis using True n by (cases rep3) auto
    next
      case False
      with a n show ?thesis by simp
    qed
    then show "length tdo = n" "length rep3 = (if flip then 1 else 0)"
      "flip \<longrightarrow> bit (hd rep3) 7 = tdo ! (n - 1)" by blast+
  qed
  have "reply = take L reply @ take (if k = 0 then 0 else 1) rep @ rep3"
    unfolding rep_def rep3_def append_take_drop_id ..
  moreover have "\<forall>i < 8 * L. bit_at (take L reply) i = tdo ! i" using a1(3) by (simp add: bit_at_take)
  moreover have "length (take (if k = 0 then 0 else 1) rep) = (if k = 0 then 0 else 1)"
    using a2(1) by (cases rep) auto
  moreover have "k \<noteq> 0 \<longrightarrow> hd (take (if k = 0 then 0 else 1) rep) = hd rep" using a2(1) by (cases rep) auto
  ultimately show thesis
    using a1(1) a2(3) a3 by (intro that [of "take L reply" "take (if k = 0 then 0 else 1) rep" rep3])
      (simp_all add: L_def k_def)
qed

text \<open>After the read loop: the whole bytes are in place, the rest of the bits after the alignment.\<close>

lemma align_bits_whole:
  assumes "b mod 8 = 0" "8 * length r = b" "length r \<le> length buf"
  shows "mpsse_align_bits (write_at buf 0 r) b = Inr (write_at buf 0 r)"
    "bit_at (write_at buf 0 r) i = (if i < b then bit_at r i else bit_at buf i)"
  using assms by (auto simp: mpsse_align_bits_def bit_at_write_front)

text \<open>The byte that is moved: its \<open>k\<close> bits arrive at the top, and what is above them is cleared.\<close>

lemma align_bits_partial:
  assumes k: "b = 8 * L + k" "0 < k" "k < 8" and r: "length r = L" "L < length buf"
  shows "\<exists>buf'. mpsse_align_bits (write_at buf 0 (r @ [x])) b = Inr buf' \<and> length buf' = length buf \<and>
     (\<forall>i. bit_at buf' i = (if i div 8 = L then i mod 8 < k \<and> bit x (8 - k + i mod 8)
        else if i < 8 * L then bit_at r i else bit_at buf i))"
proof -
  let ?w = "write_at buf 0 (r @ [x])" and ?d = "drop_bit (8 - k) x"
  have "?w ! L = x" "length ?w = length buf" using r by (simp_all add: write_at_def nth_append)
  moreover have "b mod 8 = k" "b div 8 = L" using k by simp_all
  ultimately have al: "mpsse_align_bits ?w b = Inr (?w[L := ?d])"
    using r k(2) by (simp add: mpsse_align_bits_def)
  have "bit_at (?w[L := ?d]) i = (if i div 8 = L then i mod 8 < k \<and> bit x (8 - k + i mod 8)
        else if i < 8 * L then bit_at r i else bit_at buf i)" for i
  proof (cases "i div 8 = L")
    case True
    then have "bit_at (?w[L := ?d]) i = bit x (8 - k + i mod 8)"
      using r(2) \<open>length ?w = length buf\<close> by (simp add: bit_at_def bit_drop_bit_eq)
    moreover have "bit x (8 - k + i mod 8) \<Longrightarrow> i mod 8 < k"
      using bit_imp_le_length [of x "8 - k + i mod 8"] k(3) by simp
    ultimately show ?thesis using True by auto
  next
    case False
    then have "bit_at (?w[L := ?d]) i = bit_at ?w i" by (simp add: bit_at_def)
    moreover have "i < 8 * length (r @ [x]) \<longleftrightarrow> i < 8 * L"
    proof -
      have "i div 8 < Suc L \<longleftrightarrow> i div 8 < L" using False by auto
      then show ?thesis using r(1) unfolding div_less_bits by simp
    qed
    ultimately show ?thesis using False r by (simp add: bit_at_write_front bit_at_append)
  qed
  with al \<open>length ?w = length buf\<close> show ?thesis by auto
qed

lemma align_bits_answer:
  assumes "length r1 = b div 8" "length r2 = (if b mod 8 = 0 then 0 else 1)" "length (r1 @ r2) \<le> length buf"
    and "\<forall>i < 8 * (b div 8). bit_at r1 i = tdo ! i"
    and "b mod 8 \<noteq> 0 \<longrightarrow> (\<forall>j < b mod 8. bit (hd r2) (8 - b mod 8 + j) = tdo ! (8 * (b div 8) + j))"
  shows "\<exists>buf'. mpsse_align_bits (write_at buf 0 (r1 @ r2)) b = Inr buf' \<and> length buf' = length buf \<and>
     (\<forall>i<b. bit_at buf' i = tdo ! i) \<and>
     (\<forall>i. b \<le> i \<and> i < 8 * length buf \<longrightarrow>
        bit_at buf' i = (if b mod 8 \<noteq> 0 \<and> i div 8 = b div 8 then False else bit_at buf i))"
proof (cases "b mod 8 = 0")
  case True
  then have "8 * (b div 8) = b" "r2 = []" using mult_div_mod_eq [of 8 b] assms(2) by simp_all
  with True assms(1,3,4) align_bits_whole [OF True, of r1 buf] show ?thesis by auto
next
  case False
  define L k where "L = b div 8" and "k = b mod 8"
  have b: "b = 8 * L + k" "0 < k" "k < 8" using False by (simp_all add: L_def k_def)
  obtain x where x: "r2 = [x]" using assms(2) False by (auto simp: length_Suc_conv)
  have len: "length r1 = L" "L < length buf" using assms(1,3) x by (simp_all add: L_def)
  from align_bits_partial [OF b len, of x] obtain buf' where
    buf': "mpsse_align_bits (write_at buf 0 (r1 @ r2)) b = Inr buf'" "length buf' = length buf"
    and bits: "\<And>i. bit_at buf' i = (if i div 8 = L then i mod 8 < k \<and> bit x (8 - k + i mod 8)
        else if i < 8 * L then bit_at r1 i else bit_at buf i)" unfolding x by blast
  have i: "8 * (i div 8) + i mod 8 = i" for i :: nat by simp
  have "bit_at buf' i = tdo ! i" if "i < b" for i
  proof (cases "i div 8 = L")
    case True
    with i [of i] have j: "8 * L + i mod 8 = i" by simp
    with that b(1) have "i mod 8 < k" by linarith
    then show ?thesis using True assms(5) False x j bits [of i] by (simp add: L_def [symmetric] k_def [symmetric])
  next
    case ne: False
    have "i div 8 \<le> L" unfolding L_def using that by (intro div_le_mono) simp
    with ne have "i < 8 * L" by (simp add: div_less_bits [symmetric])
    then show ?thesis using ne assms(4) bits [of i] by (simp add: L_def)
  qed
  moreover have "bit_at buf' i = (if i div 8 = L then False else bit_at buf i)" if "b \<le> i" for i
  proof (cases "i div 8 = L")
    case True
    with i [of i] have "8 * L + i mod 8 = i" by simp
    with that b(1) have "\<not> i mod 8 < k" by linarith
    then show ?thesis using True bits [of i] by simp
  next
    case ne: False
    then show ?thesis using that b(1) bits [of i] by simp
  qed
  ultimately show ?thesis using buf' False by (intro exI [of _ buf']) (simp add: L_def [symmetric])
qed

text \<open>
  The receive function after its flush. When the scan ends on a byte boundary before the bit
  with TMS, that bit is or-ed into a byte the function does not clear, so the caller must have.
\<close>

lemma mpsse_recv_answer:
  assumes fifo: "ftdi_fifo E q" and polls: "4096 \<le> ext_polls E"
    and n: "0 < n" "n \<le> 8 * length data" "n \<le> 8 * length buf" "n \<le> SCAN_LIMIT"
    and flush: "mpsse_recv_flush E s = Inr (True, t)"
    and reply: "q (world t) = reply @ rest" "answers (scan_cmds data n flip True) tdo reply"
  shows "\<exists>buf' w. mpsse_jtag_scan_chain_recv E buf n flip s = Inr (True, buf', t\<lparr>world := w\<rparr>) \<and>
     ((flip \<and> (n - 1) mod 8 = 0 \<longrightarrow> \<not> bit_at buf (n - 1)) \<longrightarrow> bits_of buf' n = tdo) \<and>
     q w = rest \<and> length buf' = length buf"
proof -
  define b where "b = bulk_bits n flip"
  obtain r1 r2 r3 where
    r: "reply = r1 @ r2 @ r3" "length r1 = b div 8" "length tdo = n"
      "\<forall>i < 8 * (b div 8). bit_at r1 i = tdo ! i"
      "length r2 = (if b mod 8 = 0 then 0 else 1)" "length r3 = (if flip then 1 else 0)"
      "b mod 8 \<noteq> 0 \<longrightarrow> (\<forall>j < b mod 8. bit (hd r2) (8 - b mod 8 + j) = tdo ! (8 * (b div 8) + j))"
      "flip \<longrightarrow> bit (hd r3) 7 = tdo ! (n - 1)" by (rule answers_scan [OF reply(2) n(1,2) b_def])
  have b: "n = (if flip then Suc b else b)" using n(1) by (simp add: b_def bulk_bits_def)
  define len where "len = (b + 7) div 8"
  have n63: "n \<le> 2 ^ 63" using n(4) by (simp add: SCAN_LIMIT_def)
  have "length (r1 @ r2) = len"
    using r(2,5) unfolding len_def by (cases "b mod 8 = 0") (simp, presburger)+
  moreover have lenb: "len \<le> length buf" "len \<le> 4096"
    using n(3,4) b by (auto simp: len_def SCAN_LIMIT_def split: if_splits)
  ultimately have l: "length (r1 @ r2) \<le> length buf" "length [] + length (r1 @ r2) = len"
      "length (r1 @ r2) \<le> ext_polls E" using polls by simp_all
  have q: "q (world t) = (r1 @ r2) @ (r3 @ rest)" using reply(1) r(1) by simp
  from mpsse_read_loop_fifo [OF fifo q l(2,3)] obtain w where
    w: "mpsse_read_loop E (ext_polls E) len [] t = Inr (True, r1 @ r2, t\<lparr>world := w\<rparr>)" "q w = r3 @ rest"
    by auto
  let ?buf = "write_at buf 0 (replicate len 0)"
  have "write_at ?buf 0 (r1 @ r2) = write_at buf 0 (r1 @ r2)"
    using l lenb by (simp add: write_at_def)
  moreover from align_bits_answer [OF r(2,5) l(1) r(4,7)] obtain buf1 where
    a: "mpsse_align_bits (write_at buf 0 (r1 @ r2)) b = Inr buf1" "length buf1 = length buf"
      "\<forall>i<b. bit_at buf1 i = tdo ! i"
      "\<forall>i. b \<le> i \<and> i < 8 * length buf \<longrightarrow>
        bit_at buf1 i = (if b mod 8 \<noteq> 0 \<and> i div 8 = b div 8 then False else bit_at buf i)" by blast
  ultimately have unfold: "mpsse_jtag_scan_chain_recv E buf n flip s = mpsse_recv_last E buf1 n flip (t\<lparr>world := w\<rparr>)"
    using mpsse_recv_unfold [OF n(1) n63 n(3) flush, of len flip] w(1)
    by (simp add: b_def [symmetric] len_def [symmetric] Let_def)
  show ?thesis
  proof (cases flip)
    case False
    then have "bits_of buf1 n = tdo"
      using a(3) b r(3) by (auto intro: nth_equalityI)
    with False unfold w(2) a(2) r(6) show ?thesis by (auto simp: mpsse_recv_last_def)
  next
    case True
    then obtain y where y: "r3 = [y]" using r(6) by (auto simp: length_Suc_conv)
    from y w(2) have "q (world (t\<lparr>world := w\<rparr>)) = y # rest" by simp
    from mpsse_last_loop_fifo [OF fifo this, of "ext_polls E"] polls obtain w' where
      w': "mpsse_last_loop E (ext_polls E) (t\<lparr>world := w\<rparr>) = Inr (y, t\<lparr>world := w'\<rparr>)" "q w' = rest" by auto
    have nb: "n - 1 = b" "b < 8 * length buf1" using b True n(3) a(2) by simp_all
    then have bl: "b div 8 < length buf1" by (simp add: div_less_bits)
    let ?buf' = "or_bit buf1 b (bit y 7)"
    have "bits_of ?buf' n = tdo" if clear: "flip \<and> (n - 1) mod 8 = 0 \<longrightarrow> \<not> bit_at buf (n - 1)"
    proof -
      have "\<not> bit_at buf1 b"
        using a(2,4) clear nb True by (cases "b mod 8 = 0") auto
      then show ?thesis
        using a(3) r(3,8) y True b nb
        by (intro nth_equalityI) (auto simp: bit_at_or_bit less_Suc_eq)
    qed
    moreover have "mpsse_recv_last E buf1 n flip (t\<lparr>world := w\<rparr>) = Inr (True, ?buf', t\<lparr>world := w'\<rparr>)"
      using True w'(1) bl nb n(1) by (simp add: mpsse_recv_last_def)
    ultimately show ?thesis using unfold w'(2) a(2) by auto
  qed
qed

section \<open>Properties\<close>

lemma mpsse_start_inv: "mpsse_inv (mpsse_start w)" "mpsse_wire (mpsse_start w) = []"
  "mpsse_safe (mpsse_start w)"
  by (simp_all add: mpsse_inv_def mpsse_wire_def mpsse_safe_def stream_def pending_def)

text \<open>
  C15: \<open>mpsse_jtag_tms_seq\<close> clocks exactly the TMS bits it is given. From any state of the driver
  and with data inside its array it ends without a fault and leaves the client side alone;
  when it reports success, the chip's reading of the byte stream (sent and buffered) has grown
  by one cycle per bit, with these TMS values and nothing captured.
\<close>

theorem mpsse_tms_seq_exact:
  assumes "mpsse_inv s" "n \<le> 8 * length data"
  shows "\<exists>ok t. mpsse_jtag_tms_seq E data n s = Inr (ok, t) \<and> same_host s t \<and> state t = state s \<and>
     (mpsse_live E \<longrightarrow> ok) \<and>
     (ok \<longrightarrow> mpsse_inv t \<and> (\<exists>cyc. mpsse_wire t = mpsse_wire s @ cyc \<and> tms_bits cyc = bits_of data n \<and>
        (\<forall>c \<in> set cyc. \<not> cyc_cap c)))"
  by (rule mpsse_tms_contract [OF assms])

theorem mpsse_tms_seq_exact_witness:
  "\<exists>t cyc. mpsse_jtag_tms_seq (zeros_ext 4096) [0x06] 5 (mpsse_start ()) = Inr (True, t) \<and>
     mpsse_wire t = cyc \<and> tms_bits cyc = [False, True, True, False, False]"
  using mpsse_tms_seq_exact [OF mpsse_start_inv(1), of 5 "[0x06]" "zeros_ext 4096"]
  by (auto simp: mpsse_live_def mpsse_start_inv bits_of_byte)

text \<open>
  C6: \<open>mpsse_jtag_scan_chain_send\<close> clocks exactly the scan it is given, for any number of bits up
  to 32704 and any split into whole bytes, remaining bits and last bit: cycle \<open>i\<close> carries
  \<open>data\<close> bit \<open>i\<close> on TDI, TMS is low but with the last bit when \<open>flip_tms\<close> is set, TDO is
  captured when \<open>do_read\<close> is set, and the software state follows.
\<close>

theorem mpsse_scan_send_exact:
  assumes "mpsse_inv s" "tms_low (mpsse_wire s)" "0 < n" "n \<le> 8 * length data" "n \<le> SCAN_LIMIT"
  shows "\<exists>ok t. mpsse_jtag_scan_chain_send E data n flip rd s = Inr (ok, t) \<and> same_host s t \<and>
     (mpsse_live E \<longrightarrow> ok) \<and>
     (ok \<longrightarrow> mpsse_inv t \<and> state t = (if flip then next_state (state s) True else state s) \<and>
        mpsse_wire t = mpsse_wire s @
          map (\<lambda>i. Cycle (flip \<and> Suc i = n) (Some (bit_at data i)) rd) [0..<n])"
  using mpsse_send_contract [OF assms, of E flip rd] by (simp add: scan_cycles_def)

lemma sample_shift_state:
  "\<exists>t. mpsse_jtag_tms_seq (zeros_ext 4096) [0x02] 4 (mpsse_start ()) = Inr (True, t) \<and>
     mpsse_inv t \<and> tms_low (mpsse_wire t)"
proof -
  from mpsse_tms_contract [OF mpsse_start_inv(1), of 4 "[0x02]" "zeros_ext 4096"] obtain t cyc where
    t: "mpsse_jtag_tms_seq (zeros_ext 4096) [0x02] 4 (mpsse_start ()) = Inr (True, t)" "mpsse_inv t"
      "mpsse_wire t = cyc" "tms_bits cyc = bits_of [0x02] 4"
    by (auto simp: mpsse_live_def mpsse_start_inv)
  then have "cyc \<noteq> []" "cyc_tms (last cyc) = last (tms_bits cyc)"
    by (auto simp: bits_of_byte last_map)
  with t show ?thesis by (simp add: tms_low_def bits_of_byte)
qed

theorem mpsse_scan_send_exact_witness:
  "\<exists>(s :: unit mpsse_state) t. mpsse_jtag_scan_chain_send (zeros_ext 4096) [0x55, 0x03] 10 True True s = Inr (True, t) \<and>
     mpsse_wire t = mpsse_wire s @
       map (\<lambda>i. Cycle (True \<and> Suc i = 10) (Some (bit_at [0x55, 0x03] i)) True) [0..<10]"
proof -
  obtain s where s: "mpsse_inv s" "tms_low (mpsse_wire (s :: unit mpsse_state))"
    using sample_shift_state by blast
  have "0 < (10 :: nat)" "10 \<le> 8 * length [0x55, 0x03 :: byte]" "10 \<le> SCAN_LIMIT"
    by (simp_all add: SCAN_LIMIT_def)
  from mpsse_scan_send_exact [OF s this, of "zeros_ext 4096" True True]
  have "\<exists>t. mpsse_jtag_scan_chain_send (zeros_ext 4096) [0x55, 0x03] 10 True True s = Inr (True, t) \<and>
     mpsse_wire t = mpsse_wire s @
       map (\<lambda>i. Cycle (True \<and> Suc i = 10) (Some (bit_at [0x55, 0x03] i)) True) [0..<10]"
    by (auto simp: mpsse_live_def simp del: upt_Suc)
  then show ?thesis by (rule exI)
qed

text \<open>
  C5: round trip of a captured scan. After the flush of \<open>mpsse_jtag_scan_chain_recv\<close> let the
  adapter's queue hold the chip's reply to the commands of the scan (\<open>answers\<close>, for TDO bits
  \<open>tdo\<close>), followed by anything. Then the function succeeds, the first \<open>n\<close> bits of the
  caller's array are exactly \<open>tdo\<close>, and exactly the reply has been consumed, however the
  transfers were cut into packets. Where the last bit starts a byte of its own, that bit of the
  caller's array must have been clear.
\<close>

theorem mpsse_scan_recv_roundtrip:
  assumes "ftdi_fifo E q" "4096 \<le> ext_polls E"
    and "0 < n" "n \<le> 8 * length data" "n \<le> 8 * length buf" "n \<le> SCAN_LIMIT"
    and "mpsse_recv_flush E s = Inr (True, t)"
    and "q (world t) = reply @ rest" "answers (scan_cmds data n flip True) tdo reply"
    and "flip \<and> (n - 1) mod 8 = 0 \<longrightarrow> \<not> bit_at buf (n - 1)"
  shows "\<exists>buf' w. mpsse_jtag_scan_chain_recv E buf n flip s = Inr (True, buf', t\<lparr>world := w\<rparr>) \<and>
     bits_of buf' n = tdo \<and> q w = rest \<and> length buf' = length buf"
  using mpsse_recv_answer [OF assms(1-9)] assms(10) by blast

theorem mpsse_scan_recv_roundtrip_witness:
  "\<exists>buf' w. mpsse_jtag_scan_chain_recv (queue_ext 4096) [0xFF, 0xFF] 10 True (mpsse_start ([0x0F, 0x80, 0x00, 0x42], [])) =
       Inr (True, buf', (mpsse_start ([0x0F, 0x80, 0x00, 0x42], []))\<lparr>world := w\<rparr>) \<and>
     bits_of buf' 10 = [True, True, True, True, False, False, False, False, True, False] \<and> fst w = [0x42]"
proof -
  let ?s = "mpsse_start ([0x0F, 0x80, 0x00, 0x42], [])"
  have "answers (scan_cmds [0, 0] 10 True True)
      [True, True, True, True, False, False, False, False, True, False] [0x0F, 0x80, 0x00]"
    by code_simp
  moreover have "mpsse_recv_flush (queue_ext 4096) ?s = Inr (True, ?s)"
    by (simp add: mpsse_recv_flush_def mpsse_buffer_is_empty_def)
  ultimately have "\<exists>buf' w. mpsse_jtag_scan_chain_recv (queue_ext 4096) [0xFF, 0xFF] 10 True ?s =
       Inr (True, buf', ?s\<lparr>world := w\<rparr>) \<and>
     bits_of buf' 10 = [True, True, True, True, False, False, False, False, True, False] \<and> fst w = [0x42] \<and>
     length buf' = length [0xFF, 0xFF :: byte]"
    by (intro mpsse_scan_recv_roundtrip [where reply = "[0x0F, 0x80, 0x00]" and data = "[0, 0]"])
      (simp_all add: SCAN_LIMIT_def)
  then show ?thesis by blast
qed

text \<open>
  \<open>mpsse_jtag_clock_tck\<close> produces exactly the number of TCK cycles asked for, up to 524288,
  split into groups of eight and a rest, with TMS held and without a capture; bytes still in the
  buffer go out first.
\<close>

lemma mpsse_clock_tck_exact:
  assumes "mpsse_inv s" "mpsse_wire s \<noteq> []" "count \<le> CLOCK_LIMIT"
  shows "\<exists>ok t. mpsse_jtag_clock_tck E count s = Inr (ok, t) \<and> same_host s t \<and> state t = state s \<and>
     (mpsse_live E \<longrightarrow> ok) \<and>
     (ok \<longrightarrow> mpsse_inv t \<and>
        mpsse_wire t = mpsse_wire s @ replicate count (Cycle (cyc_tms (last (mpsse_wire s))) None False))"
  by (rule mpsse_clock_contract [OF assms])

text \<open>
  C30: the divisor for a requested frequency of 1 to 30 MHz fits the byte it is sent in, gives a
  clock \<open>60 / (2 * (1 + divisor))\<close> MHz that does not exceed the request, and is the smallest
  such divisor.
\<close>

theorem tck_divisor_best:
  assumes "1 \<le> f" "f \<le> 30"
  shows "\<exists>d. tck_divisor (of_nat f) = Inr (int d) \<and> d < 256 \<and>
     60 \<le> f * (2 * (1 + d)) \<and> (\<forall>e<d. f * (2 * (1 + e)) < 60)"
proof -
  define q where "q = (29 + f) div f"
  have f: "unat (of_nat f :: 64 word) = f" using assms(2) by (simp only: unat_of_nat) simp
  then have "(of_nat f :: 64 word) \<noteq> 0" using assms(1) by (intro notI) simp
  then have "0 < (of_nat f :: 64 word)" by (simp only: word_gt_0)
  then have d: "tck_divisor (of_nat f) = Inr (int ((29 + f) div f - 1))"
    using tck_divisor_eq [of "of_nat f"] f assms(2) by simp
  have q: "30 \<le> f * q" "f * (q - 1) < 30" "q \<le> 30"
    using ceiling_divisor [of f] assms by (simp_all add: q_def)
  have "q \<noteq> 0" using q(1) by (intro notI) simp
  have "f * (2 * (1 + e)) < 60" if "e < q - 1" for e
  proof -
    have "f * (1 + e) \<le> f * (q - 1)" using that by (intro mult_le_mono) auto
    then show ?thesis using q(2) by simp
  qed
  with d q \<open>q \<noteq> 0\<close> show ?thesis
    by (intro exI [of _ "q - 1"]) (simp add: q_def [symmetric])
qed

theorem tck_divisor_best_witness:
  "\<exists>d. tck_divisor (of_nat 15) = Inr (int d) \<and> d < 256 \<and> 60 \<le> 15 * (2 * (1 + d))"
  using tck_divisor_best [of 15] by auto

text \<open>
  C31: a frequency of 0 MHz, which the option \<open>-f 0\<close> and a slow XVC \<open>settck\<close> produce, is a
  division by zero in \<open>mpsse_set_tck_freq\<close>, and so is one within 29 of the largest 64 bit number.
\<close>

theorem tck_freq_faults:
  assumes "freq = 0 \<or> 2 ^ 64 - 29 \<le> unat freq" "mpsse_buffer_flush E s = (True, t)"
  shows "mpsse_set_tck_freq E freq s = Inl DivisionByZero"
  using assms tck_divisor_zero tck_divisor_wraps [of freq] by (auto simp: mpsse_set_tck_freq_def)

theorem tck_freq_faults_witness:
  "mpsse_set_tck_freq (zeros_ext 1) 0 (mpsse_start ()) = Inl DivisionByZero"
  by (rule tck_freq_faults [where t = "mpsse_start ()"]) (simp_all add: mpsse_buffer_flush_def)

text \<open>
  C19: a successful \<open>mpsse_init\<close> of a fresh process establishes what every other operation
  relies on: the driver invariant, no cycle on the wire yet, and a software state that agrees
  with the wire. It succeeds when libftdi's calls do and the frequency is 1 to 30 MHz.
\<close>

theorem mpsse_init_establishes:
  "(mpsse_init E cfg s = Inr (True, t) \<and> usb_out s = [] \<and>
      length (mpsse_buffer s) = BUFFER_LENGTH \<and> state s = TestLogicReset \<longrightarrow>
    mpsse_inv t \<and> mpsse_wire t = [] \<and> tracks mpsse_wire t) \<and>
   (ftdi_control_works E \<and> usb_writes_accepted E \<and> freq_mhz cfg \<noteq> 0 \<and> freq_mhz cfg \<le> 30 \<longrightarrow>
    (\<exists>t. mpsse_init E cfg s = Inr (True, t)))"
proof -
  have "\<exists>d. tck_divisor (freq_mhz cfg) = Inr d" if "freq_mhz cfg \<noteq> 0" "freq_mhz cfg \<le> 30"
  proof -
    have "unat (freq_mhz cfg) \<le> 30" using that(2) by (simp add: word_le_nat_alt)
    then have "unat (freq_mhz cfg) \<le> 2 ^ 64 - 30" by simp
    with that(1) show ?thesis using tck_divisor_eq [of "freq_mhz cfg"] by (auto simp: word_gt_0)
  qed
  then show ?thesis using mpsse_init_ready [of E cfg s t] mpsse_init_works [of E cfg _ s] by blast
qed

theorem mpsse_init_establishes_witness:
  "\<exists>t. mpsse_init (zeros_ext 4096) \<lparr>ftdi_vid = 0x0403, ftdi_pid = 0x6011, ftdi_channel = 1,
       adapter_type = Adapter_Xilinx, freq_mhz = 15, use_bus_addr = False, usb_bus_addr = 1,
       usb_dev_addr = 1\<rparr> (mpsse_start ()) = Inr (True, t) \<and> mpsse_inv t \<and> mpsse_wire t = []"
proof -
  let ?c = "\<lparr>ftdi_vid = 0x0403, ftdi_pid = 0x6011, ftdi_channel = 1,
       adapter_type = Adapter_Xilinx, freq_mhz = 15, use_bus_addr = False, usb_bus_addr = 1, usb_dev_addr = 1\<rparr>"
  have "ftdi_control_works (zeros_ext 4096)" by (simp add: ftdi_control_works_def zeros_ext_def)
  then obtain t where t: "mpsse_init (zeros_ext 4096) ?c (mpsse_start ()) = Inr (True, t)"
    using mpsse_init_establishes [of "zeros_ext 4096" ?c "mpsse_start ()"] by auto
  with mpsse_init_establishes [of "zeros_ext 4096" ?c "mpsse_start ()" t] show ?thesis by auto
qed

end
