(* ===== verification/Usb_Blaster.thy ===== *)
theory Usb_Blaster
  imports Driver
begin

text \<open>
  src/usb_blaster.cpp: the driver for the USB Blaster, which is driven by pin values
  (bit-bang bytes) and by byte-shift packets of at most 32 bytes. Captured data is read back
  while the scan is sent and kept in an array of 4096 bytes until
  \<open>usb_blaster_jtag_scan_chain_recv\<close> collects it. The last section computes the bytes the operations send.
\<close>

record 'w blaster_state = "'w common_state" +
  recv_buffer :: "byte list"
  recv_buffer_len :: nat

definition RECV_SIZE :: nat where
  "RECV_SIZE = 4096"

definition blaster_start :: "'w \<Rightarrow> 'w blaster_state" where
  "blaster_start w = common_state.extend (process_start w) (blaster_state.fields (replicate RECV_SIZE 0) 0)"

definition MAX_PACKET_SIZE :: nat where
  "MAX_PACKET_SIZE = 32"

section \<open>The operations\<close>

definition build_command :: "bool \<Rightarrow> bool \<Rightarrow> bool \<Rightarrow> bool \<Rightarrow> byte" where
  "build_command tms tdi tck rd =
     (if tck then 1 else 0) OR (if tms then 2 else 0) OR 4 OR 8 OR
     (if tdi then 16 else 0) OR 32 OR (if rd then 64 else 0)"

text \<open>\<open>bit\<close> keeps its (uninitialised) value when there is no bit to send.\<close>

fun blaster_tms_loop :: "byte list \<Rightarrow> nat \<Rightarrow> nat \<Rightarrow> bool option \<Rightarrow> byte list
    \<Rightarrow> (bool option \<times> byte list) result" where
  "blaster_tms_loop data i 0 last_bit out = Inr (last_bit, out)"
| "blaster_tms_loop data i (Suc k) last_bit out =
     bindR (read_bit data i) (\<lambda>b.
       blaster_tms_loop data (Suc i) k (Some b)
         (out @ [build_command b False False False, build_command b False True False]))"

definition usb_blaster_jtag_tms_seq :: "'w ext \<Rightarrow> byte list \<Rightarrow> nat \<Rightarrow> ('w, 'z) blaster_state_scheme op" where
  "usb_blaster_jtag_tms_seq E data num_bits s =
     bindR (blaster_tms_loop data 0 num_bits None []) (\<lambda>(last_bit, out).
       case last_bit of
         None \<Rightarrow> Inl Uninitialised
       | Some b \<Rightarrow> Inr (ftdi_write_retry E (out @ [build_command b False False False]) s))"

text \<open>\<open>while (ftdi_read_data(ftdi, &data, 1) > 0);\<close>\<close>

fun blaster_drain :: "'w ext \<Rightarrow> nat \<Rightarrow> ('w, 'z) blaster_state_scheme \<Rightarrow> ('w, 'z) blaster_state_scheme result" where
  "blaster_drain E 0 s = Inl Diverges"
| "blaster_drain E (Suc polls) s =
     (case call_ftdi_read E 1 s of
        (Some (b # bs), s) \<Rightarrow> blaster_drain E polls s
      | (_, s) \<Rightarrow> Inr s)"

definition usb_blaster_init :: "'w ext \<Rightarrow> config \<Rightarrow> ('w, 'z) blaster_state_scheme op" where
  "usb_blaster_init E cfg s =
     (case call_ftdi_control E Ftdi_new s of (h, s) \<Rightarrow>
      if h = 0 then Inl AssertionFailed else
      case call_ftdi_control E (Ftdi_usb_open (ftdi_vid cfg) (ftdi_pid cfg)) s of (ret, s) \<Rightarrow>
      if ret \<noteq> 0 then Inr (False, s) else
      bindR (control_assert E Ftdi_usb_reset s) (\<lambda>s.
      bindR (control_assert E (Ftdi_set_baudrate 115200) s) (\<lambda>s.
      bindR (control_assert E (Ftdi_set_latency_timer 1) s) (\<lambda>s.
      let s = snd (call_ftdi_control E Ftdi_disable_bitbang s) in
      check_then
        (Inr (ftdi_write_retry E (map (\<lambda>i. build_command False False (i mod 2 = 1) False) [0..<4096]) s)) (\<lambda>s.
      bindR (blaster_drain E (ext_polls E) s) (\<lambda>s.
      bindR (usb_blaster_jtag_tms_seq E [0xff] 5 s) (\<lambda>(_, s).
      Inr (True, s))))))))"

definition usb_blaster_deinit :: "('w, 'z) blaster_state_scheme op" where
  "usb_blaster_deinit s = Inr (True, s)"

text \<open>\<open>ftdi_read_retry(ftdi, &recv_buffer[recv_buffer_len], trans)\<close> and the update of the length.\<close>

definition blaster_read :: "'w ext \<Rightarrow> nat \<Rightarrow> ('w, 'z) blaster_state_scheme op" where
  "blaster_read E chunk s =
     (case ftdi_read_retry E chunk s of (ok, got, s) \<Rightarrow>
        if length (recv_buffer s) < recv_buffer_len s + length got then Inl OutOfBounds
        else
          let s = s\<lparr>recv_buffer := write_at (recv_buffer s) (recv_buffer_len s) got\<rparr> in
          if ok then Inr (True, s\<lparr>recv_buffer_len := recv_buffer_len s + chunk\<rparr>) else Inr (False, s))"

definition shift_packet :: "byte list \<Rightarrow> nat \<Rightarrow> nat \<Rightarrow> bool \<Rightarrow> byte list" where
  "shift_packet data i chunk rd =
     (0x80 OR (if rd then 64 else 0) OR of_nat chunk) # take chunk (drop i data)"

text \<open>The loop over the packets: \<open>k\<close> of them are left, the next starts at byte \<open>i\<close>.\<close>

fun blaster_bytes_loop :: "'w ext \<Rightarrow> byte list \<Rightarrow> nat \<Rightarrow> bool \<Rightarrow> nat \<Rightarrow> nat \<Rightarrow> ('w, 'z) blaster_state_scheme op" where
  "blaster_bytes_loop E data len rd i 0 s = Inr (True, s)"
| "blaster_bytes_loop E data len rd i (Suc k) s =
     (let chunk = min (len - i) MAX_PACKET_SIZE in
      if length data < i + chunk then Inl OutOfBounds
      else
        check_then (Inr (ftdi_write_retry E (shift_packet data i chunk rd) s)) (\<lambda>s.
        check_then (if rd then blaster_read E chunk s else Inr (True, s)) (\<lambda>s.
        blaster_bytes_loop E data len rd (i + chunk) k s)))"

definition blaster_send_bytes :: "'w ext \<Rightarrow> byte list \<Rightarrow> nat \<Rightarrow> bool \<Rightarrow> ('w, 'z) blaster_state_scheme op" where
  "blaster_send_bytes E data len rd s =
     blaster_bytes_loop E data len rd 0 ((len + (MAX_PACKET_SIZE - 1)) div MAX_PACKET_SIZE) s"

fun blaster_bits_loop :: "byte list \<Rightarrow> nat \<Rightarrow> bool \<Rightarrow> nat \<Rightarrow> byte list \<Rightarrow> byte list result" where
  "blaster_bits_loop data offset rd 0 out = Inr out"
| "blaster_bits_loop data offset rd (Suc k) out =
     bindR (read_bit data offset) (\<lambda>b.
       blaster_bits_loop data (Suc offset) rd k
         (out @ [build_command False b False False, build_command False b True rd]))"

definition blaster_send_bits :: "'w ext \<Rightarrow> byte list \<Rightarrow> nat \<Rightarrow> bool \<Rightarrow> ('w, 'z) blaster_state_scheme op" where
  "blaster_send_bits E data bulk rd s =
     (if bulk mod 8 = 0 then Inr (True, s)
      else bindR (blaster_bits_loop data (bulk div 8 * 8) rd (bulk mod 8) []) (\<lambda>out.
        check_then (Inr (ftdi_write_retry E out s)) (\<lambda>s.
        if rd then blaster_read E (bulk mod 8) s else Inr (True, s))))"

definition blaster_send_last :: "'w ext \<Rightarrow> byte list \<Rightarrow> nat \<Rightarrow> bool \<Rightarrow> bool \<Rightarrow> ('w, 'z) blaster_state_scheme op" where
  "blaster_send_last E data num_bits flip rd s0 =
     (if \<not> flip then Inr (True, s0)
      else
        let s = s0\<lparr>state := next_state (state s0) True\<rparr> in
        bindR (read_bit data (size_dec num_bits)) (\<lambda>b.
        check_then (Inr (ftdi_write_retry E
            [build_command True b False False, build_command True b True rd, build_command True b False False] s)) (\<lambda>s.
        if rd then blaster_read E 1 s else Inr (True, s))))"

definition usb_blaster_jtag_scan_chain_send :: "'w ext \<Rightarrow> byte list \<Rightarrow> nat \<Rightarrow> bool \<Rightarrow> bool
    \<Rightarrow> ('w, 'z) blaster_state_scheme op" where
  "usb_blaster_jtag_scan_chain_send E data num_bits flip do_read s =
     (let bulk = bulk_bits num_bits flip in
      if recv_buffer_len s \<noteq> 0 then Inl AssertionFailed
      else
        check_then (blaster_send_bytes E data (bulk div 8) do_read s) (\<lambda>s.
        check_then (blaster_send_bits E data bulk do_read s) (\<lambda>s.
        blaster_send_last E data num_bits flip do_read s)))"

fun blaster_rest_loop :: "byte list \<Rightarrow> nat \<Rightarrow> nat \<Rightarrow> nat \<Rightarrow> byte list \<Rightarrow> byte list result" where
  "blaster_rest_loop rb offset i 0 recv = Inr recv"
| "blaster_rest_loop rb offset i (Suc k) recv =
     (if offset < length rb \<and> i div 8 < length recv then
        blaster_rest_loop rb (Suc offset) (Suc i) k (or_bit recv i (bit (rb ! offset) 0))
      else Inl OutOfBounds)"

definition blaster_recv_last :: "byte list \<Rightarrow> nat \<Rightarrow> byte list \<Rightarrow> nat \<Rightarrow> bool \<Rightarrow> (nat \<times> byte list) result" where
  "blaster_recv_last rb offset recv num_bits flip =
     (if \<not> flip then Inr (offset, recv)
      else if length rb \<le> offset then Inl OutOfBounds
      else if \<not> bit (rb ! offset) 0 then Inr (offset + 1, recv)
      else if size_dec num_bits div 8 < length recv then
        Inr (offset + 1, or_bit recv (size_dec num_bits) True)
      else Inl OutOfBounds)"

definition usb_blaster_jtag_scan_chain_recv :: "byte list \<Rightarrow> nat \<Rightarrow> bool \<Rightarrow> ('w, 'z) blaster_state_scheme
    \<Rightarrow> (bool \<times> byte list \<times> ('w, 'z) blaster_state_scheme) result" where
  "usb_blaster_jtag_scan_chain_recv recv num_bits flip s =
     (let bulk = bulk_bits num_bits flip; len = (bulk + 7) mod 2 ^ 64 div 8 in
      if length recv < len \<or> length (recv_buffer s) < bulk div 8 then Inl OutOfBounds
      else
        bindR (blaster_rest_loop (recv_buffer s) (bulk div 8) (bulk div 8 * 8) (bulk mod 8)
                 (write_at (write_at recv 0 (replicate len 0)) 0 (take (bulk div 8) (recv_buffer s)))) (\<lambda>recv.
        bindR (blaster_recv_last (recv_buffer s) (bulk div 8 + bulk mod 8) recv num_bits flip) (\<lambda>(offset, recv).
        if offset \<noteq> recv_buffer_len s then Inl AssertionFailed
        else Inr (True, recv, s\<lparr>recv_buffer_len := 0\<rparr>))))"

definition usb_blaster_set_tck_freq :: "64 word \<Rightarrow> ('w, 'z) blaster_state_scheme op" where
  "usb_blaster_set_tck_freq freq s = Inr (True, s)"

definition usb_blaster_jtag_clock_tck :: "nat \<Rightarrow> ('w, 'z) blaster_state_scheme op" where
  "usb_blaster_jtag_clock_tck count s = Inr (True, s)"

definition usb_blaster_driver :: "'w ext \<Rightarrow> ('w, 'z) blaster_state_scheme driver" where
  "usb_blaster_driver E = \<lparr>
     drv_init = usb_blaster_init E,
     drv_deinit = usb_blaster_deinit,
     drv_set_tck_freq = usb_blaster_set_tck_freq,
     drv_tms_seq = usb_blaster_jtag_tms_seq E,
     drv_scan_send = usb_blaster_jtag_scan_chain_send E,
     drv_scan_recv = usb_blaster_jtag_scan_chain_recv,
     drv_clock_tck = usb_blaster_jtag_clock_tck\<rparr>"

section \<open>What the operations send and collect\<close>

text \<open>\<open>collected\<close> is the captured data waiting to be fetched.\<close>

definition blaster_safe :: "('w, 'z) blaster_state_scheme \<Rightarrow> bool" where
  "blaster_safe s \<longleftrightarrow> length (recv_buffer s) = RECV_SIZE \<and> recv_buffer_len s \<le> RECV_SIZE"

definition collected :: "('w, 'z) blaster_state_scheme \<Rightarrow> byte list" where
  "collected s = take (recv_buffer_len s) (recv_buffer s)"

lemma length_collected: "blaster_safe s \<Longrightarrow> length (collected s) = recv_buffer_len s"
  by (simp add: collected_def blaster_safe_def)

definition clock_pair :: "bool \<Rightarrow> bool \<Rightarrow> bool \<Rightarrow> byte list" where
  "clock_pair tms tdi rd = [build_command tms tdi False False, build_command tms tdi True rd]"

lemma tms_loop_out:
  "i + k \<le> 8 * length data \<Longrightarrow>
     blaster_tms_loop data i k b out = Inr (if k = 0 then b else Some (bit_at data (i + k - 1)),
       out @ concat (map (\<lambda>j. clock_pair (bit_at data j) False False) [i..<i + k]))"
  by (induction k arbitrary: i b out) (auto simp: clock_pair_def upt_conv_Cons simp del: upt_Suc)

definition packets :: "byte list \<Rightarrow> nat \<Rightarrow> bool \<Rightarrow> nat \<Rightarrow> nat \<Rightarrow> byte list" where
  "packets data len rd j m = concat (map (\<lambda>j. shift_packet data (32 * j) (min (len - 32 * j) 32) rd) [j..<m])"

lemma bits_loop_out:
  "offset + k \<le> 8 * length data \<Longrightarrow>
     blaster_bits_loop data offset rd k out =
       Inr (out @ concat (map (\<lambda>j. clock_pair False (bit_at data j) rd) [offset..<offset + k]))"
  by (induction k arbitrary: offset out) (auto simp: clock_pair_def upt_conv_Cons simp del: upt_Suc)

definition rest_bytes :: "byte list \<Rightarrow> nat \<Rightarrow> bool \<Rightarrow> byte list" where
  "rest_bytes data bulk rd = concat (map (\<lambda>j. clock_pair False (bit_at data j) rd) [8 * (bulk div 8)..<bulk])"

definition last_bytes :: "byte list \<Rightarrow> nat \<Rightarrow> bool \<Rightarrow> bool \<Rightarrow> byte list" where
  "last_bytes data n flip rd =
     (if flip then clock_pair True (bit_at data (n - 1)) rd @ [build_command True (bit_at data (n - 1)) False False]
      else [])"

definition got_count :: "nat \<Rightarrow> bool \<Rightarrow> bool \<Rightarrow> nat" where
  "got_count n flip rd =
     (if rd then bulk_bits n flip div 8 + bulk_bits n flip mod 8 + (if flip then 1 else 0) else 0)"

definition blaster_scan_bytes :: "byte list \<Rightarrow> nat \<Rightarrow> bool \<Rightarrow> bool \<Rightarrow> byte list" where
  "blaster_scan_bytes data n flip rd =
     (let bulk = bulk_bits n flip in
      packets data (bulk div 8) rd 0 ((bulk div 8 + 31) div 32) @ rest_bytes data bulk rd @ last_bytes data n flip rd)"

end
