(* ===== verification/Usb_Blaster_Wire.thy ===== *)
theory Usb_Blaster_Wire
  imports Usb_Blaster
begin

text \<open>
  The specification side of the USB Blaster driver. The adapter reads a byte with bit 7 set as
  the header of a byte-shift packet (bit 6: capture, bits 5 to 0: number of bytes), any other
  byte as new pin values; a cycle happens where TCK rises, and for each bit of a byte-shift
  packet with TMS held at its last level. \<open>blaster_wire\<close> is what the bytes sent so far mean; the
  last section shows what \<open>usb_blaster_jtag_scan_chain_recv\<close> makes of the bytes collected.
\<close>

section \<open>The protocol of the adapter\<close>

datatype blaster_cmd =
    Pins byte
  | Shift "byte list" bool

fun parse_blaster :: "byte list \<Rightarrow> (blaster_cmd \<times> byte list) option" where
  "parse_blaster [] = None"
| "parse_blaster (c # bs) =
     (if bit c 7 then
        (let n = unat (c AND 0x3F) in
         if n \<le> length bs then Some (Shift (take n bs) (bit c 6), drop n bs) else None)
      else Some (Pins c, bs))"

lemma parse_blaster_length: "parse_blaster bs = Some (c, r) \<Longrightarrow> length r < length bs"
  by (cases bs) (auto simp: Let_def split: if_splits)

function blaster_decode :: "byte list \<Rightarrow> blaster_cmd list option" where
  "blaster_decode bs =
     (if bs = [] then Some []
      else case parse_blaster bs of None \<Rightarrow> None
           | Some (c, r) \<Rightarrow> map_option (Cons c) (blaster_decode r))"
  by pat_completeness auto
termination
  by (relation "measure length") (auto dest: parse_blaster_length)

declare blaster_decode.simps [simp del]

lemma blaster_decode_Nil [simp]: "blaster_decode [] = Some []"
  by (simp add: blaster_decode.simps)

lemma blaster_decode_step:
  "parse_blaster bs = Some (c, r) \<Longrightarrow> blaster_decode bs = map_option (Cons c) (blaster_decode r)"
  by (cases "bs = []") (simp_all add: blaster_decode.simps [of bs] del: parse_blaster.simps(2))

lemma parse_blaster_append: "parse_blaster bs = Some (c, r) \<Longrightarrow> parse_blaster (bs @ ys) = Some (c, r @ ys)"
  by (cases bs) (auto simp: Let_def split: if_splits)

lemma blaster_decode_append:
  "blaster_decode xs = Some cs \<Longrightarrow> blaster_decode (xs @ ys) = map_option ((@) cs) (blaster_decode ys)"
proof (induction xs arbitrary: cs rule: blaster_decode.induct)
  case (1 xs)
  show ?case
  proof (cases "xs = []")
    case True
    with "1.prems" show ?thesis by (simp add: option.map_ident)
  next
    case False
    with "1.prems" obtain c r cs' where
      p: "parse_blaster xs = Some (c, r)" "blaster_decode r = Some cs'" "cs = c # cs'"
      by (auto simp: blaster_decode.simps [of xs] split: option.splits)
    from "1.IH" [OF False p(1) refl p(2)] blaster_decode_step [OF parse_blaster_append [OF p(1), of ys]] p(3)
    show ?thesis by (simp add: option.map_comp comp_def)
  qed
qed

lemma blaster_decode_append_Some:
  "blaster_decode xs = Some cs \<Longrightarrow> blaster_decode ys = Some ds \<Longrightarrow> blaster_decode (xs @ ys) = Some (cs @ ds)"
  by (simp add: blaster_decode_append)

lemma blaster_decode_concat:
  assumes "\<And>x. x \<in> set xs \<Longrightarrow> blaster_decode (f x) = Some (g x)"
  shows "blaster_decode (concat (map f xs)) = Some (concat (map g xs))"
  using assms by (induction xs) (auto simp: blaster_decode_append)

text \<open>The levels of TMS and TCK between commands.\<close>

fun pin_level :: "bool \<times> bool \<Rightarrow> blaster_cmd \<Rightarrow> bool \<times> bool" where
  "pin_level (tms, tck) (Pins c) = (bit c 1, bit c 0)"
| "pin_level (tms, tck) (Shift ds rd) = (tms, False)"

fun pin_cycles :: "bool \<times> bool \<Rightarrow> blaster_cmd \<Rightarrow> cycle list" where
  "pin_cycles (tms, tck) (Pins c) =
     (if bit c 0 \<and> \<not> tck then [Cycle (bit c 1) (Some (bit c 4)) (bit c 6)] else [])"
| "pin_cycles (tms, tck) (Shift ds rd) =
     map (\<lambda>i. Cycle tms (Some (bit_at ds i)) rd) [0..<8 * length ds]"

fun run_blaster :: "bool \<times> bool \<Rightarrow> blaster_cmd list \<Rightarrow> cycle list" where
  "run_blaster l [] = []"
| "run_blaster l (c # cs) = pin_cycles l c @ run_blaster (pin_level l c) cs"

definition pins_after :: "bool \<times> bool \<Rightarrow> blaster_cmd list \<Rightarrow> bool \<times> bool" where
  "pins_after l cs = foldl pin_level l cs"

lemma pins_after_simps [simp]:
  "pins_after l [] = l" "pins_after l (c # cs) = pins_after (pin_level l c) cs"
  "pins_after l (xs @ ys) = pins_after (pins_after l xs) ys"
  by (simp_all add: pins_after_def)

lemma run_blaster_append: "run_blaster l (xs @ ys) = run_blaster l xs @ run_blaster (pins_after l xs) ys"
  by (induction xs arbitrary: l) auto

section \<open>The bytes of the driver, read by the adapter\<close>

lemma bits_build_command:
  "bit (build_command tms tdi tck rd) 0 = tck" "bit (build_command tms tdi tck rd) 1 = tms"
  "bit (build_command tms tdi tck rd) 4 = tdi" "bit (build_command tms tdi tck rd) 6 = rd"
  "\<not> bit (build_command tms tdi tck rd) 7"
  by (cases tms; cases tdi; cases tck; cases rd; simp add: build_command_def)+

lemmas bits_build_command' = bits_build_command bits_build_command(2) [unfolded One_nat_def]

lemma decode_pins: "\<not> bit c 7 \<Longrightarrow> blaster_decode (c # bs) = map_option (Cons (Pins c)) (blaster_decode bs)"
  by (rule blaster_decode_step) simp

definition pair_cmds :: "bool \<Rightarrow> bool \<Rightarrow> bool \<Rightarrow> blaster_cmd list" where
  "pair_cmds tms tdi rd = [Pins (build_command tms tdi False False), Pins (build_command tms tdi True rd)]"

lemma decode_clock_pair: "blaster_decode (clock_pair tms tdi rd) = Some (pair_cmds tms tdi rd)"
  by (simp add: clock_pair_def pair_cmds_def decode_pins bits_build_command)

lemma pair_cmds_run [simp]:
  "run_blaster l (pair_cmds tms tdi rd) = [Cycle tms (Some tdi) rd]"
  "pins_after l (pair_cmds tms tdi rd) = (tms, True)"
  by (cases l; simp add: pair_cmds_def bits_build_command')+

lemma pairs_run:
  "run_blaster l (concat (map (\<lambda>j. pair_cmds (f j) (g j) rd) xs)) = map (\<lambda>j. Cycle (f j) (Some (g j)) rd) xs"
  "xs \<noteq> [] \<Longrightarrow> pins_after l (concat (map (\<lambda>j. pair_cmds (f j) (g j) rd) xs)) = (f (last xs), True)"
proof -
  show "run_blaster l (concat (map (\<lambda>j. pair_cmds (f j) (g j) rd) xs)) = map (\<lambda>j. Cycle (f j) (Some (g j)) rd) xs"
    by (induction xs arbitrary: l) (auto simp: run_blaster_append)
  show "xs \<noteq> [] \<Longrightarrow> pins_after l (concat (map (\<lambda>j. pair_cmds (f j) (g j) rd) xs)) = (f (last xs), True)"
    by (induction xs arbitrary: l) auto
qed

lemma shift_header:
  assumes "n \<le> 32"
  shows "bit (0x80 OR (if rd then 64 else 0) OR of_nat n :: byte) 7"
    "unat ((0x80 OR (if rd then 64 else 0) OR of_nat n :: byte) AND 0x3F) = n"
    "bit (0x80 OR (if rd then 64 else 0) OR of_nat n :: byte) 6 = rd"
proof -
  have "n \<in> set [0..<33]" using assms by simp
  moreover have "\<forall>n \<in> set [0..<33]. \<forall>rd. bit (0x80 OR (if rd then 64 else 0) OR of_nat n :: byte) 7 \<and>
    unat ((0x80 OR (if rd then 64 else 0) OR of_nat n :: byte) AND 0x3F) = n \<and>
    bit (0x80 OR (if rd then 64 else 0) OR of_nat n :: byte) 6 = rd"
    by code_simp
  ultimately show "bit (0x80 OR (if rd then 64 else 0) OR of_nat n :: byte) 7"
    "unat ((0x80 OR (if rd then 64 else 0) OR of_nat n :: byte) AND 0x3F) = n"
    "bit (0x80 OR (if rd then 64 else 0) OR of_nat n :: byte) 6 = rd" by blast+
qed

lemma decode_shift_packet:
  assumes "n \<le> 32" "i + n \<le> length data"
  shows "blaster_decode (shift_packet data i n rd) = Some [Shift (take n (drop i data)) rd]"
proof -
  have "parse_blaster (shift_packet data i n rd) = Some (Shift (take n (drop i data)) rd, [])"
    using assms by (simp add: shift_packet_def shift_header Let_def)
  from blaster_decode_step [OF this] show ?thesis by simp
qed

definition shift_cmds :: "byte list \<Rightarrow> nat \<Rightarrow> bool \<Rightarrow> blaster_cmd list" where
  "shift_cmds data len rd =
     map (\<lambda>j. Shift (take (min (len - 32 * j) 32) (drop (32 * j) data)) rd) [0..<(len + 31) div 32]"

lemma decode_packets:
  assumes "len \<le> length data"
  shows "blaster_decode (packets data len rd 0 ((len + 31) div 32)) = Some (shift_cmds data len rd)"
proof -
  have "blaster_decode (concat (map (\<lambda>j. shift_packet data (32 * j) (min (len - 32 * j) 32) rd) [0..<(len + 31) div 32]))
      = Some (concat (map (\<lambda>j. [Shift (take (min (len - 32 * j) 32) (drop (32 * j) data)) rd]) [0..<(len + 31) div 32]))"
  proof (rule blaster_decode_concat, rule decode_shift_packet)
    fix j assume "j \<in> set [0..<(len + 31) div 32]"
    then have "32 * j < len" by simp
    then show "32 * j + min (len - 32 * j) 32 \<le> length data" using assms by simp
  qed simp
  then show ?thesis by (simp add: packets_def shift_cmds_def)
qed

lemma shift_run:
  "run_blaster (tms, t) (map (\<lambda>j. Shift (d j) rd) xs) =
     concat (map (\<lambda>j. map (\<lambda>i. Cycle tms (Some (bit_at (d j) i)) rd) [0..<8 * length (d j)]) xs)"
  "fst (pins_after (tms, t) (map (\<lambda>j. Shift (d j) rd) xs)) = tms"
  by (induction xs arbitrary: t) auto

lemma shift_cmds_cycles:
  assumes "len \<le> length data"
  shows "run_blaster (False, t) (shift_cmds data len rd) =
      map (\<lambda>i. Cycle False (Some (bit_at data i)) rd) [0..<8 * len]"
    "fst (pins_after (False, t) (shift_cmds data len rd)) = False"
proof -
  let ?f = "\<lambda>i. Cycle False (Some (bit_at data i)) rd"
  let ?d = "\<lambda>j. take (min (len - 32 * j) 32) (drop (32 * j) data)"
  have eq: "map (\<lambda>i. Cycle False (Some (bit_at (?d j) i)) rd) [0..<8 * length (?d j)] =
      map (\<lambda>i. ?f (256 * j + i)) [0..<min 256 (8 * len - 256 * j)]"
    if "j \<in> set [0..<(len + 31) div 32]" for j
  proof -
    have j: "32 * j < len" using that by simp
    then have l: "length (?d j) = min (len - 32 * j) 32" using assms by simp
    have "8 * min (len - 32 * j) 32 = min 256 (8 * len - 256 * j)"
    proof -
      have "8 * len - 256 * j = 8 * (len - 32 * j)" by (simp add: diff_mult_distrib2)
      then show ?thesis by (simp add: min_def)
    qed
    moreover have "bit_at (?d j) i = bit_at data (256 * j + i)" if "i < 8 * min (len - 32 * j) 32" for i
      using that j assms by (simp add: bit_at_take bit_at_drop)
    ultimately show ?thesis unfolding l by (auto simp del: upt_Suc)
  qed
  have "run_blaster (False, t) (shift_cmds data len rd) =
      concat (map (\<lambda>j. map (\<lambda>i. ?f (256 * j + i)) [0..<min 256 (8 * len - 256 * j)]) [0..<(len + 31) div 32])"
    unfolding shift_cmds_def shift_run by (rule arg_cong [where f = concat], rule map_cong [OF refl], rule eq)
  also have "\<dots> = map ?f [0..<min (8 * len) (256 * ((len + 31) div 32))]" by (rule concat_chunks)
  also have "min (8 * len) (256 * ((len + 31) div 32)) = 8 * len" by simp
  finally show "run_blaster (False, t) (shift_cmds data len rd) = map ?f [0..<8 * len]" .
  show "fst (pins_after (False, t) (shift_cmds data len rd)) = False"
    unfolding shift_cmds_def by (rule shift_run)
qed

text \<open>\<open>faithful\<close>: the level of TMS is the one of the last cycle, or unchanged where there was none.\<close>

definition faithful :: "bool \<times> bool \<Rightarrow> blaster_cmd list \<Rightarrow> bool" where
  "faithful l cs \<longleftrightarrow>
     fst (pins_after l cs) = (if run_blaster l cs = [] then fst l else cyc_tms (last (run_blaster l cs)))"

lemma faithful_append: "faithful l xs \<Longrightarrow> faithful (pins_after l xs) ys \<Longrightarrow> faithful l (xs @ ys)"
  by (auto simp: faithful_def run_blaster_append)

definition blaster_tms_cmds :: "byte list \<Rightarrow> nat \<Rightarrow> blaster_cmd list" where
  "blaster_tms_cmds data n = concat (map (\<lambda>j. pair_cmds (bit_at data j) False False) [0..<n]) @
     [Pins (build_command (bit_at data (n - 1)) False False False)]"

lemma blaster_tms_cmds:
  assumes "0 < n"
  shows "blaster_decode (concat (map (\<lambda>j. clock_pair (bit_at data j) False False) [0..<n]) @
      [build_command (bit_at data (n - 1)) False False False]) = Some (blaster_tms_cmds data n)"
    and "run_blaster l (blaster_tms_cmds data n) = map (\<lambda>j. Cycle (bit_at data j) (Some False) False) [0..<n]"
    and "faithful l (blaster_tms_cmds data n)"
proof -
  show "blaster_decode (concat (map (\<lambda>j. clock_pair (bit_at data j) False False) [0..<n]) @
      [build_command (bit_at data (n - 1)) False False False]) = Some (blaster_tms_cmds data n)"
    unfolding blaster_tms_cmds_def
    by (intro blaster_decode_append_Some blaster_decode_concat decode_clock_pair)
      (simp add: decode_pins bits_build_command)
  have run: "run_blaster l (blaster_tms_cmds data n) = map (\<lambda>j. Cycle (bit_at data j) (Some False) False) [0..<n]"
    for l
    using assms unfolding blaster_tms_cmds_def run_blaster_append pairs_run
    by (simp add: pairs_run bits_build_command')
  then show "run_blaster l (blaster_tms_cmds data n) = map (\<lambda>j. Cycle (bit_at data j) (Some False) False) [0..<n]" .
  have "fst (pins_after l (blaster_tms_cmds data n)) = bit_at data (n - 1)"
    using assms unfolding blaster_tms_cmds_def pins_after_simps by (simp add: pairs_run bits_build_command')
  then show "faithful l (blaster_tms_cmds data n)"
    using assms by (simp add: faithful_def run last_map)
qed

definition blaster_rest_cmds :: "byte list \<Rightarrow> nat \<Rightarrow> bool \<Rightarrow> blaster_cmd list" where
  "blaster_rest_cmds data bulk rd = concat (map (\<lambda>j. pair_cmds False (bit_at data j) rd) [8 * (bulk div 8)..<bulk])"

definition blaster_last_cmds :: "byte list \<Rightarrow> nat \<Rightarrow> bool \<Rightarrow> bool \<Rightarrow> blaster_cmd list" where
  "blaster_last_cmds data n flip rd =
     (if flip then pair_cmds True (bit_at data (n - 1)) rd @ [Pins (build_command True (bit_at data (n - 1)) False False)]
      else [])"

definition blaster_scan_cmds :: "byte list \<Rightarrow> nat \<Rightarrow> bool \<Rightarrow> bool \<Rightarrow> blaster_cmd list" where
  "blaster_scan_cmds data n flip rd =
     (let bulk = bulk_bits n flip in
      shift_cmds data (bulk div 8) rd @ blaster_rest_cmds data bulk rd @ blaster_last_cmds data n flip rd)"

lemma decode_rest_bytes: "blaster_decode (rest_bytes data bulk rd) = Some (blaster_rest_cmds data bulk rd)"
  unfolding rest_bytes_def blaster_rest_cmds_def by (intro blaster_decode_concat decode_clock_pair)

lemma decode_last_bytes: "blaster_decode (last_bytes data n flip rd) = Some (blaster_last_cmds data n flip rd)"
  unfolding last_bytes_def blaster_last_cmds_def
  by (cases flip) (simp_all add: blaster_decode_append decode_clock_pair decode_pins bits_build_command)

lemma decode_blaster_scan:
  assumes "0 < n" "n \<le> 8 * length data"
  shows "blaster_decode (blaster_scan_bytes data n flip rd) = Some (blaster_scan_cmds data n flip rd)"
proof -
  have "bulk_bits n flip div 8 \<le> length data" using bulk_bits_le [OF assms(1), of flip] assms(2) by simp
  then show ?thesis
    unfolding blaster_scan_bytes_def blaster_scan_cmds_def Let_def
    by (intro blaster_decode_append_Some decode_packets decode_rest_bytes decode_last_bytes)
qed

lemma blaster_scan_run:
  assumes "0 < n" "n \<le> 8 * length data"
  shows "run_blaster (False, t) (blaster_scan_cmds data n flip rd) = scan_cycles data n flip rd"
    "faithful (False, t) (blaster_scan_cmds data n flip rd)"
proof -
  define b where "b = bulk_bits n flip"
  define f where "f = (\<lambda>i. Cycle False (Some (bit_at data i)) rd)"
  have b: "n = (if flip then Suc b else b)" using assms(1) by (auto simp: b_def bulk_bits_def)
  have L: "b div 8 \<le> length data" using b assms(2) by (auto split: if_splits)
  let ?A = "shift_cmds data (b div 8) rd" and ?B = "blaster_rest_cmds data b rd"
    and ?C = "blaster_last_cmds data n flip rd"
  have cmds: "blaster_scan_cmds data n flip rd = ?A @ ?B @ ?C" by (simp add: blaster_scan_cmds_def b_def Let_def)
  obtain t1 where p1: "pins_after (False, t) ?A = (False, t1)"
    using shift_cmds_cycles(2) [OF L, of t rd] by (metis (full_types) prod.collapse)
  have r2: "run_blaster l ?B = map f [8 * (b div 8)..<b]" for l
    unfolding blaster_rest_cmds_def pairs_run f_def ..
  have "fst (pins_after (False, t1) ?B) = False"
    unfolding blaster_rest_cmds_def by (cases "8 * (b div 8) < b") (simp_all add: pairs_run)
  then obtain t2 where p2: "pins_after (False, t1) ?B = (False, t2)" by (metis (full_types) prod.collapse)
  have r3: "run_blaster (False, t2) ?C = (if flip then [Cycle True (Some (bit_at data (n - 1))) rd] else [])"
    "fst (pins_after (False, t2) ?C) = flip"
    by (simp_all add: blaster_last_cmds_def run_blaster_append bits_build_command')
  have "run_blaster (False, t) (blaster_scan_cmds data n flip rd) = map f [0..<8 * (b div 8)] @ map f [8 * (b div 8)..<b] @
      (if flip then [Cycle True (Some (bit_at data (n - 1))) rd] else [])"
    unfolding cmds run_blaster_append p1 p2 r2 r3 shift_cmds_cycles(1) [OF L] f_def ..
  also have "map f [0..<8 * (b div 8)] @ map f [8 * (b div 8)..<b] @ zs = map f [0..<b] @ zs" for zs
  proof -
    have "[0..<8 * (b div 8)] @ [8 * (b div 8)..<b] = [0..<b]"
      using upt_add_eq_append [of 0 "8 * (b div 8)" "b - 8 * (b div 8)"] by simp
    then show ?thesis by (metis append_assoc map_append)
  qed
  also have "map f [0..<b] @ (if flip then [Cycle True (Some (bit_at data (n - 1))) rd] else []) =
      scan_cycles data n flip rd"
    using b by (auto simp: scan_cycles_def f_def)
  finally show run: "run_blaster (False, t) (blaster_scan_cmds data n flip rd) = scan_cycles data n flip rd" .
  have "fst (pins_after (False, t) (blaster_scan_cmds data n flip rd)) = flip"
    unfolding cmds pins_after_simps p1 p2 by (rule r3(2))
  moreover have "scan_cycles data n flip rd \<noteq> []" "cyc_tms (last (scan_cycles data n flip rd)) = flip"
    using assms(1) by (simp_all add: scan_cycles_def last_map)
  ultimately show "faithful (False, t) (blaster_scan_cmds data n flip rd)"
    by (simp add: faithful_def run)
qed

section \<open>The wire\<close>

definition blaster_cycles :: "byte list \<Rightarrow> cycle list" where
  "blaster_cycles bs = (case blaster_decode bs of None \<Rightarrow> [] | Some cs \<Rightarrow> run_blaster (False, False) cs)"

definition blaster_wire :: "('w, 'z) blaster_state_scheme \<Rightarrow> cycle list" where
  "blaster_wire s = blaster_cycles (usb_out s)"

definition blaster_inv :: "('w, 'z) blaster_state_scheme \<Rightarrow> bool" where
  "blaster_inv s \<longleftrightarrow> blaster_safe s \<and>
     (case blaster_decode (usb_out s) of None \<Rightarrow> False | Some cs \<Rightarrow> faithful (False, False) cs)"

definition blaster_idle :: "('w, 'z) blaster_state_scheme \<Rightarrow> bool" where
  "blaster_idle s \<longleftrightarrow> recv_buffer_len s = 0"

lemma blaster_inv_safe: "blaster_inv s \<Longrightarrow> blaster_safe s"
  by (simp add: blaster_inv_def)

lemma blaster_grows:
  assumes "blaster_inv s" "blaster_safe t" "usb_out t = usb_out s @ bs" "blaster_decode bs = Some cs"
    and step: "\<And>l. blaster_wire s \<noteq> [] \<longrightarrow> fst l = cyc_tms (last (blaster_wire s)) \<Longrightarrow>
      faithful l cs \<and> run_blaster l cs = cyc"
  shows "blaster_inv t \<and> blaster_wire t = blaster_wire s @ cyc"
proof -
  from assms(1) obtain cs0 where cs0: "blaster_decode (usb_out s) = Some cs0" "faithful (False, False) cs0"
    by (auto simp: blaster_inv_def split: option.splits)
  let ?l = "pins_after (False, False) cs0"
  have w: "blaster_wire s = run_blaster (False, False) cs0" by (simp add: blaster_wire_def blaster_cycles_def cs0)
  have d: "blaster_decode (usb_out t) = Some (cs0 @ cs)"
    using assms(3,4) cs0(1) by (simp add: blaster_decode_append)
  have "blaster_wire s \<noteq> [] \<longrightarrow> fst ?l = cyc_tms (last (blaster_wire s))"
    using cs0(2) unfolding w faithful_def by simp
  from step [OF this] have "faithful ?l cs" "run_blaster ?l cs = cyc" by simp_all
  then show ?thesis
    using assms(2) d w cs0(2)
    by (simp add: blaster_inv_def blaster_wire_def blaster_cycles_def faithful_append run_blaster_append)
qed

lemma blaster_view:
  fixes s t :: "('w, 'z) blaster_state_scheme"
  assumes "usb_out t = usb_out s" "common_state.more t = common_state.more s"
  shows "blaster_inv t = blaster_inv s \<and> blaster_idle t = blaster_idle s \<and> blaster_wire t = blaster_wire s"
proof -
  have "recv_buffer t = recv_buffer s" "recv_buffer_len t = recv_buffer_len s"
    using assms(2) by (cases s; cases t; simp)+
  then show ?thesis
    using assms(1) by (simp add: blaster_inv_def blaster_wire_def blaster_safe_def blaster_idle_def)
qed

section \<open>Handing out what was collected\<close>

text \<open>The collected bytes of a captured scan, as \<open>usb_blaster_jtag_scan_chain_recv\<close> reads them.\<close>

definition blaster_tdo :: "byte list \<Rightarrow> nat \<Rightarrow> bool \<Rightarrow> bool list" where
  "blaster_tdo got n flip =
     (let bulk = bulk_bits n flip; whole = bulk div 8 in
      bits_of got (8 * whole) @
      map (\<lambda>i. bit (got ! (whole + i)) 0) [0..<bulk mod 8 + (if flip then 1 else 0)])"

lemma rest_loop_ok:
  "off + k \<le> length rb \<Longrightarrow> i + k \<le> 8 * length recv \<Longrightarrow>
     \<exists>recv'. blaster_rest_loop rb off i k recv = Inr recv' \<and> length recv' = length recv \<and>
       (\<forall>j. bit_at recv' j = (bit_at recv j \<or> (i \<le> j \<and> j < i + k \<and> bit (rb ! (off + (j - i))) 0)))"
proof (induction k arbitrary: off i recv)
  case 0
  then show ?case by auto
next
  case (Suc k)
  then have i: "i < 8 * length recv" "off < length rb" by simp_all
  let ?r = "or_bit recv i (bit (rb ! off) 0)"
  from Suc.IH [of "Suc off" "Suc i" ?r] Suc.prems obtain recv' where
    r: "blaster_rest_loop rb (Suc off) (Suc i) k ?r = Inr recv'" "length recv' = length recv"
    and b: "\<And>j. bit_at recv' j = (bit_at ?r j \<or> (Suc i \<le> j \<and> j < Suc i + k \<and> bit (rb ! (Suc off + (j - Suc i))) 0))"
    by auto
  have "bit_at recv' j = (bit_at recv j \<or> (i \<le> j \<and> j < i + Suc k \<and> bit (rb ! (off + (j - i))) 0))" for j
  proof (cases "j = i")
    case True
    then show ?thesis using b [of j] by (simp add: bit_at_or_bit i)
  next
    case False
    then have "Suc i \<le> j \<longleftrightarrow> i \<le> j" by auto
    moreover have "Suc i \<le> j \<Longrightarrow> Suc off + (j - Suc i) = off + (j - i)" by auto
    ultimately show ?thesis using b [of j] False by (auto simp: bit_at_or_bit i)
  qed
  with r i show ?case by (auto simp: div_less_bits)
qed

lemma length_blaster_tdo: "0 < n \<Longrightarrow> length (blaster_tdo got n flip) = n"
  by (auto simp: blaster_tdo_def Let_def bulk_bits_def)

text \<open>The captured bits, in terms of the receive buffer.\<close>

lemma blaster_tdo_nth:
  assumes "blaster_safe s" "recv_buffer_len s = got_count n flip True" "j < n" "bulk_bits n flip = 8 * L + k" "k < 8"
  shows "blaster_tdo (collected s) n flip ! j =
     (if j < 8 * L then bit_at (recv_buffer s) j else bit (recv_buffer s ! (L + (j - 8 * L))) 0)"
proof -
  have b: "bulk_bits n flip div 8 = L" "bulk_bits n flip mod 8 = k" "n = (if flip then Suc (8 * L + k) else 8 * L + k)"
    using assms(3-5) by (auto simp: bulk_bits_def split: if_splits)
  have count: "recv_buffer_len s = L + k + (if flip then 1 else 0)" using assms(2) b by (simp add: got_count_def)
  show ?thesis
  proof (cases "j < 8 * L")
    case True
    then have "bit_at (collected s) j = bit_at (recv_buffer s) j"
      unfolding collected_def using count by (intro bit_at_take) simp
    with True b show ?thesis by (simp add: blaster_tdo_def Let_def nth_append)
  next
    case False
    then have "j - 8 * L < k + (if flip then 1 else 0)" using assms(3) b(3) by (auto split: if_splits)
    moreover then have "collected s ! (L + (j - 8 * L)) = recv_buffer s ! (L + (j - 8 * L))"
      unfolding collected_def using count by (intro nth_take) simp
    ultimately show ?thesis using False b by (simp add: blaster_tdo_def Let_def nth_append)
  qed
qed

lemma blaster_recv_spec:
  fixes s :: "('w, 'z) blaster_state_scheme"
  assumes safe: "blaster_safe s" and len_s: "recv_buffer_len s = got_count n flip True"
    and n: "0 < n" "n \<le> 8 * length buf" "n \<le> SCAN_LIMIT"
  shows "\<exists>buf'. usb_blaster_jtag_scan_chain_recv buf n flip s = Inr (True, buf', s\<lparr>recv_buffer_len := 0\<rparr>) \<and>
     length buf' = length buf \<and>
     ((flip \<and> (n - 1) mod 8 = 0 \<longrightarrow> \<not> bit_at buf (n - 1)) \<longrightarrow> bits_of buf' n = blaster_tdo (collected s) n flip)"
proof -
  define b where "b = bulk_bits n flip"
  define L k where "L = b div 8" and "k = b mod 8"
  define len where "len = (b + 7) div 8"
  let ?rb = "recv_buffer s"
  have b: "n = (if flip then Suc b else b)" using n(1) by (auto simp: b_def bulk_bits_def)
  have bLk: "b = 8 * L + k" "k < 8" by (simp_all add: L_def k_def)
  have count: "recv_buffer_len s = L + k + (if flip then 1 else 0)"
    using len_s by (simp add: got_count_def b_def L_def k_def)
  have rb: "length ?rb = RECV_SIZE" "recv_buffer_len s \<le> length ?rb" using safe by (simp_all add: blaster_safe_def)
  have len: "len = (if k = 0 then L else Suc L)" using bLk by (auto simp: len_def)
  have lenb: "len \<le> length buf" using n(2) b by (auto simp: len_def split: if_splits)
  define r0 where "r0 = write_at (write_at buf 0 (replicate len 0)) 0 (take L ?rb)"
  have Lr: "length (take L ?rb) = L" "L \<le> len" using count rb len by auto
  then have r0: "length r0 = length buf" using lenb by (simp add: r0_def)
  have r0_bit: "bit_at r0 j = (if j < 8 * L then bit_at ?rb j else if j < 8 * len then False else bit_at buf j)" for j
    using Lr lenb by (simp add: r0_def bit_at_write_front bit_at_take)
  have "8 * L + k \<le> 8 * length buf" using bLk b n(2) by (auto split: if_splits)
  with rest_loop_ok [of L k ?rb "8 * L" r0] count rb r0 obtain r1 where
    r1: "blaster_rest_loop ?rb L (8 * L) k r0 = Inr r1" "length r1 = length buf"
    and r1_bit: "\<And>j. bit_at r1 j = (bit_at r0 j \<or> (8 * L \<le> j \<and> j < 8 * L + k \<and> bit (?rb ! (L + (j - 8 * L))) 0))"
    by auto
  have unfold: "usb_blaster_jtag_scan_chain_recv buf n flip s =
      bindR (blaster_recv_last ?rb (L + k) r1 n flip) (\<lambda>(offset, recv).
        if offset \<noteq> recv_buffer_len s then Inl AssertionFailed else Inr (True, recv, s\<lparr>recv_buffer_len := 0\<rparr>))"
  proof -
    have "(b + 7) mod 2 ^ 64 div 8 = len"
      using bulk_len [of n flip] n by (simp add: b_def len_def SCAN_LIMIT_def)
    moreover have "\<not> (length buf < len \<or> length ?rb < L)" using lenb Lr by auto
    ultimately show ?thesis
      unfolding usb_blaster_jtag_scan_chain_recv_def Let_def b_def [symmetric] L_def [symmetric] k_def [symmetric]
      by (simp add: r0_def [symmetric] mult.commute [of L 8] r1(1))
  qed
  define x where "x = (flip \<and> bit (?rb ! (L + k)) 0)"
  define r2 where "r2 = (if x then or_bit r1 b True else r1)"
  have nb: "flip \<Longrightarrow> n - 1 = b" "flip \<Longrightarrow> b < 8 * length r1" using b n(2) r1(2) by auto
  have "blaster_recv_last ?rb (L + k) r1 n flip = Inr (L + k + (if flip then 1 else 0), r2)"
    using count rb n(1) nb by (auto simp: blaster_recv_last_def x_def r2_def div_less_bits)
  then have res: "usb_blaster_jtag_scan_chain_recv buf n flip s = Inr (True, r2, s\<lparr>recv_buffer_len := 0\<rparr>)"
    using unfold count by simp
  have bits: "bits_of r2 n = blaster_tdo (collected s) n flip"
    if clear: "flip \<and> (n - 1) mod 8 = 0 \<longrightarrow> \<not> bit_at buf (n - 1)"
  proof (rule nth_equalityI)
    show "length (bits_of r2 n) = length (blaster_tdo (collected s) n flip)"
      by (simp add: length_blaster_tdo n(1))
    fix j assume "j < length (bits_of r2 n)"
    then have j: "j < n" by simp
    have tdo: "blaster_tdo (collected s) n flip ! j =
        (if j < 8 * L then bit_at ?rb j else bit (?rb ! (L + (j - 8 * L))) 0)"
      using blaster_tdo_nth [OF safe len_s j] bLk by (simp add: b_def)
    have "bit_at r2 j = (if j < 8 * L then bit_at ?rb j else bit (?rb ! (L + (j - 8 * L))) 0)"
    proof (cases "j < b")
      case True
      then have "bit_at r2 j = bit_at r1 j" using nb by (auto simp: r2_def x_def bit_at_or_bit)
      moreover have "j < 8 * len" using True bLk len by (auto split: if_splits)
      ultimately show ?thesis using True bLk by (auto simp: r1_bit r0_bit)
    next
      case False
      then have jb: "j = b" and flip using j b by (auto split: if_splits)
      have "\<not> bit_at r1 b"
        using clear nb \<open>flip\<close> bLk len by (auto simp: r1_bit r0_bit)
      then have "bit_at r2 b = x" using nb \<open>flip\<close> by (simp add: r2_def bit_at_or_bit)
      then show ?thesis using jb bLk \<open>flip\<close> by (simp add: x_def)
    qed
    with tdo j show "bits_of r2 n ! j = blaster_tdo (collected s) n flip ! j" by simp
  qed
  have len2: "length r2 = length buf" using r1(2) by (simp add: r2_def)
  show ?thesis by (intro exI [of _ r2] conjI, rule res, rule len2, rule impI, rule bits)
qed

end
