(* ===== verification/Usb_Blaster_Link.thy ===== *)
theory Usb_Blaster_Link
  imports Usb_Blaster_Wire
begin

text \<open>
  The interface between the USB Blaster driver and the adapter. The driver talks to the adapter
  in exchanges: bytes that are whole commands are written, and when they capture, exactly the
  reply to them is read. \<open>blaster_link\<close> says what an exchange does, and the contract of a driver is
  proved from it once, for an adapter of which only the protocol is known (\<open>Usb_Blaster_Scan\<close>)
  and for one with a target behind it (\<open>Blaster_Target\<close>).
\<close>

section \<open>Exchanges\<close>

definition blaster_exchange :: "'w ext \<Rightarrow> byte list \<Rightarrow> bool \<Rightarrow> nat \<Rightarrow> ('w, 'z) blaster_state_scheme op" where
  "blaster_exchange E bs rd m s = check_then (Inr (ftdi_write_retry E bs s))
     (\<lambda>s. if rd then blaster_read E m s else Inr (True, s))"

lemma exchange_write: "blaster_exchange E bs False m s = Inr (ftdi_write_retry E bs s)"
  by (cases "ftdi_write_retry E bs s"; cases "fst (ftdi_write_retry E bs s)") (simp_all add: blaster_exchange_def)

text \<open>An exchange is a write and, for a capture, a read whose bytes are added to the collected ones.\<close>

lemma exchange_write_read:
  fixes s :: "('w, 'z) blaster_state_scheme"
  assumes "blaster_safe s" "rd \<longrightarrow> recv_buffer_len s + m \<le> RECV_SIZE"
    and w: "ftdi_write_retry E bs s = (ok1, s1)"
    and r: "if rd then ftdi_read_retry E m s1 = (ok2, got, s2) else ok2 \<and> got = [] \<and> s2 = s1"
  shows "\<exists>t. blaster_exchange E bs rd m s = Inr (ok1 \<and> ok2, t) \<and> blaster_safe t \<and> same_host s t \<and> state t = state s \<and>
     (ok1 \<and> ok2 \<longrightarrow> usb_out t = usb_out s @ bs \<and> world t = world s2 \<and> collected t = collected s @ got \<and>
        length got = (if rd then m else 0))"
proof -
  from ftdi_write_retry_log [OF w] obtain k wd where
    s1: "s1 = s\<lparr>usb_out := usb_out s @ take k bs, world := wd\<rparr>" "ok1 \<longrightarrow> k = length bs" by blast
  have safe: "blaster_safe s1" "collected s1 = collected s" using s1 assms(1) by (simp_all add: blaster_safe_def collected_def)
  show ?thesis
  proof (cases "ok1 \<and> rd")
    case False
    then show ?thesis using w r s1 safe by (cases ok1) (auto simp: blaster_exchange_def same_host_def)
  next
    case True
    with r have read: "ftdi_read_retry E m s1 = (ok2, got, s2)" by simp
    from ftdi_read_retry_frame [OF read] obtain wd2 where
      s2: "s2 = s1\<lparr>world := wd2\<rparr>" "length got \<le> m" "ok2 \<longrightarrow> length got = m" by blast
    let ?rb = "write_at (recv_buffer s1) (recv_buffer_len s1) got"
    have room: "recv_buffer_len s1 + length got \<le> length (recv_buffer s1)"
      using assms(1,2) s1(1) s2(2) True by (simp add: blaster_safe_def)
    then have rb: "length ?rb = RECV_SIZE" "take (recv_buffer_len s1 + length got) ?rb = collected s1 @ got"
      using safe(1) by (simp_all add: blaster_safe_def collected_def)
    have "blaster_read E m s1 = Inr (ok2, if ok2
        then s2\<lparr>recv_buffer := ?rb, recv_buffer_len := recv_buffer_len s1 + m\<rparr> else s2\<lparr>recv_buffer := ?rb\<rparr>)"
      using read room s2(1) by (simp add: blaster_read_def Let_def)
    with True w rb s1 s2 safe assms(1,2) show ?thesis
      by (auto simp: blaster_exchange_def blaster_safe_def same_host_def collected_def)
  qed
qed

lemma exchange_read:
  "\<exists>ok got t. if rd then ftdi_read_retry E m s = (ok, got, t) else ok \<and> got = [] \<and> t = s"
  by (cases rd; cases "ftdi_read_retry E m s") auto

text \<open>The number of bytes the adapter answers a command with.\<close>

fun reply_len :: "blaster_cmd \<Rightarrow> nat" where
  "reply_len (Pins c) = (if bit c 6 then 1 else 0)"
| "reply_len (Shift ds rd) = (if rd then length ds else 0)"

abbreviation reply_count :: "blaster_cmd list \<Rightarrow> nat" where
  "reply_count cs \<equiv> sum_list (map reply_len cs)"

lemma reply_count_pair [simp]: "reply_count (pair_cmds tms tdi rd) = (if rd then 1 else 0)"
  by (simp add: pair_cmds_def bits_build_command)

lemma reply_count_pairs [simp]:
  "reply_count (concat (map (\<lambda>j. pair_cmds (f j) (g j) rd) xs)) = (if rd then length xs else 0)"
  by (induction xs) simp_all

text \<open>
  \<open>ready\<close>: nothing is under way between driver and adapter. \<open>live\<close>: USB works. \<open>yields s cs got t\<close>:
  how the bytes \<open>got\<close> read since \<open>s\<close> are related to the commands \<open>cs\<close> sent since. \<open>port\<close> and
  \<open>target\<close> are those of \<open>jtag_driver\<close>.
\<close>

locale blaster_link =
  fixes E :: "'w ext"
    and ready :: "('w, 'z) blaster_state_scheme \<Rightarrow> bool"
    and live :: bool
    and yields :: "('w, 'z) blaster_state_scheme \<Rightarrow> blaster_cmd list \<Rightarrow> byte list \<Rightarrow> ('w, 'z) blaster_state_scheme \<Rightarrow> bool"
    and port :: "'w \<Rightarrow> 'p"
    and target :: "target option"
  assumes exchange: "blaster_safe s \<Longrightarrow> ready s \<Longrightarrow> blaster_decode bs = Some cs \<Longrightarrow>
      reply_count cs = (if rd then m else 0) \<Longrightarrow> rd \<longrightarrow> recv_buffer_len s + m \<le> RECV_SIZE \<and> m \<le> 100 \<Longrightarrow>
      \<exists>ok t. blaster_exchange E bs rd m s = Inr (ok, t) \<and> blaster_safe t \<and> same_host s t \<and> state t = state s \<and>
        (live \<longrightarrow> ok) \<and>
        (ok \<longrightarrow> ready t \<and> usb_out t = usb_out s @ bs \<and>
          (\<exists>got. length got = (if rd then m else 0) \<and> collected t = collected s @ got \<and> yields s cs got t))"
    and yields_Nil: "ready s \<Longrightarrow> yields s [] [] s"
    and yields_trans: "yields s cs got t \<Longrightarrow> yields t ds got2 u \<Longrightarrow> yields s (cs @ ds) (got @ got2) u"
    and yields_state: "yields (s\<lparr>state := x\<rparr>) cs got t = yields s cs got t"
    and ready_view: "usb_out t = usb_out s \<Longrightarrow> port (world t) = port (world s) \<Longrightarrow> ready t = ready s"
    and scan_shown: "target = Some f \<Longrightarrow> blaster_inv s \<Longrightarrow> tms_low (blaster_wire s) \<Longrightarrow> 0 < n \<Longrightarrow>
      n \<le> 8 * length data \<Longrightarrow> yields s (blaster_scan_cmds data n flip True) got t \<Longrightarrow>
      blaster_tdo got n flip = tdo_bits f (history (blaster_wire s))
        (tap_view (run_tap TestLogicReset (tms_bits (blaster_wire s))) (scan_cycles data n flip True))"

context blaster_link
begin

text \<open>
  \<open>handed s bs cs m t\<close>: the bytes \<open>bs\<close>, which are the commands \<open>cs\<close>, were sent and the \<open>m\<close> bytes
  of the reply collected. \<open>hands\<close>: an operation does that unless USB fails.
\<close>

definition handed :: "('w, 'z) blaster_state_scheme \<Rightarrow> byte list \<Rightarrow> blaster_cmd list \<Rightarrow> nat
    \<Rightarrow> ('w, 'z) blaster_state_scheme \<Rightarrow> bool" where
  "handed s bs cs m t \<longleftrightarrow> ready t \<and> usb_out t = usb_out s @ bs \<and> blaster_decode bs = Some cs \<and>
     (\<exists>got. length got = m \<and> collected t = collected s @ got \<and> yields s cs got t)"

definition hands :: "('w, 'z) blaster_state_scheme op \<Rightarrow> ('w, 'z) blaster_state_scheme \<Rightarrow> byte list
    \<Rightarrow> blaster_cmd list \<Rightarrow> nat \<Rightarrow> bool" where
  "hands op s bs cs m \<longleftrightarrow> (\<exists>ok t. op s = Inr (ok, t) \<and> blaster_safe t \<and> same_host s t \<and> state t = state s \<and>
     (live \<longrightarrow> ok) \<and> (ok \<longrightarrow> handed s bs cs m t))"

lemma handed_trans:
  assumes "handed s xs cs m t" "handed t ys ds k u"
  shows "handed s (xs @ ys) (cs @ ds) (m + k) u"
proof -
  from assms obtain a b where
    "length a = m" "collected t = collected s @ a" "yields s cs a t"
    "length b = k" "collected u = collected t @ b" "yields t ds b u"
    unfolding handed_def by blast
  then have "length (a @ b) = m + k \<and> collected u = collected s @ (a @ b) \<and> yields s (cs @ ds) (a @ b) u"
    by (simp add: yields_trans)
  then have "\<exists>got. length got = m + k \<and> collected u = collected s @ got \<and> yields s (cs @ ds) got u" by (rule exI)
  with assms show ?thesis by (simp add: handed_def blaster_decode_append_Some)
qed

lemma handed_Nil: "ready s \<Longrightarrow> handed s [] [] 0 s"
  by (simp add: handed_def yields_Nil)

lemma handed_state: "handed (s\<lparr>state := x\<rparr>) bs cs m t = handed s bs cs m t"
  by (simp add: handed_def collected_def yields_state)

lemma handed_len: "blaster_safe s \<Longrightarrow> blaster_safe t \<Longrightarrow> handed s bs cs m t \<Longrightarrow>
    recv_buffer_len t = recv_buffer_len s + m"
  using length_collected [of s] length_collected [of t] by (auto simp: handed_def)

lemma hands_Nil: "blaster_safe s \<Longrightarrow> ready s \<Longrightarrow> hands (\<lambda>s. Inr (True, s)) s [] [] 0"
  by (auto simp: hands_def handed_Nil)

lemma hands_then:
  assumes "hands f s xs cs m" "blaster_safe s"
    and "\<And>t. blaster_safe t \<Longrightarrow> ready t \<Longrightarrow> recv_buffer_len t = recv_buffer_len s + m \<Longrightarrow> hands g t ys ds k"
  shows "hands (\<lambda>s. check_then (f s) g) s (xs @ ys) (cs @ ds) (m + k)"
proof -
  from assms(1) obtain ok t where f: "f s = Inr (ok, t)" "blaster_safe t" "same_host s t" "state t = state s"
      "live \<longrightarrow> ok" "ok \<longrightarrow> handed s xs cs m t"
    unfolding hands_def by blast
  show ?thesis
  proof (cases ok)
    case False
    with f show ?thesis unfolding hands_def by auto
  next
    case True
    with f(6) have t: "handed s xs cs m t" "ready t" by (simp_all add: handed_def)
    from assms(3) [OF f(2) t(2) handed_len [OF assms(2) f(2) t(1)]] obtain ok' u where
      u: "g t = Inr (ok', u)" "blaster_safe u" "same_host t u" "state u = state t" "live \<longrightarrow> ok'"
        "ok' \<longrightarrow> handed t ys ds k u"
      unfolding hands_def by blast
    moreover have "check_then (f s) g = Inr (ok', u)" using f(1) True u(1) by simp
    ultimately show ?thesis
      using f(3,4) handed_trans [OF t(1)] unfolding hands_def by (auto intro: same_host_trans)
  qed
qed

lemma hands_exchange:
  assumes "blaster_safe s" "ready s" "blaster_decode bs = Some cs"
    and "reply_count cs = (if rd then m else 0)" "rd \<longrightarrow> recv_buffer_len s + m \<le> RECV_SIZE \<and> m \<le> 100"
  shows "hands (blaster_exchange E bs rd m) s bs cs (if rd then m else 0)"
  using exchange [OF assms] assms(3) unfolding hands_def handed_def by blast

section \<open>The operations\<close>

lemma tms_seq_hands:
  assumes "blaster_safe s" "ready s" "0 < n" "n \<le> 8 * length data"
  shows "hands (usb_blaster_jtag_tms_seq E data n) s
     (concat (map (\<lambda>j. clock_pair (bit_at data j) False False) [0..<n]) @
      [build_command (bit_at data (n - 1)) False False False]) (blaster_tms_cmds data n) 0"
proof -
  have "reply_count (blaster_tms_cmds data n) = (if False then 0 else 0)"
    by (simp add: blaster_tms_cmds_def bits_build_command)
  from hands_exchange [OF assms(1,2) blaster_tms_cmds(1) [OF assms(3)] this] assms(3,4) show ?thesis
    by (simp add: hands_def usb_blaster_jtag_tms_seq_def tms_loop_out exchange_write)
qed

text \<open>The byte-shift packets, from number \<open>j\<close> on.\<close>

definition shift_cmds_from :: "byte list \<Rightarrow> nat \<Rightarrow> bool \<Rightarrow> nat \<Rightarrow> nat \<Rightarrow> blaster_cmd list" where
  "shift_cmds_from data len rd j m =
     map (\<lambda>j. Shift (take (min (len - 32 * j) 32) (drop (32 * j) data)) rd) [j..<m]"

lemma bytes_loop_hands:
  fixes s :: "('w, 'z) blaster_state_scheme"
  assumes "len \<le> length data" "m = (len + 31) div 32"
  shows "blaster_safe s \<Longrightarrow> ready s \<Longrightarrow> j + k = m \<Longrightarrow>
     (rd \<longrightarrow> recv_buffer_len s + (len - min len (32 * j)) \<le> RECV_SIZE) \<Longrightarrow>
     hands (blaster_bytes_loop E data len rd (min len (32 * j)) k) s
       (packets data len rd j m) (shift_cmds_from data len rd j m) (if rd then len - min len (32 * j) else 0)"
proof (induction k arbitrary: j s)
  case 0
  then have "len \<le> 32 * j" using assms(2) by simp
  with 0 hands_Nil [of s] show ?case by (simp add: packets_def shift_cmds_from_def hands_def)
next
  case (Suc k)
  then have j: "32 * j < len" "j < m" using assms(2) by simp_all
  let ?c = "min (len - 32 * j) 32"
  let ?ds = "take ?c (drop (32 * j) data)" and ?p = "shift_packet data (32 * j) ?c rd"
  have i: "min len (32 * j) = 32 * j" "32 * j + ?c = min len (32 * Suc j)" using j(1) by auto
  have c: "?c \<le> 32" "32 * j + ?c \<le> length data" "length ?ds = ?c" using j(1) assms(1) by simp_all
  have unfold: "blaster_bytes_loop E data len rd (min len (32 * j)) (Suc k) t =
      check_then (blaster_exchange E ?p rd ?c t) (blaster_bytes_loop E data len rd (min len (32 * Suc j)) k)"
    for t :: "('w, 'z) blaster_state_scheme"
  proof -
    have nb: "\<not> length data < min len (32 * Suc j)" using assms(1) by simp
    show ?thesis
      unfolding i(1) blaster_bytes_loop.simps Let_def MAX_PACKET_SIZE_def blaster_exchange_def check_then_assoc i(2)
      by (simp only: nb if_False)
  qed
  have count: "reply_count [Shift ?ds rd] = (if rd then ?c else 0)" using c(3) by simp
  have room: "rd \<longrightarrow> recv_buffer_len s + ?c \<le> RECV_SIZE \<and> ?c \<le> 100"
    using Suc.prems(4) i by (auto simp: min_def split: if_splits)
  have "hands (\<lambda>s. check_then (blaster_exchange E ?p rd ?c s) (blaster_bytes_loop E data len rd (min len (32 * Suc j)) k)) s
      (?p @ packets data len rd (Suc j) m) ([Shift ?ds rd] @ shift_cmds_from data len rd (Suc j) m)
      ((if rd then ?c else 0) + (if rd then len - min len (32 * Suc j) else 0))"
  proof (rule hands_then [OF hands_exchange [OF Suc.prems(1,2) decode_shift_packet [OF c(1,2)] count room] Suc.prems(1)])
    fix t :: "('w, 'z) blaster_state_scheme"
    assume t: "blaster_safe t" "ready t" "recv_buffer_len t = recv_buffer_len s + (if rd then ?c else 0)"
    then have "rd \<longrightarrow> recv_buffer_len t + (len - min len (32 * Suc j)) \<le> RECV_SIZE"
      using Suc.prems(4) j(1) by (auto simp: min_def)
    moreover have "Suc j + k = m" using Suc.prems(3) by simp
    ultimately show "hands (blaster_bytes_loop E data len rd (min len (32 * Suc j)) k) t
        (packets data len rd (Suc j) m) (shift_cmds_from data len rd (Suc j) m) (if rd then len - min len (32 * Suc j) else 0)"
      using Suc.IH [OF t(1,2)] by blast
  qed
  moreover have "packets data len rd j m = ?p @ packets data len rd (Suc j) m"
    "shift_cmds_from data len rd j m = [Shift ?ds rd] @ shift_cmds_from data len rd (Suc j) m"
    using j(2) by (simp_all add: packets_def shift_cmds_from_def upt_conv_Cons)
  moreover have "(if rd then ?c else 0) + (if rd then len - min len (32 * Suc j) else 0) =
      (if rd then len - min len (32 * j) else 0)" using i by auto
  ultimately show ?case unfolding unfold [abs_def] by simp
qed

lemma send_bytes_hands:
  assumes "blaster_safe s" "ready s" "len \<le> length data" "rd \<longrightarrow> recv_buffer_len s + len \<le> RECV_SIZE"
  shows "hands (blaster_send_bytes E data len rd) s (packets data len rd 0 ((len + 31) div 32))
     (shift_cmds data len rd) (if rd then len else 0)"
  using bytes_loop_hands [OF assms(3) refl assms(1,2), of 0 "(len + 31) div 32" rd] assms(4)
  by (cases rd) (simp_all add: blaster_send_bytes_def [abs_def] MAX_PACKET_SIZE_def shift_cmds_def shift_cmds_from_def)

lemma send_bits_hands:
  assumes "blaster_safe s" "ready s" "bulk \<le> 8 * length data" "rd \<longrightarrow> recv_buffer_len s + bulk mod 8 \<le> RECV_SIZE"
  shows "hands (blaster_send_bits E data bulk rd) s (rest_bytes data bulk rd) (blaster_rest_cmds data bulk rd)
     (if rd then bulk mod 8 else 0)"
proof (cases "bulk mod 8 = 0")
  case True
  then have "8 * (bulk div 8) = bulk" using mult_div_mod_eq [of 8 bulk] by simp
  with True hands_Nil [OF assms(1,2)] show ?thesis
    by (simp add: blaster_send_bits_def [abs_def] rest_bytes_def blaster_rest_cmds_def)
next
  case False
  have b: "8 * (bulk div 8) + bulk mod 8 = bulk" by (rule mult_div_mod_eq)
  have "bulk mod 8 < 8" by simp
  then have k: "bulk mod 8 \<le> 100" by linarith
  have loop: "blaster_bits_loop data (bulk div 8 * 8) rd (bulk mod 8) [] = Inr (rest_bytes data bulk rd)"
    using bits_loop_out [of "8 * (bulk div 8)" "bulk mod 8" data rd "[]"] b assms(3)
    by (simp add: rest_bytes_def mult.commute)
  have "bulk - 8 * (bulk div 8) = bulk mod 8" using b by linarith
  then have count: "reply_count (blaster_rest_cmds data bulk rd) = (if rd then bulk mod 8 else 0)"
    by (simp add: blaster_rest_cmds_def)
  have room: "rd \<longrightarrow> recv_buffer_len s + bulk mod 8 \<le> RECV_SIZE \<and> bulk mod 8 \<le> 100" using assms(4) k by simp
  from hands_exchange [OF assms(1,2) decode_rest_bytes count room] False show ?thesis
    by (simp add: blaster_send_bits_def [abs_def] loop blaster_exchange_def [abs_def])
qed

lemma send_last_hands:
  assumes "blaster_safe s" "ready s" "0 < n" "n \<le> 8 * length data" "rd \<and> flip \<longrightarrow> recv_buffer_len s + 1 \<le> RECV_SIZE"
  shows "\<exists>ok t. blaster_send_last E data n flip rd s = Inr (ok, t) \<and> blaster_safe t \<and> same_host s t \<and>
     (live \<longrightarrow> ok) \<and> state t = (if flip then next_state (state s) True else state s) \<and>
     (ok \<longrightarrow> handed s (last_bytes data n flip rd) (blaster_last_cmds data n flip rd) (if rd \<and> flip then 1 else 0) t)"
proof (cases flip)
  case False
  with assms(1) handed_Nil [OF assms(2)] show ?thesis
    by (auto simp: blaster_send_last_def last_bytes_def blaster_last_cmds_def)
next
  case True
  let ?s = "s\<lparr>state := next_state (state s) True\<rparr>"
  have safe: "blaster_safe ?s" "ready ?s" using assms(1,2) ready_view [of ?s s] by (simp_all add: blaster_safe_def)
  have room: "rd \<longrightarrow> recv_buffer_len ?s + 1 \<le> RECV_SIZE \<and> 1 \<le> (100 :: nat)" using assms(5) True by simp
  have count: "reply_count (blaster_last_cmds data n flip rd) = (if rd then 1 else 0)"
    using True by (simp add: blaster_last_cmds_def bits_build_command)
  from hands_exchange [OF safe decode_last_bytes count room] obtain ok t where
    t: "blaster_exchange E (last_bytes data n flip rd) rd 1 ?s = Inr (ok, t)"
      "blaster_safe t" "same_host ?s t" "state t = state ?s"
      "live \<longrightarrow> ok" "ok \<longrightarrow> handed s (last_bytes data n flip rd) (blaster_last_cmds data n flip rd) (if rd then 1 else 0) t"
    unfolding hands_def handed_state by blast
  have "blaster_send_last E data n flip rd s = blaster_exchange E (last_bytes data n flip rd) rd 1 ?s"
    using True assms(3,4) by (simp add: blaster_send_last_def blaster_exchange_def last_bytes_def clock_pair_def
        del: One_nat_def)
  with t True show ?thesis by (auto simp: same_host_def)
qed

lemma scan_send_hands:
  assumes safe: "blaster_safe s" "ready s" "recv_buffer_len s = 0" and n: "0 < n" "n \<le> 8 * length data" "n \<le> SCAN_LIMIT"
  shows "\<exists>ok t. usb_blaster_jtag_scan_chain_send E data n flip rd s = Inr (ok, t) \<and> blaster_safe t \<and>
     same_host s t \<and> (live \<longrightarrow> ok) \<and>
     (ok \<longrightarrow> state t = (if flip then next_state (state s) True else state s) \<and>
        handed s (blaster_scan_bytes data n flip rd) (blaster_scan_cmds data n flip rd) (got_count n flip rd) t)"
proof -
  define b where "b = bulk_bits n flip"
  define x y z where "x = packets data (b div 8) rd 0 ((b div 8 + 31) div 32)" and "y = rest_bytes data b rd"
    and "z = last_bytes data n flip rd"
  define cx cy cz where "cx = shift_cmds data (b div 8) rd" and "cy = blaster_rest_cmds data b rd"
    and "cz = blaster_last_cmds data n flip rd"
  let ?m = "(if rd then b div 8 else 0) + (if rd then b mod 8 else 0)"
  have b: "n = (if flip then Suc b else b)" using n(1) by (auto simp: b_def bulk_bits_def)
  have "b mod 8 < 8" by simp
  then have room: "b div 8 \<le> length data" "b \<le> 8 * length data" "b div 8 + b mod 8 + 1 \<le> RECV_SIZE"
    using b n(2,3) by (auto simp: RECV_SIZE_def SCAN_LIMIT_def split: if_splits)
  have "hands (\<lambda>s. check_then (blaster_send_bytes E data (b div 8) rd s) (blaster_send_bits E data b rd)) s
      (x @ y) (cx @ cy) ?m"
    unfolding x_def y_def cx_def cy_def
    by (rule hands_then [OF send_bytes_hands _ send_bits_hands]) (use safe room in simp_all)
  then obtain ok t where t:
    "check_then (blaster_send_bytes E data (b div 8) rd s) (blaster_send_bits E data b rd) = Inr (ok, t)"
    "blaster_safe t" "same_host s t" "state t = state s" "live \<longrightarrow> ok" "ok \<longrightarrow> handed s (x @ y) (cx @ cy) ?m t"
    unfolding hands_def by blast
  have unfold: "usb_blaster_jtag_scan_chain_send E data n flip rd s =
      check_then (Inr (ok, t)) (blaster_send_last E data n flip rd)"
    unfolding t(1) [symmetric] check_then_assoc using safe(3)
    by (simp add: usb_blaster_jtag_scan_chain_send_def b_def Let_def)
  show ?thesis
  proof (cases ok)
    case False
    with t unfold show ?thesis by auto
  next
    case True
    with t(6) have h: "handed s (x @ y) (cx @ cy) ?m t" "ready t" by (simp_all add: handed_def)
    have "rd \<and> flip \<longrightarrow> recv_buffer_len t + 1 \<le> RECV_SIZE"
      using handed_len [OF safe(1) t(2) h(1)] safe(3) room(3) by auto
    from send_last_hands [OF t(2) h(2) n(1,2) this] obtain ok' u where
      u: "blaster_send_last E data n flip rd t = Inr (ok', u)" "blaster_safe u" "same_host t u"
        "live \<longrightarrow> ok'" "state u = (if flip then next_state (state t) True else state t)"
        "ok' \<longrightarrow> handed t z cz (if rd \<and> flip then 1 else 0) u"
      unfolding z_def cz_def by blast
    have "handed s (blaster_scan_bytes data n flip rd) (blaster_scan_cmds data n flip rd) (got_count n flip rd) u" if ok'
    proof -
      have "handed s ((x @ y) @ z) ((cx @ cy) @ cz) (?m + (if rd \<and> flip then 1 else 0)) u"
        using handed_trans [OF h(1)] u(6) that by blast
      moreover have "(x @ y) @ z = blaster_scan_bytes data n flip rd" "(cx @ cy) @ cz = blaster_scan_cmds data n flip rd"
        by (simp_all add: blaster_scan_bytes_def blaster_scan_cmds_def x_def y_def z_def cx_def cy_def cz_def b_def Let_def)
      moreover have "?m + (if rd \<and> flip then 1 else 0) = got_count n flip rd" by (simp add: got_count_def b_def)
      ultimately show ?thesis by (simp only:)
    qed
    with u unfold t(3,4) True show ?thesis by (auto intro: same_host_trans)
  qed
qed

section \<open>The contract\<close>

lemma tms_contract:
  assumes inv: "blaster_inv s" "ready s" and n: "0 < n" "n \<le> 8 * length data"
  shows "\<exists>ok t. usb_blaster_jtag_tms_seq E data n s = Inr (ok, t) \<and> same_host s t \<and> state t = state s \<and>
     (live \<longrightarrow> ok) \<and>
     (ok \<longrightarrow> blaster_inv t \<and> ready t \<and> recv_buffer_len t = recv_buffer_len s \<and>
        blaster_wire t = blaster_wire s @ map (\<lambda>j. Cycle (bit_at data j) (Some False) False) [0..<n])"
proof -
  let ?bs = "concat (map (\<lambda>j. clock_pair (bit_at data j) False False) [0..<n]) @
      [build_command (bit_at data (n - 1)) False False False]"
  from tms_seq_hands [OF blaster_inv_safe [OF inv(1)] inv(2) n] obtain ok t where
    t: "usb_blaster_jtag_tms_seq E data n s = Inr (ok, t)" "blaster_safe t" "same_host s t" "state t = state s"
      "live \<longrightarrow> ok" "ok \<longrightarrow> handed s ?bs (blaster_tms_cmds data n) 0 t"
    unfolding hands_def by blast
  have "blaster_inv t \<and>
      blaster_wire t = blaster_wire s @ map (\<lambda>j. Cycle (bit_at data j) (Some False) False) [0..<n]" if ok
    using blaster_grows [OF inv(1) t(2) _ blaster_tms_cmds(1) [OF n(1)]] blaster_tms_cmds(2,3) [OF n(1)] t(6) that
    by (simp add: handed_def)
  moreover have "recv_buffer_len t = recv_buffer_len s" "ready t" if ok
    using handed_len [OF blaster_inv_safe [OF inv(1)] t(2)] t(6) that by (auto simp: handed_def)
  ultimately show ?thesis using t by auto
qed

lemma send_contract:
  assumes inv: "blaster_inv s" "ready s" "recv_buffer_len s = 0" and low: "tms_low (blaster_wire s)"
    and n: "0 < n" "n \<le> 8 * length data" "n \<le> SCAN_LIMIT"
  shows "\<exists>ok t. usb_blaster_jtag_scan_chain_send E data n flip rd s = Inr (ok, t) \<and> same_host s t \<and>
     (live \<longrightarrow> ok) \<and>
     (ok \<longrightarrow> blaster_inv t \<and> ready t \<and> state t = (if flip then next_state (state s) True else state s) \<and>
        recv_buffer_len t = got_count n flip rd \<and> yields s (blaster_scan_cmds data n flip rd) (collected t) t \<and>
        blaster_wire t = blaster_wire s @ scan_cycles data n flip rd)"
proof -
  from scan_send_hands [OF blaster_inv_safe [OF inv(1)] inv(2,3) n, of flip rd] obtain ok t where
    t: "usb_blaster_jtag_scan_chain_send E data n flip rd s = Inr (ok, t)" "blaster_safe t" "same_host s t"
      "live \<longrightarrow> ok" "ok \<longrightarrow> state t = (if flip then next_state (state s) True else state s) \<and>
        handed s (blaster_scan_bytes data n flip rd) (blaster_scan_cmds data n flip rd) (got_count n flip rd) t" by blast
  have "blaster_inv t \<and> blaster_wire t = blaster_wire s @ scan_cycles data n flip rd" if ok
  proof (rule blaster_grows [OF inv(1) t(2) _ decode_blaster_scan [OF n(1,2)]])
    show "usb_out t = usb_out s @ blaster_scan_bytes data n flip rd"
      using t(5) that by (simp add: handed_def)
    fix l :: "bool \<times> bool"
    assume "blaster_wire s \<noteq> [] \<longrightarrow> fst l = cyc_tms (last (blaster_wire s))"
    then have "l = (False, snd l)" using low by (cases l) (simp add: tms_low_def)
    then show "faithful l (blaster_scan_cmds data n flip rd) \<and>
      run_blaster l (blaster_scan_cmds data n flip rd) = scan_cycles data n flip rd"
      using blaster_scan_run [OF n(1,2), of "snd l" flip rd] by simp
  qed
  moreover have "recv_buffer_len t = got_count n flip rd" if ok
    using handed_len [OF blaster_inv_safe [OF inv(1)] t(2)] t(5) that inv(3) by auto
  moreover have "ready t \<and> yields s (blaster_scan_cmds data n flip rd) (collected t) t" if ok
  proof -
    have "collected s = []" using inv(3) by (simp add: collected_def)
    then show ?thesis using t(5) that by (auto simp: handed_def)
  qed
  ultimately show ?thesis using t by auto
qed

end

text \<open>
  The driver keeps the contract of a driver on every adapter that keeps this one: a scan may be
  sent when nothing is waiting to be collected.
\<close>

sublocale blaster_link \<subseteq> jtag_driver "usb_blaster_driver E" "\<lambda>s. blaster_inv s \<and> ready s" blaster_idle blaster_wire live port target
proof (unfold_locales, goal_cases)
  case (1 t s)
  with blaster_view [of t s] ready_view [of t s] show ?case by simp
next
  case (2 s n data)
  let ?cyc = "map (\<lambda>j. Cycle (bit_at data j) (Some False) False) [0..<n]"
  have cyc: "tms_bits ?cyc = bits_of data n \<and> (\<forall>c \<in> set ?cyc. \<not> cyc_cap c)"
    by (simp add: bits_of_def)
  from 2 tms_contract [of s n data] obtain ok t where
    "usb_blaster_jtag_tms_seq E data n s = Inr (ok, t) \<and> same_host s t \<and> state t = state s \<and> (live \<longrightarrow> ok)"
    "ok \<longrightarrow> blaster_inv t \<and> ready t \<and> recv_buffer_len t = recv_buffer_len s \<and> blaster_wire t = blaster_wire s @ ?cyc" by blast
  with cyc have "drv_tms_seq (usb_blaster_driver E) data n s = Inr (ok, t) \<and> same_host s t \<and>
      state t = state s \<and> (live \<longrightarrow> ok) \<and>
      (ok \<longrightarrow> (blaster_inv t \<and> ready t) \<and> (blaster_idle s \<longrightarrow> blaster_idle t) \<and>
        (\<exists>cyc. blaster_wire t = blaster_wire s @ cyc \<and> tms_bits cyc = bits_of data n \<and>
          (\<forall>c \<in> set cyc. \<not> cyc_cap c)))"
    by (auto simp: usb_blaster_driver_def blaster_idle_def simp del: map_map)
  then show ?case by blast
next
  case (3 s n data flip rd)
  with send_contract [of s n data flip rd] show ?case
    by (auto simp: usb_blaster_driver_def blaster_idle_def got_count_def)
next
  case (4 s n data flip t buf)
  have idle: "recv_buffer_len s = 0" using 4(2) by (simp add: blaster_idle_def)
  from 4(1,7) send_contract [OF _ _ idle 4(3-6), of flip True] have
    t: "blaster_inv t" "ready t" "recv_buffer_len t = got_count n flip True"
      "yields s (blaster_scan_cmds data n flip True) (collected t) t" by (auto simp: usb_blaster_driver_def)
  let ?u = "t\<lparr>recv_buffer_len := 0\<rparr>"
  from blaster_recv_spec [OF blaster_inv_safe [OF t(1)] t(3) 4(4,9,6), folded last_bit_free_def] obtain buf' where
    r: "usb_blaster_jtag_scan_chain_recv buf n flip t = Inr (True, buf', ?u)" "length buf' = length buf"
      "last_bit_free buf n flip \<longrightarrow> bits_of buf' n = blaster_tdo (collected t) n flip"
    by (elim exE conjE)
  have "blaster_inv ?u" "blaster_idle ?u" "blaster_wire ?u = blaster_wire t" "same_host t ?u" "ready ?u"
    using t(1,2) ready_view [of ?u t]
    by (simp_all add: blaster_inv_def blaster_safe_def blaster_idle_def blaster_wire_def same_host_def)
  moreover have "bits_of buf' n = tdo_bits f (history (blaster_wire s))
      (tap_view (run_tap TestLogicReset (tms_bits (blaster_wire s))) (scan_cycles data n flip True))"
    if "target = Some f \<and> last_bit_free buf n flip" for f
    using scan_shown [of f s n data flip "collected t" t] 4(1,3-5) t(4) r(3) that by simp
  ultimately show ?case using r(1,2) by (intro exI [of _ buf'] exI [of _ ?u]) (auto simp: usb_blaster_driver_def)
qed

end
