(* ===== verification/Usb_Blaster_Adapter.thy ===== *)
theory Usb_Blaster_Adapter
  imports Usb_Blaster_Link
begin

text \<open>
  The USB Blaster driver on an adapter of which only the protocol is known: whatever bytes it
  answers with are collected in order (\<open>reply_stream\<close>). The second half is its initialisation.
\<close>

section \<open>The contract with the adapter\<close>

text \<open>
  \<open>reply_stream E q\<close>: \<open>q\<close> predicts the bytes the adapter will deliver, reads hand them out in order
  and writes leave them.
\<close>

definition reply_stream :: "'w ext \<Rightarrow> ('w \<Rightarrow> byte list) \<Rightarrow> bool" where
  "reply_stream E q \<longleftrightarrow>
     (\<forall>n w. \<exists>bs w'. ftdi_read_data E n w = (Some bs, w') \<and> length bs \<le> n \<and> q w = bs @ q w') \<and>
     (\<forall>bs w. q (snd (ftdi_write_data E bs w)) = q w)"

definition blaster_live :: "'w ext \<Rightarrow> bool" where
  "blaster_live E \<longleftrightarrow> usb_writes_accepted E \<and> usb_reads_answered E"

lemma call_ftdi_read_stream:
  "reply_stream E q \<Longrightarrow> call_ftdi_read E n s = (r, t) \<Longrightarrow>
     \<exists>bs. r = Some bs \<and> q (world s) = bs @ q (world t)"
proof -
  assume q: "reply_stream E q" and c: "call_ftdi_read E n s = (r, t)"
  from q obtain bs w where "ftdi_read_data E n (world s) = (Some bs, w)" "length bs \<le> n" "q (world s) = bs @ q w"
    unfolding reply_stream_def by blast
  with c show ?thesis by (auto simp: call_ftdi_read_def)
qed

lemma ftdi_read_loop_stream:
  "reply_stream E q \<Longrightarrow> ftdi_read_loop E retry len got s = (ok, bs, t) \<Longrightarrow>
     \<exists>new. bs = got @ new \<and> q (world s) = new @ q (world t)"
proof (induction retry arbitrary: got s)
  case 0
  then show ?case by simp
next
  case (Suc retry)
  show ?case
  proof (cases "length got < len")
    case False
    with Suc.prems show ?thesis by simp
  next
    case True
    obtain r s1 where c: "call_ftdi_read E (len - length got) s = (r, s1)" by fastforce
    from call_ftdi_read_stream [OF Suc.prems(1) c] obtain b where b: "r = Some b" "q (world s) = b @ q (world s1)"
      by blast
    with Suc.prems c True have "ftdi_read_loop E retry len (got @ b) s1 = (ok, bs, t)" by simp
    from Suc.IH [OF Suc.prems(1) this] b(2) show ?thesis by auto
  qed
qed

lemma ftdi_write_loop_stream:
  "reply_stream E q \<Longrightarrow> ftdi_write_loop E retry data offset s = (ok, t) \<Longrightarrow> q (world t) = q (world s)"
proof (induction retry arbitrary: offset s)
  case 0
  then show ?case by simp
next
  case (Suc retry)
  show ?case
  proof (cases "offset < length data")
    case False
    with Suc.prems show ?thesis by simp
  next
    case True
    obtain r s1 where c: "call_ftdi_write E (drop offset data) s = (r, s1)" by fastforce
    have "q (snd (ftdi_write_data E (drop offset data) (world s))) = q (world s)"
      using Suc.prems(1) by (simp add: reply_stream_def)
    then have "q (world s1) = q (world s)"
      using c by (auto simp: call_ftdi_write_def split: prod.splits option.splits)
    with Suc.prems Suc.IH [of _ s1] c True show ?thesis by (cases r) auto
  qed
qed

definition streams :: "'w ext \<Rightarrow> ('w, 'z) blaster_state_scheme \<Rightarrow> blaster_cmd list \<Rightarrow> byte list
    \<Rightarrow> ('w, 'z) blaster_state_scheme \<Rightarrow> bool" where
  "streams E s cs got t \<longleftrightarrow> (\<forall>q. reply_stream E q \<longrightarrow> q (world s) = got @ q (world t))"

interpretation usb_blaster: blaster_link E "\<lambda>_. True" "blaster_live E" "streams E" "\<lambda>_. ()" None
  for E :: "'w ext"
proof (unfold_locales, goal_cases)
  case (1 s bs cs rd m)
  obtain ok1 s1 where w: "ftdi_write_retry E bs s = (ok1, s1)" by fastforce
  from exchange_read [of rd E m s1] obtain ok2 got s2 where
    r: "if rd then ftdi_read_retry E m s1 = (ok2, got, s2) else ok2 \<and> got = [] \<and> s2 = s1" by blast
  have room: "rd \<longrightarrow> recv_buffer_len s + m \<le> RECV_SIZE" using 1(5) by simp
  from exchange_write_read [OF 1(1) room w r] obtain t where
    t: "blaster_exchange E bs rd m s = Inr (ok1 \<and> ok2, t)" "blaster_safe t" "same_host s t" "state t = state s"
      "ok1 \<and> ok2 \<longrightarrow> usb_out t = usb_out s @ bs \<and> world t = world s2 \<and> collected t = collected s @ got \<and>
        length got = (if rd then m else 0)" by blast
  have "ok1 \<and> ok2" if "blaster_live E"
    using ftdi_write_retry_accepted [of E bs s] ftdi_read_retry_answered [of E m s1] that w r 1(5)
    by (auto simp: blaster_live_def split: if_splits)
  moreover have "streams E s cs got t" if "ok1 \<and> ok2"
    unfolding streams_def
  proof (intro allI impI)
    fix q assume q: "reply_stream E q"
    have "q (world s1) = got @ q (world s2)"
      using ftdi_read_loop_stream [OF q, of 100 m "[]" s1 ok2 got s2] r by (auto simp: ftdi_read_retry_def split: if_splits)
    moreover have "q (world s1) = q (world s)"
      using ftdi_write_loop_stream [OF q, of 100 bs 0 s ok1 s1] w by (simp add: ftdi_write_retry_def)
    ultimately show "q (world s) = got @ q (world t)" using t(5) that by simp
  qed
  ultimately show ?case using t by blast
qed (simp_all add: streams_def)

lemma blaster_is_driver:
  "jtag_driver (usb_blaster_driver E) blaster_inv blaster_idle blaster_wire (blaster_live E) (\<lambda>_. ()) None"
  using usb_blaster.jtag_driver_axioms [of E] by simp

lemmas blaster_wires = jtag_driver.axioms(1) [OF blaster_is_driver]

section \<open>Initialisation\<close>

lemma decode_pins_list:
  "\<forall>c \<in> set bs. \<not> bit c 7 \<Longrightarrow> blaster_decode bs = Some (map Pins bs)"
  by (induction bs) (simp_all add: decode_pins)

definition flush_bytes :: "byte list" where
  "flush_bytes = map (\<lambda>i. build_command False False (i mod 2 = 1) False) [0..<4096]"

lemma decode_flush: "blaster_decode flush_bytes = Some (map Pins flush_bytes)"
  by (rule decode_pins_list) (auto simp: flush_bytes_def bits_build_command)

lemma faithful_tail:
  "faithful (pins_after l xs) ys \<Longrightarrow> run_blaster (pins_after l xs) ys \<noteq> [] \<Longrightarrow> faithful l (xs @ ys)"
  by (simp add: faithful_def run_blaster_append)

lemma blaster_drain_frame: "blaster_drain E polls s = Inr t \<Longrightarrow> \<exists>w. t = s\<lparr>world := w\<rparr>"
proof (induction polls arbitrary: s)
  case 0
  then show ?case by simp
next
  case (Suc polls)
  obtain r s1 where c: "call_ftdi_read E 1 s = (r, s1)" by fastforce
  from call_ftdi_read_frame [OF c] obtain w where s1: "s1 = s\<lparr>world := w\<rparr>" by blast
  from Suc.prems c have "t = s1 \<or> blaster_drain E polls s1 = Inr t"
    by (auto split: option.splits list.splits)
  with Suc.IH [of s1] s1 show ?case by auto
qed

lemma blaster_drain_ends:
  "reply_stream E q \<Longrightarrow> length (q (world s)) < polls \<Longrightarrow> \<exists>t. blaster_drain E polls s = Inr t"
proof (induction polls arbitrary: s)
  case 0
  then show ?case by simp
next
  case (Suc polls)
  obtain r s1 where c: "call_ftdi_read E 1 s = (r, s1)" by fastforce
  from call_ftdi_read_stream [OF Suc.prems(1) c] obtain bs where
    bs: "r = Some bs" "q (world s) = bs @ q (world s1)" by blast
  show ?case
  proof (cases bs)
    case Nil
    with c bs show ?thesis by simp
  next
    case (Cons b bs')
    with bs(2) Suc.prems(2) have "length (q (world s1)) < polls" by simp
    from Suc.IH [OF Suc.prems(1) this] c bs(1) Cons show ?thesis by simp
  qed
qed

definition blaster_untouched :: "('w, 'z) blaster_state_scheme \<Rightarrow> ('w, 'z) blaster_state_scheme \<Rightarrow> bool" where
  "blaster_untouched s t \<longleftrightarrow> same_host s t \<and> state t = state s \<and> usb_out t = usb_out s \<and>
     recv_buffer t = recv_buffer s \<and> recv_buffer_len t = recv_buffer_len s"

lemma blaster_untouched_trans [trans]:
  "blaster_untouched s t \<Longrightarrow> blaster_untouched t u \<Longrightarrow> blaster_untouched s u"
  by (auto simp: blaster_untouched_def intro: same_host_trans)

lemma control_untouched:
  fixes s :: "('w, 'z) blaster_state_scheme"
  shows "call_ftdi_control E op s = (r, t) \<Longrightarrow> blaster_untouched s t"
    and "control_assert E op s = Inr t \<Longrightarrow> blaster_untouched s t"
  by (auto simp: call_ftdi_control_def control_assert_def blaster_untouched_def same_host_def
      split: prod.splits if_splits)

lemma usb_blaster_init_True:
  fixes s :: "('w, 'z) blaster_state_scheme"
  assumes "usb_blaster_init E cfg s = Inr (True, t)"
  shows "\<exists>s1 s2 w ok. blaster_untouched s s1 \<and> s2 = s1\<lparr>usb_out := usb_out s @ flush_bytes, world := w\<rparr> \<and>
     usb_blaster_jtag_tms_seq E [0xff] 5 s2 = Inr (ok, t)"
proof -
  obtain h a where 1: "call_ftdi_control E Ftdi_new s = (h, a)" by fastforce
  obtain r b where 2: "call_ftdi_control E (Ftdi_usb_open (ftdi_vid cfg) (ftdi_pid cfg)) a = (r, b)" by fastforce
  from assms obtain c d e f g h ok where
    steps: "control_assert E Ftdi_usb_reset b = Inr c" "control_assert E (Ftdi_set_baudrate 115200) c = Inr d"
      "control_assert E (Ftdi_set_latency_timer 1) d = Inr e" "f = snd (call_ftdi_control E Ftdi_disable_bitbang e)"
      "ftdi_write_retry E flush_bytes f = (True, g)" "blaster_drain E (ext_polls E) g = Inr h"
      "usb_blaster_jtag_tms_seq E [0xff] 5 h = Inr (ok, t)"
    unfolding usb_blaster_init_def flush_bytes_def [symmetric]
    by (auto simp: 1 2 Let_def result_iff split: if_splits)
  have "blaster_untouched s f"
    using control_untouched(1) [OF 1] control_untouched(1) [OF 2] control_untouched(2) [OF steps(1)]
      control_untouched(2) [OF steps(2)] control_untouched(2) [OF steps(3)]
      control_untouched(1) [OF prod.collapse [symmetric]] steps(4) blaster_untouched_trans by metis
  moreover from ftdi_write_retry_True [OF steps(5)] blaster_drain_frame [OF steps(6)] obtain w where
    "h = f\<lparr>usb_out := usb_out f @ flush_bytes, world := w\<rparr>" by auto
  ultimately show ?thesis using steps(7)
    by (intro exI [of _ f] exI [of _ h] exI [of _ w] exI [of _ ok]) (simp add: blaster_untouched_def)
qed

lemma usb_blaster_init_ready:
  fixes s :: "('w, 'z) blaster_state_scheme"
  assumes "usb_blaster_init E cfg s = Inr (True, t)" "usb_writes_accepted E"
    and "usb_out s = []" "blaster_safe s" "recv_buffer_len s = 0" "state s = TestLogicReset"
  shows "blaster_inv t \<and> blaster_idle t \<and> tracks blaster_wire t \<and> same_host s t \<and> blaster_wire t \<noteq> []"
proof -
  from usb_blaster_init_True [OF assms(1)] obtain s1 s2 w ok where
    u: "blaster_untouched s s1" "s2 = s1\<lparr>usb_out := usb_out s @ flush_bytes, world := w\<rparr>"
      "usb_blaster_jtag_tms_seq E [0xff] 5 s2 = Inr (ok, t)" by blast
  have s2: "blaster_safe s2" "usb_out s2 = flush_bytes" "recv_buffer_len s2 = 0" "state s2 = TestLogicReset"
      "same_host s s2"
    using u(1,2) assms(3-6) by (auto simp: blaster_untouched_def blaster_safe_def same_host_def)
  define tms where "tms = concat (map (\<lambda>j. clock_pair (bit_at [0xff] j) False False) [0..<5]) @
     [build_command (bit_at [0xff] (5 - 1)) False False False]"
  have "blaster_tms_loop [0xff] 0 5 None [] = Inr (Some (bit_at [0xff] 4),
      concat (map (\<lambda>j. clock_pair (bit_at [0xff] j) False False) [0..<5]))"
    using tms_loop_out [of 0 5 "[0xff]" None "[]"] by simp
  then have "ftdi_write_retry E tms s2 = (ok, t)"
    using u(3) by (simp add: usb_blaster_jtag_tms_seq_def tms_def)
  moreover have "ok"
    using ftdi_write_retry_accepted [OF assms(2), of tms s2] calculation by simp
  ultimately obtain w' where t: "t = s2\<lparr>usb_out := flush_bytes @ tms, world := w'\<rparr>"
    using ftdi_write_retry_True [of E tms s2 t] s2(2) by auto
  have dec: "blaster_decode (usb_out t) = Some (map Pins flush_bytes @ blaster_tms_cmds [0xff] 5)"
    using t blaster_tms_cmds(1) [of 5 "[0xff]"] decode_flush
    by (simp add: tms_def blaster_decode_append_Some)
  define l where "l = pins_after (False, False) (map Pins flush_bytes)"
  have run: "run_blaster l (blaster_tms_cmds [0xff] 5) = map (\<lambda>j. Cycle (bit_at [0xff] j) (Some False) False) [0..<5]"
    by (rule blaster_tms_cmds(2)) simp
  then have "run_blaster l (blaster_tms_cmds [0xff] 5) \<noteq> []" by simp
  then have f: "faithful (False, False) (map Pins flush_bytes @ blaster_tms_cmds [0xff] 5)"
    using blaster_tms_cmds(3) [of 5 l "[0xff]"] unfolding l_def by (intro faithful_tail) simp_all
  have w: "blaster_wire t = run_blaster (False, False) (map Pins flush_bytes) @
      map (\<lambda>j. Cycle (bit_at [0xff] j) (Some False) False) [0..<5]"
    unfolding blaster_wire_def blaster_cycles_def dec option.case run_blaster_append l_def [symmetric] run ..
  have "tms_bits (map (\<lambda>j. Cycle (bit_at [0xff] j) (Some False) False) [0..<5]) = [True, True, True, True, True]"
    by (simp add: upt_small bit_at_def)
  then have "run_tap TestLogicReset (tms_bits (blaster_wire t)) = TestLogicReset"
    unfolding w by (simp only: map_append run_tap_append five_ones_reset)
  moreover have "blaster_safe t" "state t = TestLogicReset" "recv_buffer_len t = 0" "same_host s t"
    using s2 t by (auto simp: blaster_safe_def same_host_def)
  ultimately show ?thesis
    using dec f w by (simp add: blaster_inv_def tracks_def blaster_idle_def)
qed

text \<open>
  The result of the last write of the initialisation, the reset of the TAP, is not looked at: when none of
  it is taken, all the adapter has clocked is the flush.
\<close>

lemma flush_cmds: "map Pins flush_bytes = concat (map (\<lambda>_. pair_cmds False False False) [0..<2048])"
proof -
  have "map (\<lambda>i. Pins (build_command False False (i mod 2 = 1) False)) [0..<2 * n] =
      concat (map (\<lambda>_. pair_cmds False False False) [0..<n])" for n
    by (induction n) (simp_all add: pair_cmds_def)
  from this [of 2048] show ?thesis by (simp add: flush_bytes_def comp_def)
qed

lemma flush_cycles: "run_blaster (False, False) (map Pins flush_bytes) = replicate 2048 (Cycle False (Some False) False)"
  unfolding flush_cmds pairs_run(1) by (simp add: map_replicate_const)

lemma idle_zeros: "run_tap RunTestIdle (replicate n False) = RunTestIdle"
  by (induction n) simp_all

lemma usb_blaster_init_unreset:
  fixes s :: "('w, 'z) blaster_state_scheme"
  assumes "usb_blaster_init E cfg s = Inr (True, t)" "usb_out s = []" "state s = TestLogicReset" "length (usb_out t) = 4096"
  shows "state t = TestLogicReset \<and> blaster_wire t = replicate 2048 (Cycle False (Some False) False) \<and>
     run_tap TestLogicReset (tms_bits (blaster_wire t)) = RunTestIdle"
proof -
  from usb_blaster_init_True [OF assms(1)] obtain s1 s2 w ok where
    u: "blaster_untouched s s1" "s2 = s1\<lparr>usb_out := usb_out s @ flush_bytes, world := w\<rparr>"
      "usb_blaster_jtag_tms_seq E [0xff] 5 s2 = Inr (ok, t)" by blast
  have s2: "usb_out s2 = flush_bytes" "state s2 = TestLogicReset"
    using u(1,2) assms(2,3) by (simp_all add: blaster_untouched_def)
  have "blaster_tms_loop [0xff] 0 5 None [] = Inr (Some (bit_at [0xff] 4),
      concat (map (\<lambda>j. clock_pair (bit_at [0xff] j) False False) [0..<5]))"
    using tms_loop_out [of 0 5 "[0xff]" None "[]"] by simp
  then obtain tms where "ftdi_write_retry E tms s2 = (ok, t)" using u(3) by (simp add: usb_blaster_jtag_tms_seq_def)
  from ftdi_write_retry_log [OF this] obtain k w' where t: "t = s2\<lparr>usb_out := usb_out s2 @ take k tms, world := w'\<rparr>" by blast
  have "length flush_bytes = 4096" by (simp add: flush_bytes_def)
  then have out: "usb_out t = flush_bytes" using t s2(1) assms(4) by (auto simp: min_def split: if_splits)
  have wire: "blaster_wire t = replicate 2048 (Cycle False (Some False) False)"
    by (simp add: blaster_wire_def blaster_cycles_def out decode_flush flush_cycles)
  have "run_tap TestLogicReset (replicate (Suc 2047) False) = RunTestIdle"
    unfolding replicate_Suc by (simp add: idle_zeros)
  then have "run_tap TestLogicReset (tms_bits (blaster_wire t)) = RunTestIdle"
    unfolding wire map_replicate cycle.sel by simp
  with wire t s2(2) show ?thesis by simp
qed

end
