(* ===== verification/Usb_Blaster_Scan.thy ===== *)
theory Usb_Blaster_Scan
  imports Usb_Blaster_Adapter
begin

text \<open>
  The round trip of a captured scan through the USB Blaster driver (src/usb_blaster.cpp) and the
  properties of the driver: what its operations clock, what they return, what
  initialisation establishes, and the uses of it that end the program.
\<close>

section \<open>The captured scan\<close>

text \<open>
  The scan is sent and its reply collected in the same call; \<open>usb_blaster_jtag_scan_chain_recv\<close>
  then hands out the collected bytes. \<open>got\<close> is what the adapter delivered meanwhile.
\<close>

lemma blaster_scan_reply:
  fixes s :: "('w, 'z) blaster_state_scheme"
  assumes inv: "blaster_inv s" "recv_buffer_len s = 0"
    and n: "0 < n" "n \<le> 8 * length data" "n \<le> 8 * length buf" "n \<le> SCAN_LIMIT"
    and sent: "usb_blaster_jtag_scan_chain_send E data n flip True s = Inr (True, t)"
    and q: "reply_stream E q"
  shows "\<exists>got buf'. q (world s) = got @ q (world t) \<and> length got = got_count n flip True \<and>
     usb_blaster_jtag_scan_chain_recv buf n flip t = Inr (True, buf', t\<lparr>recv_buffer_len := 0\<rparr>) \<and>
     length buf' = length buf \<and>
     ((flip \<and> (n - 1) mod 8 = 0 \<longrightarrow> \<not> bit_at buf (n - 1)) \<longrightarrow> bits_of buf' n = blaster_tdo got n flip)"
proof -
  from usb_blaster.scan_send_hands [OF blaster_inv_safe [OF inv(1)] TrueI inv(2) n(1,2,4), of E flip True] sent
  have t: "blaster_safe t"
    "usb_blaster.handed E s (blaster_scan_bytes data n flip True) (blaster_scan_cmds data n flip True) (got_count n flip True) t"
    by auto
  then obtain got where got: "length got = got_count n flip True" "collected t = collected s @ got"
      "q (world s) = got @ q (world t)" using q unfolding usb_blaster.handed_def streams_def by blast
  have col: "collected t = got" using got(2) inv(2) by (simp add: collected_def)
  have "recv_buffer_len t = got_count n flip True"
    using usb_blaster.handed_len [OF blaster_inv_safe [OF inv(1)] t] inv(2) by simp
  from blaster_recv_spec [OF t(1) this n(1,3,4)] obtain buf' where
    "usb_blaster_jtag_scan_chain_recv buf n flip t = Inr (True, buf', t\<lparr>recv_buffer_len := 0\<rparr>) \<and>
     length buf' = length buf \<and>
     ((flip \<and> (n - 1) mod 8 = 0 \<longrightarrow> \<not> bit_at buf (n - 1)) \<longrightarrow> bits_of buf' n = blaster_tdo (collected t) n flip)" ..
  then show ?thesis unfolding col by (intro exI [of _ got] exI [of _ buf'] conjI got) (elim conjE, assumption)+
qed

lemma blaster_start_inv:
  "blaster_inv (blaster_start w)" "blaster_safe (blaster_start w)" "recv_buffer_len (blaster_start w) = 0"
  "blaster_wire (blaster_start w) = []"
  by (simp_all add: blaster_inv_def blaster_safe_def blaster_wire_def blaster_cycles_def blaster_start_def
      common_state.defs blaster_state.defs process_start_def faithful_def)

lemma blaster_samples [simp]: "blaster_live (zeros_ext p)" "reply_stream (queue_ext p) fst"
  by (auto simp: blaster_live_def reply_stream_def queue_ext_def)

text \<open>Initialisation succeeds where libftdi's calls do and the queue of the adapter runs dry.\<close>

lemma usb_blaster_init_works:
  fixes s :: "('w, 'z) blaster_state_scheme"
  assumes "ftdi_control_works E" "usb_writes_accepted E" "reply_stream E q" "\<forall>w. length (q w) < ext_polls E"
  shows "\<exists>t. usb_blaster_init E cfg s = Inr (True, t)"
proof -
  obtain h a where 1: "call_ftdi_control E Ftdi_new s = (h, a)" by fastforce
  obtain r b where 2: "call_ftdi_control E (Ftdi_usb_open (ftdi_vid cfg) (ftdi_pid cfg)) a = (r, b)" by fastforce
  have r: "h \<noteq> 0" "r = 0"
    using call_ftdi_control_works [OF assms(1) 1] call_ftdi_control_works [OF assms(1) 2] by auto
  obtain c where c: "control_assert E Ftdi_usb_reset b = Inr c" using control_assert_works [OF assms(1)] by blast
  obtain d where d: "control_assert E (Ftdi_set_baudrate 115200) c = Inr d"
    using control_assert_works [OF assms(1)] by blast
  obtain e where e: "control_assert E (Ftdi_set_latency_timer 1) d = Inr e"
    using control_assert_works [OF assms(1)] by blast
  define f where "f = snd (call_ftdi_control E Ftdi_disable_bitbang e)"
  obtain g where g: "ftdi_write_retry E flush_bytes f = (True, g)" using write_retry_works [OF assms(2)] by blast
  obtain h where h: "blaster_drain E (ext_polls E) g = Inr h" using blaster_drain_ends [OF assms(3)] assms(4) by blast
  have "blaster_tms_loop [0xff] 0 5 None [] = Inr (Some (bit_at [0xff] 4),
      concat (map (\<lambda>j. clock_pair (bit_at [0xff] j) False False) [0..<5]))"
    using tms_loop_out [of 0 5 "[0xff]" None "[]"] by simp
  then obtain ok t where "usb_blaster_jtag_tms_seq E [0xff] 5 h = Inr (ok, t)"
    by (auto simp: usb_blaster_jtag_tms_seq_def) (metis prod.collapse)
  with r c d e g h show ?thesis
    unfolding usb_blaster_init_def flush_bytes_def [symmetric] by (simp add: 1 2 Let_def f_def [symmetric])
qed

text \<open>An adapter that accepts everything and has nothing to say.\<close>

definition silent_ext :: "nat \<Rightarrow> unit ext" where
  "silent_ext polls = (zeros_ext polls)\<lparr>ftdi_read_data := \<lambda>n w. (Some [], w)\<rparr>"

lemma silent_ext_facts:
  "usb_writes_accepted (silent_ext p)" "ftdi_control_works (silent_ext p)" "reply_stream (silent_ext p) (\<lambda>_. [])"
  "ext_polls (silent_ext p) = p"
  by (auto simp: silent_ext_def usb_writes_accepted_def ftdi_control_works_def reply_stream_def zeros_ext_def)

lemma sample_blaster_shift:
  "\<exists>t. usb_blaster_jtag_tms_seq (zeros_ext 1) [0x02] 4 (blaster_start ()) = Inr (True, t) \<and>
     blaster_inv t \<and> recv_buffer_len t = 0 \<and> tms_low (blaster_wire t)"
proof -
  from usb_blaster.tms_contract [OF blaster_start_inv(1) TrueI, of 4 "[0x02]" "zeros_ext 1" "()"] obtain t where
    t: "usb_blaster_jtag_tms_seq (zeros_ext 1) [0x02] 4 (blaster_start ()) = Inr (True, t)" "blaster_inv t"
      "recv_buffer_len t = 0"
      "blaster_wire t = map (\<lambda>j. Cycle (bit_at [0x02] j) (Some False) False) [0..<4]"
    by (auto simp: blaster_start_inv)
  then have "tms_low (blaster_wire t)" by (simp add: tms_low_def upt_small bit_at_def)
  with t show ?thesis by blast
qed

text \<open>
  A TMS sequence of no bits builds its last byte from the uninitialised \<open>bit\<close>.
\<close>

lemma blaster_no_bits: "usb_blaster_jtag_tms_seq E data 0 s = Inl Uninitialised"
  by (simp add: usb_blaster_jtag_tms_seq_def)

section \<open>Properties\<close>

text \<open>
  C16: \<open>usb_blaster_jtag_tms_seq\<close> makes the adapter clock exactly the TMS bits it is given, one
  rising edge of TCK per bit, with TDI low and nothing captured.
\<close>

theorem blaster_tms_seq_exact:
  fixes s :: "('w, 'z) blaster_state_scheme"
  assumes "blaster_inv s" "0 < n" "n \<le> 8 * length data"
  shows "\<exists>ok t. usb_blaster_jtag_tms_seq E data n s = Inr (ok, t) \<and> same_host s t \<and> state t = state s \<and>
     (blaster_live E \<longrightarrow> ok) \<and>
     (ok \<longrightarrow> blaster_inv t \<and> recv_buffer_len t = recv_buffer_len s \<and>
        blaster_wire t = blaster_wire s @ map (\<lambda>j. Cycle (bit_at data j) (Some False) False) [0..<n])"
  using usb_blaster.tms_contract [OF assms(1) TrueI assms(2,3), of E] by simp

theorem blaster_tms_seq_exact_witness:
  "\<exists>t. usb_blaster_jtag_tms_seq (zeros_ext 1) [0x02] 4 (blaster_start ()) = Inr (True, t) \<and>
     blaster_wire t = map (\<lambda>j. Cycle (bit_at [0x02] j) (Some False) False) [0..<4]"
  using blaster_tms_seq_exact [OF blaster_start_inv(1), of 4 "[0x02]" "zeros_ext 1" "()"]
  by (auto simp: blaster_start_inv simp del: upt_Suc)

text \<open>
  C14: \<open>usb_blaster_jtag_scan_chain_send\<close> makes the adapter clock exactly the scan it is given,
  whatever mixture of byte-shift packets of up to 32 bytes, single bits and a last bit it takes:
  cycle \<open>i\<close> carries \<open>data\<close> bit \<open>i\<close> on TDI, TMS is low but with the last bit when \<open>flip_tms\<close> is set,
  TDO is captured when \<open>do_read\<close> is set. It never writes past its receive buffer, for scans of up
  to 32704 bits.
\<close>

theorem blaster_scan_send_exact:
  fixes s :: "('w, 'z) blaster_state_scheme"
  assumes "blaster_inv s" "recv_buffer_len s = 0" "tms_low (blaster_wire s)"
    and "0 < n" "n \<le> 8 * length data" "n \<le> SCAN_LIMIT"
  shows "\<exists>ok t. usb_blaster_jtag_scan_chain_send E data n flip rd s = Inr (ok, t) \<and> same_host s t \<and>
     (blaster_live E \<longrightarrow> ok) \<and>
     (ok \<longrightarrow> blaster_inv t \<and> state t = (if flip then next_state (state s) True else state s) \<and>
        blaster_wire t = blaster_wire s @
          map (\<lambda>i. Cycle (flip \<and> Suc i = n) (Some (bit_at data i)) rd) [0..<n])"
  using usb_blaster.send_contract [OF assms(1) TrueI assms(2-6), of E flip rd] by (auto simp: scan_cycles_def)

theorem blaster_scan_send_exact_witness:
  "\<exists>(s :: unit blaster_state) t.
     usb_blaster_jtag_scan_chain_send (zeros_ext 1) [0x55, 0x03] 10 True True s = Inr (True, t) \<and>
     blaster_wire t = blaster_wire s @
       map (\<lambda>i. Cycle (True \<and> Suc i = 10) (Some (bit_at [0x55, 0x03] i)) True) [0..<10]"
proof -
  obtain s where s: "blaster_inv s" "recv_buffer_len s = 0" "tms_low (blaster_wire (s :: unit blaster_state))"
    using sample_blaster_shift by blast
  have "0 < (10 :: nat)" "10 \<le> 8 * length [0x55, 0x03 :: byte]" "10 \<le> SCAN_LIMIT"
    by (simp_all add: SCAN_LIMIT_def)
  from blaster_scan_send_exact [OF s this, of "zeros_ext 1" True True]
  have "\<exists>t. usb_blaster_jtag_scan_chain_send (zeros_ext 1) [0x55, 0x03] 10 True True s = Inr (True, t) \<and>
     blaster_wire t = blaster_wire s @
       map (\<lambda>i. Cycle (True \<and> Suc i = 10) (Some (bit_at [0x55, 0x03] i)) True) [0..<10]"
    by (auto simp del: upt_Suc)
  then show ?thesis by (rule exI)
qed

text \<open>
  C13: round trip of a captured scan through the USB Blaster. After a successful scan with
  \<open>do_read\<close>, \<open>usb_blaster_jtag_scan_chain_recv\<close> succeeds and gives back exactly the TDO bits in
  the bytes the adapter delivered: eight bits of each byte of the byte-shift packets, bit 0
  of each byte of a single bit. Nothing of the reply is lost, duplicated or left over,
  however the transfers were cut, and the driver is ready for the next scan. (Where the last bit
  starts a byte of its own, that bit of the caller's array must have been clear.)
\<close>

theorem blaster_scan_roundtrip:
  fixes s :: "('w, 'z) blaster_state_scheme"
  assumes "blaster_inv s" "recv_buffer_len s = 0" "reply_stream E q"
    and "0 < n" "n \<le> 8 * length data" "n \<le> 8 * length buf" "n \<le> SCAN_LIMIT"
    and "usb_blaster_jtag_scan_chain_send E data n flip True s = Inr (True, t)"
    and "flip \<and> (n - 1) mod 8 = 0 \<longrightarrow> \<not> bit_at buf (n - 1)"
  shows "\<exists>got buf'. q (world s) = got @ q (world t) \<and>
     usb_blaster_jtag_scan_chain_recv buf n flip t = Inr (True, buf', t\<lparr>recv_buffer_len := 0\<rparr>) \<and>
     length buf' = length buf \<and> bits_of buf' n = blaster_tdo got n flip"
  using blaster_scan_reply [OF assms(1,2,4-8,3)] assms(9) by blast

lemma sample_blaster_scan:
  "\<exists>t. usb_blaster_jtag_scan_chain_send (queue_ext 1) [0x55, 0x03] 10 True True
       (blaster_start ([0x0F, 0, 1, 0x42], [])) = Inr (True, t) \<and> world t = ([0x42], [])"
proof -
  have "case usb_blaster_jtag_scan_chain_send (queue_ext 1) [0x55, 0x03] 10 True True
       (blaster_start ([0x0F, 0, 1, 0x42], [])) of Inl _ \<Rightarrow> False | Inr (ok, t) \<Rightarrow> ok \<and> world t = ([0x42], [])"
    by code_simp
  then show ?thesis by (auto split: sum.splits)
qed

theorem blaster_scan_roundtrip_witness:
  "\<exists>t buf'. usb_blaster_jtag_scan_chain_send (queue_ext 1) [0x55, 0x03] 10 True True
       (blaster_start ([0x0F, 0, 1, 0x42], [])) = Inr (True, t) \<and>
     usb_blaster_jtag_scan_chain_recv [0xFF, 0xFF] 10 True t = Inr (True, buf', t\<lparr>recv_buffer_len := 0\<rparr>) \<and>
     bits_of buf' 10 = [True, True, True, True, False, False, False, False, False, True]"
proof -
  let ?s = "blaster_start ([0x0F, 0, 1, 0x42], []) :: (byte list \<times> byte list) blaster_state"
  from sample_blaster_scan obtain t where
    t: "usb_blaster_jtag_scan_chain_send (queue_ext 1) [0x55, 0x03] 10 True True ?s = Inr (True, t)"
      "world t = ([0x42], [])" by blast
  have n: "0 < (10 :: nat)" "10 \<le> 8 * length [0x55, 0x03 :: byte]" "10 \<le> 8 * length [0xFF, 0xFF :: byte]"
      "10 \<le> SCAN_LIMIT" "True \<and> (10 - 1) mod 8 = (0 :: nat) \<longrightarrow> \<not> bit_at [0xFF, 0xFF] (10 - 1)"
    by (simp_all add: SCAN_LIMIT_def)
  from blaster_scan_roundtrip [OF blaster_start_inv(1,3) blaster_samples(2) n(1-4) t(1) n(5)]
  obtain got buf' where r: "fst (world ?s) = got @ fst (world t)"
    "usb_blaster_jtag_scan_chain_recv [0xFF, 0xFF] 10 True t = Inr (True, buf', t\<lparr>recv_buffer_len := 0\<rparr>)"
    "bits_of buf' 10 = blaster_tdo got 10 True" by blast
  have "world ?s = ([0x0F, 0, 1, 0x42], [])"
    by (simp add: blaster_start_def common_state.defs blaster_state.defs process_start_def)
  with r(1) t(2) have "got = [0x0F, 0, 1]" by simp
  moreover have "blaster_tdo [0x0F, 0, 1] 10 True =
      [True, True, True, True, False, False, False, False, False, True]" by code_simp
  ultimately show ?thesis using t(1) r(2,3) by auto
qed

text \<open>
  C20: what a successful \<open>usb_blaster_init\<close> of a fresh process establishes. On an adapter that accepts every write:
  what every other operation relies on, that is the driver invariant, nothing waiting to be
  collected, and a software state that agrees with the cycles on the wire (the flush of the
  queue toggles TCK 2048 times with TMS low; the five ones that follow undo what that does to
  the TAP). It succeeds there when libftdi's calls do and the adapter's queue runs dry. But it also
  reports success when the adapter takes the flush (4096 bytes) and nothing of the reset that follows, whose result
  is not looked at: then the TAP is in Run-Test/Idle and the software state is Test-Logic-Reset.
\<close>

theorem blaster_init_establishes:
  fixes s :: "('w, 'z) blaster_state_scheme"
  assumes "usb_out s = []" "blaster_safe s" "recv_buffer_len s = 0" "state s = TestLogicReset"
  shows "(usb_writes_accepted E \<and> usb_blaster_init E cfg s = Inr (True, t) \<longrightarrow>
      blaster_inv t \<and> recv_buffer_len t = 0 \<and> tracks blaster_wire t \<and> blaster_wire t \<noteq> [] \<and> same_host s t) \<and>
    (usb_writes_accepted E \<and> ftdi_control_works E \<and> reply_stream E q \<and> (\<forall>w. length (q w) < ext_polls E) \<longrightarrow>
      (\<exists>u. usb_blaster_init E cfg s = Inr (True, u))) \<and>
    (usb_blaster_init E cfg s = Inr (True, t) \<and> length (usb_out t) = 4096 \<longrightarrow>
      state t = TestLogicReset \<and> blaster_wire t = replicate 2048 (Cycle False (Some False) False) \<and>
      run_tap TestLogicReset (tms_bits (blaster_wire t)) = RunTestIdle)"
proof (rule conjI [OF impI conjI [OF impI impI]])
  assume "usb_writes_accepted E \<and> usb_blaster_init E cfg s = Inr (True, t)"
  then show "blaster_inv t \<and> recv_buffer_len t = 0 \<and> tracks blaster_wire t \<and> blaster_wire t \<noteq> [] \<and> same_host s t"
    using usb_blaster_init_ready [OF _ _ assms, of E cfg t] by (simp add: blaster_idle_def)
next
  assume "usb_writes_accepted E \<and> ftdi_control_works E \<and> reply_stream E q \<and> (\<forall>w. length (q w) < ext_polls E)"
  then show "\<exists>u. usb_blaster_init E cfg s = Inr (True, u)" using usb_blaster_init_works by blast
next
  assume "usb_blaster_init E cfg s = Inr (True, t) \<and> length (usb_out t) = 4096"
  then show "state t = TestLogicReset \<and> blaster_wire t = replicate 2048 (Cycle False (Some False) False) \<and>
      run_tap TestLogicReset (tms_bits (blaster_wire t)) = RunTestIdle"
    using usb_blaster_init_unreset [OF _ assms(1,4)] by blast
qed

text \<open>An adapter that takes one write and refuses all that follow.\<close>

definition deaf_ext :: "nat ext" where
  "deaf_ext = \<lparr>
     ftdi_write_data = (\<lambda>bs w. if w = 0 then (Some (length bs), 1) else (None, w)),
     ftdi_read_data = (\<lambda>n w. (Some [], w)), ftdi_control = (\<lambda>op w. (if op = Ftdi_new then 1 else 0, w)),
     sock_write = (\<lambda>fd bs w. (Some (length bs), w)), sock_read = (\<lambda>fd n w. (None, w)),
     sock_control = (\<lambda>op w. (0, w)), ext_polls = 1, ext_stack = (\<lambda>n. [])\<rparr>"

definition sample_config :: config where
  "sample_config = \<lparr>ftdi_vid = 0x09fb, ftdi_pid = 0x6001, ftdi_channel = 1, adapter_type = Adapter_Xilinx,
     freq_mhz = 15, use_bus_addr = False, usb_bus_addr = 1, usb_dev_addr = 1\<rparr>"

lemma deaf_init: "\<exists>t. usb_blaster_init deaf_ext sample_config (blaster_start 0) = Inr (True, t) \<and> length (usb_out t) = 4096"
proof -
  have ctl: "call_ftdi_control deaf_ext op s = (if op = Ftdi_new then 1 else 0, s\<lparr>usb_ctl := usb_ctl s @ [op]\<rparr>)"
    for op and s :: "nat blaster_state" by (simp add: call_ftdi_control_def deaf_ext_def)
  have first: "ftdi_write_retry deaf_ext bs s = (True, s\<lparr>usb_out := usb_out s @ bs, world := 1\<rparr>)"
    if "world s = 0" "bs \<noteq> []" for bs and s :: "nat blaster_state"
  proof -
    have "call_ftdi_write deaf_ext bs s = (Some (length bs), s\<lparr>usb_out := usb_out s @ bs, world := 1\<rparr>)"
      using that by (simp add: call_ftdi_write_def deaf_ext_def)
    moreover have "(100 :: nat) = Suc (Suc 98)" by simp
    ultimately show ?thesis using that(2) by (simp only: ftdi_write_retry_def ftdi_write_loop.simps) simp
  qed
  have later: "ftdi_write_retry deaf_ext bs s = (False, s)"
    if "world s = 1" "bs \<noteq> []" for bs and s :: "nat blaster_state"
  proof -
    have "call_ftdi_write deaf_ext bs s = (None, s)"
      using that by (simp add: call_ftdi_write_def deaf_ext_def)
    moreover have "(100 :: nat) = Suc 99" by simp
    ultimately show ?thesis using that(2) by (simp only: ftdi_write_retry_def ftdi_write_loop.simps) simp
  qed
  have drain: "blaster_drain deaf_ext (ext_polls deaf_ext) s = Inr s" for s :: "nat blaster_state"
    by (simp add: deaf_ext_def call_ftdi_read_def)
  have loop: "blaster_tms_loop [0xff] 0 5 None [] = Inr (Some (bit_at [0xff] 4),
      concat (map (\<lambda>j. clock_pair (bit_at [0xff] j) False False) [0..<5]))"
    using tms_loop_out [of 0 5 "[0xff]" None "[]"] by simp
  have ne: "flush_bytes \<noteq> []" "length flush_bytes = 4096" by (simp_all add: flush_bytes_def)
  have w: "world (blaster_start 0) = 0" "usb_out (blaster_start 0) = []"
    by (simp_all add: blaster_start_def process_start_def common_state.defs blaster_state.defs)
  show ?thesis
    unfolding usb_blaster_init_def flush_bytes_def [symmetric]
    by (simp add: ctl control_assert_def Let_def first ne drain usb_blaster_jtag_tms_seq_def loop later w sample_config_def)
qed

theorem blaster_init_establishes_witness:
  "(\<exists>t. usb_blaster_init (silent_ext 1) sample_config (blaster_start ()) = Inr (True, t) \<and> blaster_inv t \<and> tracks blaster_wire t) \<and>
   (\<exists>t. usb_blaster_init deaf_ext sample_config (blaster_start 0) = Inr (True, t) \<and>
      state t = TestLogicReset \<and> run_tap TestLogicReset (tms_bits (blaster_wire t)) = RunTestIdle)"
proof -
  have start: "usb_out (blaster_start w) = []" "state (blaster_start w) = TestLogicReset" for w :: 'x
    by (simp_all add: blaster_start_def common_state.defs blaster_state.defs process_start_def)
  note est = blaster_init_establishes [OF start(1) blaster_start_inv(2,3) start(2)]
  from est [of "silent_ext 1" sample_config "()" _ "\<lambda>_. []"] silent_ext_facts [of 1] obtain t where
    t: "usb_blaster_init (silent_ext 1) sample_config (blaster_start ()) = Inr (True, t)" by auto
  with est [of "silent_ext 1" sample_config "()" t] silent_ext_facts(1) [of 1] have "blaster_inv t" "tracks blaster_wire t" by auto
  moreover from deaf_init obtain u where
    u: "usb_blaster_init deaf_ext sample_config (blaster_start 0) = Inr (True, u)" "length (usb_out u) = 4096" by blast
  with est [of deaf_ext sample_config 0 u] have "state u = TestLogicReset \<and> run_tap TestLogicReset (tms_bits (blaster_wire u)) = RunTestIdle"
    by blast
  ultimately show ?thesis using t u(1) by blast
qed

text \<open>
  C24: the loop of \<open>usb_blaster_init\<close> that empties the adapter's queue,
  \<open>while (ftdi_read_data(ftdi, &data, 1) > 0);\<close>, ends on every adapter whose queue is finite, after
  at most one poll more than there are bytes.
\<close>

theorem blaster_drain_terminates:
  "reply_stream E q \<Longrightarrow> length (q (world s)) < polls \<Longrightarrow> \<exists>t. blaster_drain E polls s = Inr t"
  by (rule blaster_drain_ends)

theorem blaster_drain_terminates_witness:
  "\<exists>t. blaster_drain (queue_ext 1) 4 (blaster_start ([1, 2, 3], [])) = Inr t"
  by (rule blaster_drain_terminates [OF blaster_samples(2)])
    (simp add: blaster_start_def common_state.defs blaster_state.defs process_start_def)

end
