(* ===== verification/Rbb.thy ===== *)
theory Rbb
  imports Replay
begin

text \<open>
  src/rbb.cpp: the OpenOCD remote bitbang server. One tick reads a chunk of command
  characters, collects the clocked TMS and TDI values and the positions of the \<open>R\<close> commands
  into bit vectors, and replays the vectors region by region. The main lemma characterises the
  tick on any driver that keeps its contract: which chunks pass the assertions of the code,
  and that the target's TAP then sees exactly the cycles the client asked for.
\<close>

section \<open>The tick\<close>

definition jtag_rbb_init :: "'w ext \<Rightarrow> ('w, 'z) common_state_scheme \<Rightarrow> bool \<times> ('w, 'z) common_state_scheme" where
  "jtag_rbb_init E s = setup_tcp_server E 12345 s"

record rbb_input =
  rbb_tms :: "byte list"
  rbb_tdi :: "byte list"
  rbb_read :: "byte list"
  rbb_bits :: nat
  rbb_read_bits :: nat

definition rbb_command :: "byte \<Rightarrow> rbb_input \<Rightarrow> rbb_input" where
  "rbb_command command inp =
     (if 0x30 \<le> command \<and> command \<le> 0x37 then
        let offset = command - 0x30; tck = bit offset 2; tms = bit offset 1; tdi = bit offset 0 in
        if tck then
          inp\<lparr>rbb_tms := or_bit (rbb_tms inp) (rbb_bits inp) tms,
              rbb_tdi := or_bit (rbb_tdi inp) (rbb_bits inp) tdi,
              rbb_bits := rbb_bits inp + 1\<rparr>
        else inp
      else if command = 0x52 then
        inp\<lparr>rbb_read := or_bit (rbb_read inp) (rbb_bits inp) True,
            rbb_read_bits := rbb_read_bits inp + 1\<rparr>
      else inp)"

text \<open>The arrays are uninitialised but for the part that is cleared.\<close>

definition rbb_cleared :: "'w ext \<Rightarrow> nat \<Rightarrow> rbb_input" where
  "rbb_cleared E num_read =
     (let a = write_at (indeterminate E BUFFER_SIZE) 0 (replicate ((num_read + 7) div 8) 0) in
      \<lparr>rbb_tms = a, rbb_tdi = a, rbb_read = a, rbb_bits = 0, rbb_read_bits = 0\<rparr>)"

definition rbb_parse :: "'w ext \<Rightarrow> byte list \<Rightarrow> rbb_input" where
  "rbb_parse E cmds = fold rbb_command cmds (rbb_cleared E (length cmds))"

text \<open>The loop over a data region: copy the TDI bits, check the assumption on the \<open>R\<close> commands.\<close>

fun rbb_data_loop :: "byte list \<Rightarrow> byte list \<Rightarrow> nat \<Rightarrow> nat \<Rightarrow> nat \<Rightarrow> byte list \<Rightarrow> bool \<Rightarrow> (byte list \<times> bool) result" where
  "rbb_data_loop tdi reads i off 0 buf do_read = Inr (buf, do_read)"
| "rbb_data_loop tdi reads i off (Suc k) buf do_read =
     bindR (read_bit tdi i) (\<lambda>b.
       if off div 8 < length buf then
         bindR (read_bit reads i) (\<lambda>r.
           if (do_read \<or> r) \<noteq> r then Inl AssertionFailed
           else rbb_data_loop tdi reads (Suc i) (Suc off) k (or_bit buf off b) (do_read \<or> r))
       else Inl OutOfBounds)"

definition rbb_reply :: "byte list \<Rightarrow> nat \<Rightarrow> byte list result" where
  "rbb_reply tdo len =
     (if len \<le> BUFFER_SIZE \<and> len \<le> 8 * length tdo
      then Inr (map (\<lambda>i. if bit_at tdo i then 0x31 else 0x30) [0..<len]) else Inl OutOfBounds)"

definition rbb_region :: "'w ext \<Rightarrow> ('w, 'z) jtag \<Rightarrow> rbb_input \<Rightarrow> Region \<Rightarrow> nat
    \<Rightarrow> ('w, 'z) common_state_scheme \<Rightarrow> (nat \<times> ('w, 'z) common_state_scheme) result" where
  "rbb_region E D inp r actual s =
     (if \<not> (region_begin r < region_end r \<and> region_end r \<le> rbb_bits inp) then Inl AssertionFailed
      else bindR (region_length r) (\<lambda>len.
        if is_tms r then
          bindR (copy_bits (rbb_tms inp) (region_begin r) len (replicate BUFFER_SIZE 0) 0) (\<lambda>buf.
          bindR (jtag_tms_seq D buf len s) (\<lambda>(_, s). Inr (actual, s)))
        else
          bindR (rbb_data_loop (rbb_tdi inp) (rbb_read inp) (region_begin r) 0 len (replicate BUFFER_SIZE 0) False)
            (\<lambda>(buf, do_read).
          bindR (region_flip r) (\<lambda>flip.
          bindR (jtag_scan_chain D buf (replicate BUFFER_SIZE 0) len flip do_read s) (\<lambda>(_, tdo, s).
          if do_read then bindR (rbb_reply tdo len) (\<lambda>reply. Inr (actual + len, snd (write_full E reply s)))
          else Inr (actual, s))))))"

fun rbb_regions :: "'w ext \<Rightarrow> ('w, 'z) jtag \<Rightarrow> rbb_input \<Rightarrow> Region list \<Rightarrow> nat
    \<Rightarrow> ('w, 'z) common_state_scheme \<Rightarrow> (nat \<times> ('w, 'z) common_state_scheme) result" where
  "rbb_regions E D inp [] actual s = Inr (actual, s)"
| "rbb_regions E D inp (r # rs) actual s =
     bindR (rbb_region E D inp r actual s) (\<lambda>(actual, s). rbb_regions E D inp rs actual s)"

definition rbb_execute :: "'w ext \<Rightarrow> ('w, 'z) jtag \<Rightarrow> byte list \<Rightarrow> ('w, 'z) common_state_scheme
    \<Rightarrow> ('w, 'z) common_state_scheme result" where
  "rbb_execute E D cmds s =
     (let inp = rbb_parse E cmds in
      bindR (analyze_bitbang (rbb_tms inp) (rbb_bits inp) (state s)) (\<lambda>(regions, cur_state).
      bindR (rbb_regions E D inp regions 0 s) (\<lambda>(actual, s).
      if cur_state \<noteq> state s then Inl AssertionFailed
      else if rbb_read_bits inp \<noteq> actual then Inl AssertionFailed
      else Inr s)))"

definition jtag_rbb_tick :: "'w ext \<Rightarrow> ('w, 'z) jtag \<Rightarrow> ('w, 'z) common_state_scheme
    \<Rightarrow> ('w, 'z) common_state_scheme result" where
  "jtag_rbb_tick E D s =
     (if 0 \<le> client_fd s then
        (case call_read E BUFFER_SIZE s of
           (Some (c # cmds), s) \<Rightarrow> rbb_execute E D (c # cmds) s
         | (_, s) \<Rightarrow> Inr ((snd (call_sock E (Sock_close (client_fd s)) s))\<lparr>client_fd := -1\<rparr>))
      else Inr (snd (try_accept E s)))"

section \<open>What the parser collects\<close>

text \<open>The clocked (TMS, TDI) pairs of a chunk, and the number of its \<open>R\<close> commands.\<close>

definition rbb_clocks :: "byte list \<Rightarrow> (bool \<times> bool) list" where
  "rbb_clocks cmds = map (\<lambda>c. (bit (c - 0x30) 1, bit (c - 0x30) 0))
     (filter (\<lambda>c. 0x30 \<le> c \<and> c \<le> 0x37 \<and> bit (c - 0x30) 2) cmds)"

definition rbb_cycles :: "byte list \<Rightarrow> cycle list" where
  "rbb_cycles cmds = map (\<lambda>(tms, tdi). Cycle tms (Some tdi) False) (rbb_clocks cmds)"

text \<open>\<open>holds a n bs\<close>: an array of \<open>n\<close> cleared bits whose first ones have been set to \<open>bs\<close>.\<close>

definition holds :: "byte list \<Rightarrow> nat \<Rightarrow> bool list \<Rightarrow> bool" where
  "holds a n bs \<longleftrightarrow> length a = BUFFER_SIZE \<and> (\<forall>j < n. bit_at a j = (j < length bs \<and> bs ! j))"

lemma holds_or_bit:
  assumes "holds a n bs" "length bs < n" "n \<le> 8 * BUFFER_SIZE"
  shows "holds (or_bit a (length bs) b) n (bs @ [b])"
proof -
  have "length bs < 8 * length a" using assms by (simp add: holds_def)
  then show ?thesis using assms(1)
    by (auto simp: holds_def bit_at_or_bit nth_append less_Suc_eq)
qed

lemma rbb_clocks_Cons:
  "rbb_clocks (c # cs) =
     (if 0x30 \<le> c \<and> c \<le> 0x37 \<and> bit (c - 0x30) 2 then [(bit (c - 0x30) 1, bit (c - 0x30) 0)] else []) @ rbb_clocks cs"
  by (simp add: rbb_clocks_def)

lemma length_rbb_clocks: "length (rbb_clocks cmds) \<le> length cmds"
  by (simp add: rbb_clocks_def)

lemma rbb_fold:
  assumes "length done + length cmds \<le> n" "n \<le> 8 * BUFFER_SIZE"
    and "holds (rbb_tms i) n (map fst done)" "holds (rbb_tdi i) n (map snd done)" "rbb_bits i = length done"
    and "length (rbb_read i) = BUFFER_SIZE"
  shows "let j = fold rbb_command cmds i; all = done @ rbb_clocks cmds in
     holds (rbb_tms j) n (map fst all) \<and> holds (rbb_tdi j) n (map snd all) \<and> rbb_bits j = length all \<and>
     length (rbb_read j) = BUFFER_SIZE"
  using assms
proof (induction cmds arbitrary: i "done")
  case Nil
  then show ?case by (simp add: rbb_clocks_def Let_def)
next
  case (Cons c cs)
  let ?j = "rbb_command c i"
  let ?new = "if 0x30 \<le> c \<and> c \<le> 0x37 \<and> bit (c - 0x30) 2 then [(bit (c - 0x30) 1, bit (c - 0x30) 0)] else []"
  have step: "holds (rbb_tms ?j) n (map fst (done @ ?new)) \<and> holds (rbb_tdi ?j) n (map snd (done @ ?new)) \<and>
      rbb_bits ?j = length (done @ ?new) \<and> length (rbb_read ?j) = BUFFER_SIZE"
  proof (cases "0x30 \<le> c \<and> c \<le> 0x37 \<and> bit (c - 0x30) 2")
    case True
    have "length (map fst done) < n" "length (map snd done) < n" using Cons.prems(1) by simp_all
    from holds_or_bit [OF Cons.prems(3) this(1) Cons.prems(2)] holds_or_bit [OF Cons.prems(4) this(2) Cons.prems(2)]
    show ?thesis using True Cons.prems(5,6) by (simp add: rbb_command_def Let_def)
  next
    case False
    then show ?thesis using Cons.prems(3-6) by (auto simp: rbb_command_def Let_def)
  qed
  have "length (done @ ?new) + length cs \<le> n" using Cons.prems(1) by simp
  from Cons.IH [OF this Cons.prems(2)] step show ?case by (simp add: rbb_clocks_Cons)
qed

lemma rbb_parse_spec:
  assumes "length cmds \<le> BUFFER_SIZE"
  shows "rbb_bits (rbb_parse E cmds) = length (rbb_clocks cmds)"
    "length (rbb_tms (rbb_parse E cmds)) = BUFFER_SIZE" "length (rbb_tdi (rbb_parse E cmds)) = BUFFER_SIZE"
    "length (rbb_read (rbb_parse E cmds)) = BUFFER_SIZE"
    "bitbang_cycles (rbb_tms (rbb_parse E cmds)) (rbb_tdi (rbb_parse E cmds)) (rbb_bits (rbb_parse E cmds)) = rbb_cycles cmds"
proof -
  define n where "n = length cmds"
  let ?j = "rbb_parse E cmds"
  have n: "n \<le> BUFFER_SIZE" "(n + 7) div 8 \<le> BUFFER_SIZE" using assms by (simp_all add: n_def BUFFER_SIZE_def)
  have "bit_at (write_at (indeterminate E BUFFER_SIZE) 0 (replicate ((n + 7) div 8) 0)) j = False" if "j < n" for j
  proof -
    have "j < 8 * ((n + 7) div 8)" using that by simp
    then show ?thesis using n(2) by (simp add: bit_at_write_front)
  qed
  then have h: "holds (write_at (indeterminate E BUFFER_SIZE) 0 (replicate ((n + 7) div 8) 0)) n []"
    using n(2) by (simp add: holds_def)
  have "let all = [] @ rbb_clocks cmds in
     holds (rbb_tms ?j) n (map fst all) \<and> holds (rbb_tdi ?j) n (map snd all) \<and> rbb_bits ?j = length all \<and>
     length (rbb_read ?j) = BUFFER_SIZE"
    using rbb_fold [of "[]" cmds n "rbb_cleared E n"] n h
    by (simp add: rbb_parse_def rbb_cleared_def Let_def n_def)
  then have j: "holds (rbb_tms ?j) n (map fst (rbb_clocks cmds))" "holds (rbb_tdi ?j) n (map snd (rbb_clocks cmds))"
      "rbb_bits ?j = length (rbb_clocks cmds)" "length (rbb_read ?j) = BUFFER_SIZE"
    by (simp_all add: Let_def)
  then show "rbb_bits ?j = length (rbb_clocks cmds)" "length (rbb_tms ?j) = BUFFER_SIZE"
    "length (rbb_tdi ?j) = BUFFER_SIZE" "length (rbb_read ?j) = BUFFER_SIZE"
    by (simp_all add: holds_def)
  show "bitbang_cycles (rbb_tms ?j) (rbb_tdi ?j) (rbb_bits ?j) = rbb_cycles cmds"
  proof (rule nth_equalityI)
    fix i assume "i < length (bitbang_cycles (rbb_tms ?j) (rbb_tdi ?j) (rbb_bits ?j))"
    then have i: "i < length (rbb_clocks cmds)" "i < n"
      using j(3) length_rbb_clocks [of cmds] by (simp_all add: n_def)
    then show "bitbang_cycles (rbb_tms ?j) (rbb_tdi ?j) (rbb_bits ?j) ! i = rbb_cycles cmds ! i"
      using j(1,2,3) by (simp add: rbb_cycles_def holds_def split: prod.split)
  qed (simp add: j(3) rbb_cycles_def)
qed

section \<open>The assertions\<close>

text \<open>
  What the assertion in the loop really checks: within a data region no bit without \<open>R\<close> follows
  a bit with \<open>R\<close>. The whole region is read when its last bit is.
\<close>

definition reads_ok :: "byte list \<Rightarrow> Region \<Rightarrow> bool" where
  "reads_ok reads r \<longleftrightarrow> is_tms r \<or>
     (\<forall>j \<in> {region_begin r..<region_end r - 1}. bit_at reads j \<longrightarrow> bit_at reads (Suc j))"

definition read_region :: "byte list \<Rightarrow> Region \<Rightarrow> nat list" where
  "read_region reads r =
     (if \<not> is_tms r \<and> bit_at reads (region_end r - 1) then [region_begin r..<region_end r] else [])"

text \<open>The digits for the TDO levels of a target \<open>f\<close> in the cycles \<open>ps\<close> of \<open>v\<close>, after the history \<open>h\<close>.\<close>

definition rbb_digits :: "target \<Rightarrow> (bool \<times> bool option) list \<Rightarrow> (bool \<times> bool option) list \<Rightarrow> nat list \<Rightarrow> byte list" where
  "rbb_digits f h v ps = map (\<lambda>p. if f (h @ take p v) then 0x31 else 0x30) ps"

lemma rbb_digits_append: "rbb_digits f h v (ps @ qs) = rbb_digits f h v ps @ rbb_digits f h v qs"
  by (simp add: rbb_digits_def)

definition reads_count :: "byte list \<Rightarrow> Region \<Rightarrow> nat" where
  "reads_count reads r =
     (if \<not> is_tms r \<and> bit_at reads (region_end r - 1) then region_end r - region_begin r else 0)"

lemma length_read_region [simp]: "length (read_region reads r) = reads_count reads r"
  by (simp add: read_region_def reads_count_def)

lemma tiles_read_sorted:
  "tiles st bs p rs q \<Longrightarrow> sorted (concat (map (read_region reads) rs)) \<and> distinct (concat (map (read_region reads) rs)) \<and>
     (\<forall>i \<in> set (concat (map (read_region reads) rs)). p \<le> i)"
proof (induction rs arbitrary: p)
  case Nil
  then show ?case by simp
next
  case (Cons r rs)
  then have r: "region_begin r = p" "p \<le> region_end r" by (simp_all add: region_ok_def)
  define rest where "rest = concat (map (read_region reads) rs)"
  have "sorted rest \<and> distinct rest \<and> (\<forall>i \<in> set rest. region_end r \<le> i)"
    using Cons.IH [of "region_end r"] Cons.prems by (simp add: rest_def)
  moreover have "read_region reads r = [] \<or> read_region reads r = [p..<region_end r]"
    using r(1) by (simp add: read_region_def)
  ultimately have "sorted (read_region reads r @ rest) \<and> distinct (read_region reads r @ rest) \<and>
      (\<forall>i \<in> set (read_region reads r @ rest). p \<le> i)"
    using r(2) by (fastforce simp: sorted_append)
  then show ?case by (simp add: rest_def)
qed

lemma upper_step: "(\<forall>j \<in> {i..<i + Suc k}. P j) \<longleftrightarrow> P i \<and> (\<forall>j \<in> {Suc i..<Suc i + k}. P j)"
  by (auto simp: Suc_le_eq le_less)

lemma rbb_data_loop_spec:
  assumes "i + k \<le> 8 * length tdi" "i + k \<le> 8 * length reads" "off + k \<le> 8 * length buf"
  shows "rbb_data_loop tdi reads i off k buf d =
     (if (d \<and> 0 < k \<longrightarrow> bit_at reads i) \<and> (\<forall>j \<in> {i..<i + k - 1}. bit_at reads j \<longrightarrow> bit_at reads (Suc j))
      then bindR (copy_bits tdi i k buf off) (\<lambda>buf. Inr (buf, if k = 0 then d else bit_at reads (i + k - 1)))
      else Inl AssertionFailed)"
  using assms
proof (induction k arbitrary: i off buf d)
  case 0
  then show ?case by simp
next
  case (Suc k)
  then have o: "off div 8 < length buf" and i: "i < 8 * length tdi" "i < 8 * length reads"
    by (simp_all add: div_less_bits)
  let ?buf = "or_bit buf off (bit_at tdi i)"
  show ?case
  proof (cases "d \<and> \<not> bit_at reads i")
    case True
    then show ?thesis using o i by simp
  next
    case False
    then have d: "(d \<or> bit_at reads i) = bit_at reads i" by blast
    have "(\<forall>j \<in> {i..<i + Suc k - 1}. bit_at reads j \<longrightarrow> bit_at reads (Suc j)) \<longleftrightarrow>
        (bit_at reads i \<and> 0 < k \<longrightarrow> bit_at reads (Suc i)) \<and>
        (\<forall>j \<in> {Suc i..<Suc i + k - 1}. bit_at reads j \<longrightarrow> bit_at reads (Suc j))"
    proof (cases k)
      case (Suc m)
      then show ?thesis using upper_step [of i m "\<lambda>j. bit_at reads j \<longrightarrow> bit_at reads (Suc j)"] by simp
    qed simp
    moreover have "rbb_data_loop tdi reads i off (Suc k) buf d =
        rbb_data_loop tdi reads (Suc i) (Suc off) k ?buf (bit_at reads i)"
      using o i by (simp add: d)
    moreover note Suc.IH [of "Suc i" "Suc off" ?buf "bit_at reads i"]
    ultimately show ?thesis using Suc.prems o i False by auto
  qed
qed

section \<open>The replay\<close>

context jtag_driver
begin

text \<open>One region: the assertion fails, or the region is replayed and its reads are answered.\<close>

text \<open>A region outside the shift states.\<close>

lemma rbb_tms_region:
  assumes pre: "live" "drv_inv s" "can_send s" "tracks wire s"
    and ok: "region_ok st (bits_of (rbb_tms inp) (rbb_bits inp)) r" "is_tms r"
      "state s = st_at st (bits_of (rbb_tms inp) (rbb_bits inp)) (region_begin r)"
    and len: "length (rbb_tms inp) = BUFFER_SIZE" "rbb_bits inp \<le> BUFFER_SIZE"
  shows "\<exists>t. rbb_region E D inp r a s = Inr (a, t) \<and>
     replays drv_inv can_send wire s (part (rbb_tms inp) (rbb_tdi inp) (rbb_bits inp) r) t \<and> net_out t = net_out s"
proof -
  let ?n = "rbb_bits inp" and ?b = "region_begin r" and ?e = "region_end r"
  have be: "?b < ?e" "?e \<le> ?n" using ok(1) by (simp_all add: region_ok_def)
  then have range: "?b \<le> ?e" "?e \<le> 8 * length (rbb_tms inp)" "?e \<le> 8 * BUFFER_SIZE"
    using len by (simp_all add: BUFFER_SIZE_def)
  from copy_region [OF range] obtain buf where
    buf: "copy_bits (rbb_tms inp) ?b (?e - ?b) (replicate BUFFER_SIZE 0) 0 = Inr buf" "length buf = BUFFER_SIZE"
      "\<forall>j < ?e - ?b. bit_at buf j = bit_at (rbb_tms inp) (?b + j)" by blast
  have "?n \<le> 8 * length buf" using buf(2) len(2) by simp
  from tms_region_replays [OF pre ok(1-3) buf(3) this, of "rbb_tdi inp"] obtain t where
    "jtag_tms_seq D buf (?e - ?b) s = Inr (True, t)"
    "replays drv_inv can_send wire s (part (rbb_tms inp) (rbb_tdi inp) ?n r) t" "net_out t = net_out s" by blast
  then show ?thesis using ok(2) be buf(1) by (simp add: rbb_region_def region_length_def)
qed

text \<open>A region in a shift state, whose bits are all read or none.\<close>

lemma rbb_data_region:
  assumes pre: "live" "drv_inv s" "can_send s" "tracks wire s"
    and ok: "region_ok st (bits_of (rbb_tms inp) (rbb_bits inp)) r" "\<not> is_tms r"
      "state s = st_at st (bits_of (rbb_tms inp) (rbb_bits inp)) (region_begin r)"
    and len: "length (rbb_tdi inp) = BUFFER_SIZE" "length (rbb_read inp) = BUFFER_SIZE" "rbb_bits inp \<le> BUFFER_SIZE"
  shows "if reads_ok (rbb_read inp) r
     then \<exists>tdo t. replays drv_inv can_send wire s (part (rbb_tms inp) (rbb_tdi inp) (rbb_bits inp) r) t \<and> net_out t = net_out s \<and>
       rbb_region E D inp r a s = (if bit_at (rbb_read inp) (region_end r - 1)
         then Inr (a + (region_end r - region_begin r), snd (write_full E
           (map (\<lambda>i. if bit_at tdo i then 0x31 else 0x30) [0..<region_end r - region_begin r]) t))
         else Inr (a, t)) \<and>
       (\<forall>f. bit_at (rbb_read inp) (region_end r - 1) \<and> target = Some f \<longrightarrow>
          bits_of tdo (region_end r - region_begin r) =
            tdo_bits f (history (wire s)) (tap_view (state s) (part (rbb_tms inp) (rbb_tdi inp) (rbb_bits inp) r)))
     else rbb_region E D inp r a s = Inl AssertionFailed"
proof -
  let ?n = "rbb_bits inp" and ?b = "region_begin r" and ?e = "region_end r"
  have be: "?b < ?e" "?e \<le> ?n" using ok(1) by (simp_all add: region_ok_def)
  have n8: "?e \<le> 8 * BUFFER_SIZE" "?n \<le> 8 * length (replicate BUFFER_SIZE (0 :: byte))" "?n \<le> SCAN_LIMIT"
    using be len(3) by (simp_all add: BUFFER_SIZE_def SCAN_LIMIT_def)
  have lenr: "region_length r = Inr (?e - ?b)" using be(1) by (simp add: region_length_def)
  have in_range: "?b + (?e - ?b) \<le> 8 * length (rbb_tdi inp)" "?b + (?e - ?b) \<le> 8 * length (rbb_read inp)"
      "0 + (?e - ?b) \<le> 8 * length (replicate BUFFER_SIZE (0 :: byte))" "?b \<le> ?e" "?e \<le> 8 * length (rbb_tdi inp)"
    using be n8 len by simp_all
  from copy_region [OF in_range(4,5) n8(1)] obtain buf where
    buf: "copy_bits (rbb_tdi inp) ?b (?e - ?b) (replicate BUFFER_SIZE 0) 0 = Inr buf" "length buf = BUFFER_SIZE"
      "\<forall>j < ?e - ?b. bit_at buf j = bit_at (rbb_tdi inp) (?b + j)" by blast
  have e: "?b + (?e - ?b) - 1 = ?e - 1" "?e - ?b \<noteq> 0" using be(1) by simp_all
  have loop: "rbb_data_loop (rbb_tdi inp) (rbb_read inp) ?b 0 (?e - ?b) (replicate BUFFER_SIZE 0) False =
      (if reads_ok (rbb_read inp) r then Inr (buf, bit_at (rbb_read inp) (?e - 1)) else Inl AssertionFailed)"
    unfolding rbb_data_loop_spec [OF in_range(1-3)] buf(1) e using ok(2) e(2) by (simp add: reads_ok_def)
  show ?thesis
  proof (cases "reads_ok (rbb_read inp) r")
    case False
    then show ?thesis using ok(2) be lenr loop by (simp add: rbb_region_def)
  next
    case good: True
    define rd where "rd = bit_at (rbb_read inp) (?e - 1)"
    obtain flip where flip: "flip_tms r = Some flip" using ok(1,2) by (simp add: region_ok_def)
    have lb: "?n \<le> 8 * length buf" using buf(2) n8(2) by simp
    from data_region_replays [OF pre ok(1,2) flip ok(3) buf(3) lb n8(3,2), of rd] obtain tdo t where
      t: "jtag_scan_chain D buf (replicate BUFFER_SIZE 0) (?e - ?b) flip rd s = Inr (True, tdo, t)"
        "length tdo = BUFFER_SIZE"
        "replays drv_inv can_send wire s (part (rbb_tms inp) (rbb_tdi inp) ?n r) t" "net_out t = net_out s"
      and tdo: "\<forall>f. rd \<and> target = Some f \<and> last_bit_free (replicate BUFFER_SIZE 0) (?e - ?b) flip \<longrightarrow>
        bits_of tdo (?e - ?b) = tdo_bits f (history (wire s)) (tap_view (state s) (part (rbb_tms inp) (rbb_tdi inp) ?n r))"
      by auto
    have "rbb_reply tdo (?e - ?b) = Inr (map (\<lambda>i. if bit_at tdo i then 0x31 else 0x30) [0..<?e - ?b])"
      using be len(3) t(2) by (simp add: rbb_reply_def)
    then have "rbb_region E D inp r a s = (if rd
        then Inr (a + (?e - ?b), snd (write_full E (map (\<lambda>i. if bit_at tdo i then 0x31 else 0x30) [0..<?e - ?b]) t))
        else Inr (a, t))"
      using ok(2) be lenr loop good flip t(1) by (simp add: rbb_region_def region_flip_def rd_def)
    moreover have "last_bit_free (replicate BUFFER_SIZE 0) (?e - ?b) flip" using be(1) n8(1) by simp
    ultimately show ?thesis using good t(3,4) tdo unfolding rd_def by auto
  qed
qed

text \<open>The digits sent for such a region, when the target is known.\<close>

lemma rbb_shown_digits:
  assumes "\<not> is_tms r" "bit_at ra (region_end r - 1)"
    and seen: "bits_of tdo (region_end r - region_begin r) =
      tdo_bits f (h @ take (region_begin r) v) (window v (region_begin r) (region_end r))"
  shows "map (\<lambda>i. if bit_at tdo i then 0x31 else 0x30) [0..<region_end r - region_begin r] = rbb_digits f h v (read_region ra r)"
    (is "?reply = ?digits")
proof (rule nth_equalityI)
  let ?b = "region_begin r" and ?e = "region_end r"
  show "length ?reply = length ?digits" using assms(1,2) by (simp add: rbb_digits_def read_region_def)
  fix i assume "i < length ?reply"
  then have i: "i < ?e - ?b" by simp
  have lv: "length (window v ?b ?e) = ?e - ?b" using arg_cong [OF seen, of length] by simp
  have "bit_at tdo i = f ((h @ take ?b v) @ take i (window v ?b ?e))"
    using arg_cong [OF seen, of "\<lambda>bs. bs ! i"] i by (simp only: tdo_bits_nth lv) simp
  also have "(h @ take ?b v) @ take i (window v ?b ?e) = h @ take (?b + i) v"
    using i by (simp add: window_def take_add min_def)
  finally show "?reply ! i = ?digits ! i"
    using i assms(1,2) by (simp add: rbb_digits_def read_region_def)
qed

lemma rbb_region_replays:
  assumes pre: "live" "drv_inv s" "can_send s" "tracks wire s"
    and ok: "region_ok st (bits_of (rbb_tms inp) (rbb_bits inp)) r"
      "state s = st_at st (bits_of (rbb_tms inp) (rbb_bits inp)) (region_begin r)"
    and len: "length (rbb_tms inp) = BUFFER_SIZE" "length (rbb_tdi inp) = BUFFER_SIZE"
      "length (rbb_read inp) = BUFFER_SIZE" "rbb_bits inp \<le> BUFFER_SIZE"
    and keep: "sockets_keep E port"
    and past: "history (wire s) = h @ take (region_begin r) v"
      "tap_view (state s) (part (rbb_tms inp) (rbb_tdi inp) (rbb_bits inp) r) = window v (region_begin r) (region_end r)"
  shows "if reads_ok (rbb_read inp) r
     then \<exists>t reply. rbb_region E D inp r a s = Inr (a + reads_count (rbb_read inp) r, t) \<and>
       replays drv_inv can_send wire s (part (rbb_tms inp) (rbb_tdi inp) (rbb_bits inp) r) t \<and>
       net_out t = net_out s @ reply \<and> length reply \<le> reads_count (rbb_read inp) r \<and> set reply \<subseteq> {0x30, 0x31} \<and>
       (sock_accepts E \<longrightarrow> length reply = reads_count (rbb_read inp) r \<and>
         (\<forall>f. target = Some f \<longrightarrow> reply = rbb_digits f h v (read_region (rbb_read inp) r)))
     else rbb_region E D inp r a s = Inl AssertionFailed"
proof (cases "is_tms r")
  case True
  with rbb_tms_region [OF pre ok(1) True ok(2) len(1,4), of E a] show ?thesis
    by (auto simp: reads_ok_def reads_count_def read_region_def rbb_digits_def)
next
  case data: False
  note region = rbb_data_region [OF pre ok(1) data ok(2) len(2-4), of E a]
  show ?thesis
  proof (cases "reads_ok (rbb_read inp) r")
    case False
    with region show ?thesis by simp
  next
    case good: True
    define reply where "reply tdo = map (\<lambda>i. if bit_at tdo i then 0x31 else 0x30 :: byte) [0..<region_end r - region_begin r]" for tdo
    from region good obtain tdo t where t:
      "replays drv_inv can_send wire s (part (rbb_tms inp) (rbb_tdi inp) (rbb_bits inp) r) t" "net_out t = net_out s"
      "rbb_region E D inp r a s = (if bit_at (rbb_read inp) (region_end r - 1)
         then Inr (a + (region_end r - region_begin r), snd (write_full E (reply tdo) t)) else Inr (a, t))"
      "\<forall>f. bit_at (rbb_read inp) (region_end r - 1) \<and> target = Some f \<longrightarrow>
         bits_of tdo (region_end r - region_begin r) =
           tdo_bits f (h @ take (region_begin r) v) (window v (region_begin r) (region_end r))"
      unfolding past reply_def by auto
    show ?thesis
    proof (cases "bit_at (rbb_read inp) (region_end r - 1)")
      case False
      with t(1-3) good show ?thesis by (simp add: reads_count_def read_region_def rbb_digits_def)
    next
      case True
      from write_full_sends [OF keep, of "reply tdo" t] obtain k w where
        w: "snd (write_full E (reply tdo) t) = t\<lparr>net_out := net_out t @ take k (reply tdo), world := w\<rparr>"
          "k \<le> length (reply tdo)" "port w = port (world t)" "sock_accepts E \<longrightarrow> k = length (reply tdo)" by blast
      let ?u = "t\<lparr>net_out := net_out t @ take k (reply tdo), world := w\<rparr>"
      have "rbb_region E D inp r a s = Inr (a + reads_count (rbb_read inp) r, ?u)"
        using t(3) True data w(1) by (simp add: reads_count_def)
      moreover have "length (reply tdo) = reads_count (rbb_read inp) r" "set (reply tdo) \<subseteq> {0x30, 0x31}"
        using True data by (auto simp: reply_def reads_count_def)
      moreover have "set (take k (reply tdo)) \<subseteq> set (reply tdo)" by (rule set_take_subset)
      moreover have "\<forall>f. target = Some f \<longrightarrow> reply tdo = rbb_digits f h v (read_region (rbb_read inp) r)"
        using t(4) True rbb_shown_digits [OF data True] unfolding reply_def by blast
      ultimately show ?thesis using good replays_sent [OF t(1) w(3)] t(2) w(2,4)
        by (auto intro!: exI [of _ ?u] exI [of _ "take k (reply tdo)"])
    qed
  qed
qed

text \<open>The regions of a chunk, in order.\<close>

lemma rbb_regions_replay:
  assumes "live" "length (rbb_tms inp) = BUFFER_SIZE" "length (rbb_tdi inp) = BUFFER_SIZE"
      "length (rbb_read inp) = BUFFER_SIZE" "rbb_bits inp \<le> BUFFER_SIZE"
    and keep: "sockets_keep E port"
    and v: "v = tap_view st (bitbang_cycles (rbb_tms inp) (rbb_tdi inp) (rbb_bits inp))"
  shows "tiles st (bits_of (rbb_tms inp) (rbb_bits inp)) p rs (rbb_bits inp) \<Longrightarrow>
     drv_inv s \<Longrightarrow> can_send s \<Longrightarrow> tracks wire s \<Longrightarrow> state s = st_at st (bits_of (rbb_tms inp) (rbb_bits inp)) p \<Longrightarrow>
     history (wire s) = h @ take p v \<Longrightarrow>
     if list_all (reads_ok (rbb_read inp)) rs
     then \<exists>t reply. rbb_regions E D inp rs a s = Inr (a + sum_list (map (reads_count (rbb_read inp)) rs), t) \<and>
       replays drv_inv can_send wire s (window (bitbang_cycles (rbb_tms inp) (rbb_tdi inp) (rbb_bits inp)) p (rbb_bits inp)) t \<and>
       net_out t = net_out s @ reply \<and> length reply \<le> sum_list (map (reads_count (rbb_read inp)) rs) \<and>
       set reply \<subseteq> {0x30, 0x31} \<and>
       (sock_accepts E \<longrightarrow> length reply = sum_list (map (reads_count (rbb_read inp)) rs) \<and>
         (\<forall>f. target = Some f \<longrightarrow> reply = rbb_digits f h v (concat (map (read_region (rbb_read inp)) rs))))
     else rbb_regions E D inp rs a s = Inl AssertionFailed"
proof (induction rs arbitrary: p a s)
  case Nil
  then have "p = rbb_bits inp" by simp
  with Nil show ?case
    by (auto intro!: replays_refl exI [of _ s] exI [of _ "[] :: byte list"] simp: replays_refl rbb_digits_def)
next
  case (Cons r rs)
  let ?bs = "bits_of (rbb_tms inp) (rbb_bits inp)" and ?R = "rbb_read inp"
  let ?cyc = "bitbang_cycles (rbb_tms inp) (rbb_tdi inp) (rbb_bits inp)"
  from Cons.prems(1) have r: "region_begin r = p" "region_ok st ?bs r" "tiles st ?bs (region_end r) rs (rbb_bits inp)"
    by simp_all
  have be: "p \<le> region_end r" "region_end r \<le> rbb_bits inp"
    using r(1,2) tiles_le [OF r(3)] by (simp_all add: region_ok_def)
  have st: "state s = st_at st ?bs (region_begin r)" using Cons.prems(5) r(1) by simp
  have past: "history (wire s) = h @ take (region_begin r) v"
      "tap_view (state s) (part (rbb_tms inp) (rbb_tdi inp) (rbb_bits inp) r) = window v (region_begin r) (region_end r)"
    using Cons.prems(6) r(1) st tap_view_window [of st ?cyc p "region_end r"] by (simp_all add: v part_def)
  note one = rbb_region_replays [OF assms(1) Cons.prems(2-4) r(2) st assms(2-5) keep past, of a]
  show ?case
  proof (cases "reads_ok ?R r")
    case False
    with one show ?thesis by simp
  next
    case True
    with one obtain t x where t: "rbb_region E D inp r a s = Inr (a + reads_count ?R r, t)"
      "replays drv_inv can_send wire s (part (rbb_tms inp) (rbb_tdi inp) (rbb_bits inp) r) t"
      "net_out t = net_out s @ x" "length x \<le> reads_count ?R r" "set x \<subseteq> {0x30, 0x31}"
      "sock_accepts E \<longrightarrow> length x = reads_count ?R r \<and> (\<forall>f. target = Some f \<longrightarrow> x = rbb_digits f h v (read_region ?R r))" by auto
    have "history (wire t) = h @ take (region_begin r) v @ window v (region_begin r) (region_end r)"
      using replays_history [OF Cons.prems(4) t(2)] past by simp
    then have past_t: "history (wire t) = h @ take (region_end r) v"
      using be(1) r(1) take_add [of p "region_end r - p" v] by (simp add: window_def)
    have "tms_bits (part (rbb_tms inp) (rbb_tdi inp) (rbb_bits inp) r) = window ?bs p (region_end r)"
      by (simp add: part_def map_window r(1))
    then have stt: "state t = st_at st ?bs (region_end r)"
      using replays_state [OF Cons.prems(4) t(2)] Cons.prems(5) st_at_window [OF be(1), of st ?bs] by simp
    have inv: "drv_inv t" "can_send t" "tracks wire t" using t(2) by (simp_all add: replays_def)
    note rest = Cons.IH [OF r(3) inv stt past_t, of "a + reads_count ?R r"]
    show ?thesis
    proof (cases "list_all (reads_ok ?R) rs")
      case False
      with rest t(1) True show ?thesis by simp
    next
      case all: True
      with rest obtain u y where u: "rbb_regions E D inp rs (a + reads_count ?R r) t =
          Inr (a + reads_count ?R r + sum_list (map (reads_count ?R) rs), u)"
        "replays drv_inv can_send wire t (window ?cyc (region_end r) (rbb_bits inp)) u"
        "net_out u = net_out t @ y" "length y \<le> sum_list (map (reads_count ?R) rs)" "set y \<subseteq> {0x30, 0x31}"
        "sock_accepts E \<longrightarrow> length y = sum_list (map (reads_count ?R) rs) \<and>
          (\<forall>f. target = Some f \<longrightarrow> y = rbb_digits f h v (concat (map (read_region ?R) rs)))" by auto
      have "window ?cyc p (region_end r) @ window ?cyc (region_end r) (rbb_bits inp) = window ?cyc p (rbb_bits inp)"
        using be by (rule window_append)
      with replays_trans [OF Cons.prems(4) t(2) u(2)] have
        "replays drv_inv can_send wire s (window ?cyc p (rbb_bits inp)) u" by (simp add: part_def r(1))
      with t u True all show ?thesis
        by (auto simp: add.assoc rbb_digits_append intro!: exI [of _ u] exI [of _ "x @ y"])
    qed
  qed
qed

text \<open>
  A chunk as a whole. \<open>chunk_ok\<close>: its regions pass the check in the loop, and the bits read
  are as many as the \<open>R\<close> commands.
\<close>

lemma rbb_execute_spec:
  assumes "live" "drv_inv s" "can_send s" "tracks wire s" "length cmds \<le> BUFFER_SIZE"
    and keep: "sockets_keep E port"
  defines "inp \<equiv> rbb_parse E cmds"
  shows "\<exists>rs. analyze_bitbang (rbb_tms inp) (rbb_bits inp) (state s) = Inr (rs, run_tap (state s) (tms_bits (rbb_cycles cmds))) \<and>
     (if list_all (reads_ok (rbb_read inp)) rs \<and> sum_list (map (reads_count (rbb_read inp)) rs) = rbb_read_bits inp
      then \<exists>t reply. rbb_execute E D cmds s = Inr t \<and> replays drv_inv can_send wire s (rbb_cycles cmds) t \<and>
        net_out t = net_out s @ reply \<and> length reply \<le> rbb_read_bits inp \<and> set reply \<subseteq> {0x30, 0x31} \<and>
        (sock_accepts E \<longrightarrow> length reply = rbb_read_bits inp \<and>
          (\<forall>f. target = Some f \<longrightarrow> reply = rbb_digits f (history (wire s)) (tap_view (state s) (rbb_cycles cmds))
             (concat (map (read_region (rbb_read inp)) rs))))
      else rbb_execute E D cmds s = Inl AssertionFailed)"
proof -
  note ps = rbb_parse_spec [OF assms(5), of E, folded inp_def]
  have n: "rbb_bits inp \<le> BUFFER_SIZE" using ps(1) length_rbb_clocks [of cmds] assms(5) by simp
  then have "rbb_bits inp \<le> 8 * length (rbb_tms inp)" using ps(2) by simp
  from analyze_bitbang_tiles [OF this, of "state s"] obtain rs where
    rs: "analyze_bitbang (rbb_tms inp) (rbb_bits inp) (state s) = Inr (rs, run_tap (state s) (bits_of (rbb_tms inp) (rbb_bits inp)))"
      "tiles (state s) (bits_of (rbb_tms inp) (rbb_bits inp)) 0 rs (rbb_bits inp)" by blast
  have st0: "state s = st_at (state s) (bits_of (rbb_tms inp) (rbb_bits inp)) 0" by simp
  have cyc: "bits_of (rbb_tms inp) (rbb_bits inp) = tms_bits (rbb_cycles cmds)"
    using ps(5) tms_bitbang [of "rbb_tms inp" "rbb_tdi inp" "rbb_bits inp"] by simp
  have all: "window (bitbang_cycles (rbb_tms inp) (rbb_tdi inp) (rbb_bits inp)) 0 (rbb_bits inp) = rbb_cycles cmds"
  proof -
    have "length (rbb_cycles cmds) = rbb_bits inp" using ps(5) by (metis length_bitbang)
    with ps(5) window_all [of "rbb_cycles cmds"] show ?thesis by simp
  qed
  have unfold: "rbb_execute E D cmds s =
      bindR (rbb_regions E D inp rs 0 s) (\<lambda>(actual, t).
      if run_tap (state s) (tms_bits (rbb_cycles cmds)) \<noteq> state t then Inl AssertionFailed
      else if rbb_read_bits inp \<noteq> actual then Inl AssertionFailed else Inr t)"
    unfolding rbb_execute_def Let_def inp_def [symmetric] rs(1) cyc by simp
  have past: "history (wire s) = history (wire s) @ take 0 v" for v by simp
  note reg = rbb_regions_replay [OF assms(1) ps(2-4) n keep refl rs(2) assms(2-4) st0 past, of 0, unfolded ps(5)]
  have res: "if list_all (reads_ok (rbb_read inp)) rs \<and> sum_list (map (reads_count (rbb_read inp)) rs) = rbb_read_bits inp
      then \<exists>t reply. rbb_execute E D cmds s = Inr t \<and> replays drv_inv can_send wire s (rbb_cycles cmds) t \<and>
        net_out t = net_out s @ reply \<and> length reply \<le> rbb_read_bits inp \<and> set reply \<subseteq> {0x30, 0x31} \<and>
        (sock_accepts E \<longrightarrow> length reply = rbb_read_bits inp \<and>
          (\<forall>f. target = Some f \<longrightarrow> reply = rbb_digits f (history (wire s)) (tap_view (state s) (rbb_cycles cmds))
             (concat (map (read_region (rbb_read inp)) rs))))
      else rbb_execute E D cmds s = Inl AssertionFailed"
  proof (cases "list_all (reads_ok (rbb_read inp)) rs")
    case False
    with reg unfold show ?thesis by simp
  next
    case True
    with reg all [unfolded ps(5)] obtain t reply where
      t: "rbb_regions E D inp rs 0 s = Inr (sum_list (map (reads_count (rbb_read inp)) rs), t)"
        "replays drv_inv can_send wire s (rbb_cycles cmds) t"
        "net_out t = net_out s @ reply" "length reply \<le> sum_list (map (reads_count (rbb_read inp)) rs)"
        "set reply \<subseteq> {0x30, 0x31}"
        "sock_accepts E \<longrightarrow> length reply = sum_list (map (reads_count (rbb_read inp)) rs) \<and>
          (\<forall>f. target = Some f \<longrightarrow> reply = rbb_digits f (history (wire s)) (tap_view (state s) (rbb_cycles cmds))
             (concat (map (read_region (rbb_read inp)) rs)))" by auto
    with replays_state [OF assms(4) t(2)] unfold True show ?thesis by auto
  qed
  from rs(1) res show ?thesis unfolding cyc by (intro exI [of _ rs] conjI)
qed

end

text \<open>The condition under which a chunk passes the assertions, computed as the code computes it.\<close>

definition rbb_chunk_ok :: "'w ext \<Rightarrow> byte list \<Rightarrow> JtagState \<Rightarrow> bool" where
  "rbb_chunk_ok E cmds st =
     (let inp = rbb_parse E cmds in
      case analyze_bitbang (rbb_tms inp) (rbb_bits inp) st of
        Inl _ \<Rightarrow> False
      | Inr (rs, _) \<Rightarrow> list_all (reads_ok (rbb_read inp)) rs \<and>
          sum_list (map (reads_count (rbb_read inp)) rs) = rbb_read_bits inp)"

text \<open>The clock cycles whose TDO levels are sent back, computed as the code computes them.\<close>

definition rbb_positions :: "'w ext \<Rightarrow> byte list \<Rightarrow> JtagState \<Rightarrow> nat list" where
  "rbb_positions E cmds st =
     (let inp = rbb_parse E cmds in
      case analyze_bitbang (rbb_tms inp) (rbb_bits inp) st of
        Inl _ \<Rightarrow> []
      | Inr (rs, _) \<Rightarrow> concat (map (read_region (rbb_read inp)) rs))"

text \<open>
  The indeterminate part of the arrays is never looked at: the decision can be computed on
  arrays that hold only the cleared part.
\<close>

definition rbb_trunc :: "nat \<Rightarrow> rbb_input \<Rightarrow> rbb_input" where
  "rbb_trunc m i = i\<lparr>rbb_tms := take m (rbb_tms i), rbb_tdi := take m (rbb_tdi i), rbb_read := take m (rbb_read i)\<rparr>"

lemma take_or_bit: "take m (or_bit a i b) = or_bit (take m a) i b"
proof (cases "i div 8 < m")
  case True
  then show ?thesis by (simp add: or_bit_def take_update_swap)
next
  case False
  then show ?thesis by (auto simp: or_bit_def list_update_beyond)
qed

lemma rbb_trunc_command: "rbb_trunc m (rbb_command c i) = rbb_command c (rbb_trunc m i)"
  by (simp add: rbb_trunc_def rbb_command_def Let_def take_or_bit)

lemma rbb_trunc_fold: "rbb_trunc m (fold rbb_command cmds i) = fold rbb_command cmds (rbb_trunc m i)"
  by (induction cmds arbitrary: i) (simp_all add: rbb_trunc_command)

lemma analyze_take:
  assumes "n \<le> 8 * m" "m \<le> length a"
  shows "analyze_bitbang (take m a) n st = analyze_bitbang a n st"
proof -
  have "i + k \<le> n \<Longrightarrow> analyze_loop (take m a) i k sp cur rs = analyze_loop a i k sp cur rs" for i k sp cur rs
  proof (induction k arbitrary: i sp cur rs)
    case 0
    then show ?case by simp
  next
    case (Suc k)
    then have "i < 8 * length (take m a)" "i < 8 * length a" "i < 8 * m" using assms by simp_all
    then have "read_bit (take m a) i = read_bit a i" by (simp add: bit_at_take)
    moreover have "analyze_loop (take m a) (Suc i) k sp cur rs = analyze_loop a (Suc i) k sp cur rs" for sp cur rs
      using Suc by simp
    ultimately show ?case by (simp only: analyze_loop.simps)
  qed
  from this [of 0 n 0 st "[]"] show ?thesis by (simp add: analyze_bitbang_def)
qed

definition rbb_small :: "byte list \<Rightarrow> rbb_input" where
  "rbb_small cmds = (let a = replicate ((length cmds + 7) div 8) 0 in
     fold rbb_command cmds \<lparr>rbb_tms = a, rbb_tdi = a, rbb_read = a, rbb_bits = 0, rbb_read_bits = 0\<rparr>)"

lemma rbb_chunk_ok_small:
  assumes "length cmds \<le> BUFFER_SIZE"
  shows "rbb_chunk_ok E cmds st \<longleftrightarrow>
     (case analyze_bitbang (rbb_tms (rbb_small cmds)) (rbb_bits (rbb_small cmds)) st of
        Inl _ \<Rightarrow> False
      | Inr (rs, _) \<Rightarrow> list_all (reads_ok (rbb_read (rbb_small cmds))) rs \<and>
          sum_list (map (reads_count (rbb_read (rbb_small cmds))) rs) = rbb_read_bits (rbb_small cmds))"
proof -
  define m where "m = (length cmds + 7) div 8"
  define big where "big = rbb_parse E cmds"
  note ps = rbb_parse_spec [OF assms, of E, folded big_def]
  have m: "m \<le> BUFFER_SIZE" "length cmds \<le> 8 * m" using assms by (simp_all add: m_def BUFFER_SIZE_def)
  have "take m (write_at (indeterminate E BUFFER_SIZE) 0 (replicate m 0)) = replicate m 0"
    by (simp add: write_at_def)
  then have "rbb_trunc m (rbb_cleared E (length cmds)) =
      \<lparr>rbb_tms = replicate m 0, rbb_tdi = replicate m 0, rbb_read = replicate m 0, rbb_bits = 0, rbb_read_bits = 0\<rparr>"
    by (simp add: rbb_trunc_def rbb_cleared_def Let_def m_def)
  then have small: "rbb_small cmds = rbb_trunc m big"
    by (simp add: rbb_small_def Let_def m_def [symmetric] big_def rbb_parse_def rbb_trunc_fold)
  have n: "rbb_bits big \<le> 8 * m" using ps(1) length_rbb_clocks [of cmds] m(2) by simp
  then have "rbb_bits big \<le> 8 * length (rbb_tms big)" using ps(2) m(1) by simp
  from analyze_bitbang_tiles [OF this, of st] obtain rs where
    rs: "analyze_bitbang (rbb_tms big) (rbb_bits big) st = Inr (rs, run_tap st (bits_of (rbb_tms big) (rbb_bits big)))"
      "tiles st (bits_of (rbb_tms big) (rbb_bits big)) 0 rs (rbb_bits big)" by blast
  have bits: "bit_at (take m (rbb_read big)) j = bit_at (rbb_read big) j" if "j < rbb_bits big" for j
    using that n by (simp add: bit_at_take)
  have "reads_ok (take m (rbb_read big)) r = reads_ok (rbb_read big) r \<and>
      reads_count (take m (rbb_read big)) r = reads_count (rbb_read big) r" if "r \<in> set rs" for r
  proof -
    have r: "region_begin r < region_end r" "region_end r \<le> rbb_bits big"
      using tiles_mem [OF rs(2) that] by (simp_all add: region_ok_def)
    have "bit_at (take m (rbb_read big)) j = bit_at (rbb_read big) j \<and>
        bit_at (take m (rbb_read big)) (Suc j) = bit_at (rbb_read big) (Suc j)"
      if "j \<in> {region_begin r..<region_end r - 1}" for j using that r by (intro conjI bits) auto
    moreover have "bit_at (take m (rbb_read big)) (region_end r - 1) = bit_at (rbb_read big) (region_end r - 1)"
      using r by (intro bits) simp
    ultimately show ?thesis by (auto simp: reads_ok_def reads_count_def)
  qed
  then have "list_all (reads_ok (take m (rbb_read big))) rs = list_all (reads_ok (rbb_read big)) rs"
    "sum_list (map (reads_count (take m (rbb_read big))) rs) = sum_list (map (reads_count (rbb_read big)) rs)"
    by (auto simp: list_all_iff intro: arg_cong [where f = sum_list])
  moreover have "analyze_bitbang (take m (rbb_tms big)) (rbb_bits big) st = analyze_bitbang (rbb_tms big) (rbb_bits big) st"
    using ps(2) m(1) by (intro analyze_take [OF n]) simp
  ultimately show ?thesis
    by (simp add: rbb_chunk_ok_def big_def [symmetric] Let_def small rbb_trunc_def rs(1))
qed

definition rbb_requests :: "byte list \<Rightarrow> nat" where
  "rbb_requests cmds = length (filter (\<lambda>c. c = 0x52) cmds)"

lemma rbb_read_bits_fold: "rbb_read_bits (fold rbb_command cmds i) = rbb_read_bits i + rbb_requests cmds"
proof (induction cmds arbitrary: i)
  case Nil
  then show ?case by (simp add: rbb_requests_def)
next
  case (Cons c cs)
  have "\<not> (0x52 :: byte) \<le> 0x37" by simp
  then have "rbb_read_bits (rbb_command c i) = rbb_read_bits i + (if c = 0x52 then 1 else 0)"
    by (auto simp: rbb_command_def Let_def)
  then show ?case using Cons.IH [of "rbb_command c i"] by (simp add: rbb_requests_def)
qed

lemma rbb_read_bits_parse: "rbb_read_bits (rbb_parse E cmds) = rbb_requests cmds"
  by (simp add: rbb_parse_def rbb_read_bits_fold rbb_cleared_def Let_def)

text \<open>Where the chunk never shifts a bit, an \<open>R\<close> cannot be answered.\<close>

lemma rbb_read_needs_shift:
  assumes "length cmds \<le> BUFFER_SIZE" "0 < rbb_requests cmds"
    and "\<forall>k < length (rbb_cycles cmds). \<not> shifting (run_tap st (take k (tms_bits (rbb_cycles cmds))))"
  shows "\<not> rbb_chunk_ok E cmds st"
proof -
  define inp where "inp = rbb_parse E cmds"
  note ps = rbb_parse_spec [OF assms(1), of E, folded inp_def]
  have cyc: "bits_of (rbb_tms inp) (rbb_bits inp) = tms_bits (rbb_cycles cmds)"
    using ps(5) tms_bitbang [of "rbb_tms inp" "rbb_tdi inp" "rbb_bits inp"] by simp
  have "rbb_bits inp \<le> 8 * length (rbb_tms inp)"
    using ps(1,2) length_rbb_clocks [of cmds] assms(1) by simp
  from analyze_bitbang_tiles [OF this, of st] obtain rs where
    rs: "analyze_bitbang (rbb_tms inp) (rbb_bits inp) st = Inr (rs, run_tap st (bits_of (rbb_tms inp) (rbb_bits inp)))"
      "tiles st (bits_of (rbb_tms inp) (rbb_bits inp)) 0 rs (rbb_bits inp)" by blast
  have "reads_count (rbb_read inp) r = 0" if "r \<in> set rs" for r
  proof -
    have r: "region_ok st (tms_bits (rbb_cycles cmds)) r" using tiles_mem [OF rs(2) that] cyc by simp
    then have "region_begin r < length (rbb_cycles cmds)" by (simp add: region_ok_def)
    then have "\<not> shifting (st_at st (tms_bits (rbb_cycles cmds)) (region_begin r))"
      using assms(3) by (simp add: st_at_def)
    with r have "is_tms r" by (auto simp: region_ok_def)
    then show ?thesis by (simp add: reads_count_def)
  qed
  then have none: "sum_list (map (reads_count (rbb_read inp)) rs) = 0" by simp
  have "0 \<noteq> rbb_read_bits inp" using assms(2) by (simp add: inp_def rbb_read_bits_parse)
  then show ?thesis
    unfolding rbb_chunk_ok_def inp_def [symmetric] Let_def rs(1) sum.case prod.case none by simp
qed

text \<open>
  Which cycles a client asks for: the position of an \<open>R\<close> is the number of clock cycles before
  it. When every \<open>R\<close> precedes a cycle that shifts a bit, and no two the same (\<open>rbb_ordinary\<close>),
  a chunk that passes the assertions is answered for exactly these cycles. In any other chunk that
  passes them the number of answers is still the number of \<open>R\<close> commands and every requested cycle
  that shifts a bit is answered, but a request counted twice can pay for one that was never made.
\<close>

fun rbb_asked :: "nat \<Rightarrow> byte list \<Rightarrow> nat list" where
  "rbb_asked k [] = []"
| "rbb_asked k (c # cs) =
     (if c = 0x52 then k # rbb_asked k cs
      else rbb_asked (if 0x30 \<le> c \<and> c \<le> 0x37 \<and> bit (c - 0x30) 2 then Suc k else k) cs)"

lemma rbb_asked_sorted: "sorted (rbb_asked k cmds) \<and> (\<forall>p \<in> set (rbb_asked k cmds). k \<le> p)"
proof (induction cmds arbitrary: k)
  case Nil
  then show ?case by simp
next
  case (Cons c cs)
  show ?case using Cons.IH [of k] Cons.IH [of "Suc k"] by (auto dest: Suc_leD)
qed

lemma length_rbb_asked: "length (rbb_asked k cmds) = rbb_requests cmds"
  by (induction cmds arbitrary: k) (simp_all add: rbb_requests_def)

lemma rbb_fold_asked:
  assumes "rbb_bits i + length cmds \<le> 8 * length (rbb_read i)"
  shows "bit_at (rbb_read (fold rbb_command cmds i)) j \<longleftrightarrow> bit_at (rbb_read i) j \<or> j \<in> set (rbb_asked (rbb_bits i) cmds)"
  using assms
proof (induction cmds arbitrary: i)
  case Nil
  then show ?case by simp
next
  case (Cons c cs)
  have R: "\<not> ((0x52 :: byte) \<le> 0x37)" by simp
  let ?i = "rbb_command c i"
  have "rbb_bits ?i = (if c \<noteq> 0x52 \<and> 0x30 \<le> c \<and> c \<le> 0x37 \<and> bit (c - 0x30) 2 then Suc (rbb_bits i) else rbb_bits i)"
    using R by (auto simp: rbb_command_def Let_def)
  moreover have "length (rbb_read ?i) = length (rbb_read i)" by (simp add: rbb_command_def Let_def)
  moreover have "bit_at (rbb_read ?i) j \<longleftrightarrow> bit_at (rbb_read i) j \<or> (c = 0x52 \<and> j = rbb_bits i)"
    using R Cons.prems by (auto simp: rbb_command_def Let_def bit_at_or_bit)
  ultimately show ?case using Cons.IH [of ?i] Cons.prems R by auto
qed

lemma rbb_parse_asked:
  assumes "length cmds \<le> BUFFER_SIZE" "j < length cmds"
  shows "bit_at (rbb_read (rbb_parse E cmds)) j \<longleftrightarrow> j \<in> set (rbb_asked 0 cmds)"
proof -
  have m: "(length cmds + 7) div 8 \<le> BUFFER_SIZE" "j < 8 * ((length cmds + 7) div 8)"
    using assms by (simp_all add: BUFFER_SIZE_def)
  then have "\<not> bit_at (rbb_read (rbb_cleared E (length cmds))) j"
    by (simp add: rbb_cleared_def Let_def bit_at_write_front)
  moreover have "length (rbb_read (rbb_cleared E (length cmds))) = BUFFER_SIZE" "rbb_bits (rbb_cleared E (length cmds)) = 0"
    using m(1) by (simp_all add: rbb_cleared_def Let_def)
  ultimately show ?thesis
    using rbb_fold_asked [of "rbb_cleared E (length cmds)" cmds j] assms(1) by (simp add: rbb_parse_def)
qed

definition rbb_shifts :: "JtagState \<Rightarrow> byte list \<Rightarrow> nat \<Rightarrow> bool" where
  "rbb_shifts st cmds p \<longleftrightarrow> p < length (rbb_cycles cmds) \<and> shifting (run_tap st (take p (tms_bits (rbb_cycles cmds))))"

definition rbb_ordinary :: "JtagState \<Rightarrow> byte list \<Rightarrow> bool" where
  "rbb_ordinary st cmds \<longleftrightarrow> distinct (rbb_asked 0 cmds) \<and> list_all (rbb_shifts st cmds) (rbb_asked 0 cmds)"

definition rbb_answers :: "JtagState \<Rightarrow> byte list \<Rightarrow> nat list \<Rightarrow> bool" where
  "rbb_answers st cmds ps \<longleftrightarrow> length ps = rbb_requests cmds \<and> sorted ps \<and> distinct ps \<and> list_all (rbb_shifts st cmds) ps \<and>
     set (filter (rbb_shifts st cmds) (rbb_asked 0 cmds)) \<subseteq> set ps \<and>
     (rbb_ordinary st cmds \<longrightarrow> ps = rbb_asked 0 cmds)"

lemma rbb_positions_answer:
  assumes len: "length cmds \<le> BUFFER_SIZE" and ok: "rbb_chunk_ok E cmds st"
  shows "rbb_answers st cmds (rbb_positions E cmds st)"
proof -
  define inp where "inp = rbb_parse E cmds"
  note ps = rbb_parse_spec [OF len, of E, folded inp_def]
  have n: "rbb_bits inp \<le> length cmds" using ps(1) length_rbb_clocks [of cmds] by simp
  then have "rbb_bits inp \<le> 8 * length (rbb_tms inp)" using ps(2) len by simp
  from analyze_bitbang_tiles [OF this, of st] obtain rs where
    rs: "analyze_bitbang (rbb_tms inp) (rbb_bits inp) st = Inr (rs, run_tap st (bits_of (rbb_tms inp) (rbb_bits inp)))"
      "tiles st (bits_of (rbb_tms inp) (rbb_bits inp)) 0 rs (rbb_bits inp)" by blast
  have cyc: "bits_of (rbb_tms inp) (rbb_bits inp) = tms_bits (rbb_cycles cmds)"
    using ps(5) tms_bitbang [of "rbb_tms inp" "rbb_tdi inp" "rbb_bits inp"] by simp
  have sh: "rbb_shifts st cmds p \<longleftrightarrow> p < rbb_bits inp \<and> shifting (st_at st (tms_bits (rbb_cycles cmds)) p)" for p
    using ps(1) by (simp add: rbb_shifts_def st_at_def rbb_cycles_def)
  let ?R = "rbb_read inp" and ?P = "concat (map (read_region (rbb_read inp)) rs)"
  have good: "list_all (reads_ok ?R) rs" "sum_list (map (reads_count ?R) rs) = rbb_requests cmds"
    using ok rs(1) by (simp_all add: rbb_chunk_ok_def inp_def [symmetric] Let_def)
      (simp add: inp_def rbb_read_bits_parse)
  have P: "rbb_positions E cmds st = ?P" by (simp add: rbb_positions_def inp_def [symmetric] rs(1) Let_def)
  have rok: "region_ok st (tms_bits (rbb_cycles cmds)) r" if "r \<in> set rs" for r
    using tiles_mem [OF rs(2) that] cyc by simp
  have up: "p \<in> set (read_region ?R r)"
    if r: "r \<in> set rs" "region_begin r \<le> p" "p < region_end r" "\<not> is_tms r" "bit_at ?R p" for p r
  proof -
    have "\<forall>j \<in> {region_begin r..<region_end r - 1}. bit_at ?R j \<longrightarrow> bit_at ?R (Suc j)"
      using good(1) r(1,4) by (auto simp: list_all_iff reads_ok_def)
    then have "p + k < region_end r \<Longrightarrow> bit_at ?R (p + k)" for k
      using r(2,5) by (induction k) auto
    from this [of "region_end r - 1 - p"] r(3) have "bit_at ?R (region_end r - 1)" by simp
    then show ?thesis using r(2-4) by (simp add: read_region_def)
  qed
  have sub: "p \<in> set ?P" if p: "p \<in> set (rbb_asked 0 cmds)" "rbb_shifts st cmds p" for p
  proof -
    from tiles_cover [OF rs(2), of p] p(2) obtain r where
      r: "r \<in> set rs" "region_begin r \<le> p" "p < region_end r" unfolding sh by auto
    then have data: "\<not> is_tms r" using rok [OF r(1)] p(2) by (auto simp: sh region_ok_def)
    have "p < length cmds" using p(2) n by (simp add: sh)
    then have "bit_at ?R p" using rbb_parse_asked [OF len, of p E] p(1) by (simp add: inp_def)
    from up [OF r data this] r(1) show ?thesis by auto
  qed
  have on: "rbb_shifts st cmds p" if "p \<in> set ?P" for p
  proof -
    from that obtain r where r: "r \<in> set rs" "p \<in> set (read_region ?R r)" by auto
    then have "\<not> is_tms r" "region_begin r \<le> p" "p < region_end r"
      by (auto simp: read_region_def split: if_splits)
    then show ?thesis using rok [OF r(1)] ps(1) by (auto simp: sh region_ok_def rbb_cycles_def)
  qed
  have P_sorted: "sorted ?P \<and> distinct ?P"
    using tiles_read_sorted [OF rs(2), of ?R] by blast
  have len_P: "length ?P = rbb_requests cmds" using good(2) by (simp add: length_concat comp_def)
  have "?P = rbb_asked 0 cmds" if o: "rbb_ordinary st cmds"
  proof -
    have once: "distinct (rbb_asked 0 cmds)" and "set (rbb_asked 0 cmds) \<subseteq> set ?P"
      using o sub by (auto simp: rbb_ordinary_def list_all_iff)
    moreover have "card (set ?P) = card (set (rbb_asked 0 cmds))"
      using len_P P_sorted once by (simp only: distinct_card length_rbb_asked)
    ultimately have "set (rbb_asked 0 cmds) = set ?P" by (intro card_subset_eq) simp_all
    then show ?thesis
      using P_sorted once rbb_asked_sorted [of 0 cmds] by (intro sorted_distinct_set_unique) auto
  qed
  with P_sorted len_P sub on show ?thesis unfolding P rbb_answers_def list_all_iff by auto
qed

context jtag_driver
begin

lemma rbb_tick_spec:
  assumes "live" "drv_inv s" "can_send s" "tracks wire s" "0 \<le> client_fd s"
    and read: "call_read E BUFFER_SIZE s = (Some cmds, s1)" "cmds \<noteq> []"
    and keep: "sockets_keep E port"
  shows "if rbb_chunk_ok E cmds (state s)
    then \<exists>t reply. jtag_rbb_tick E D s = Inr t \<and> replays drv_inv can_send wire s (rbb_cycles cmds) t \<and>
      net_out t = net_out s @ reply \<and> length reply \<le> rbb_requests cmds \<and> set reply \<subseteq> {0x30, 0x31} \<and>
      (sock_accepts E \<longrightarrow> length reply = rbb_requests cmds \<and>
        (\<forall>f. target = Some f \<longrightarrow> reply = rbb_digits f (history (wire s)) (tap_view (state s) (rbb_cycles cmds))
           (rbb_positions E cmds (state s))))
    else jtag_rbb_tick E D s = Inl AssertionFailed"
proof -
  from call_read_frame [OF read(1)] obtain w where s1: "s1 = s\<lparr>world := w\<rparr>" and len: "length cmds \<le> BUFFER_SIZE"
    by auto
  have "port w = port (world s)" using socket_calls_keep(2) [OF keep, of BUFFER_SIZE s] by (simp add: read(1) s1)
  then have "drv_inv s1 = drv_inv s \<and> can_send s1 = can_send s \<and> wire s1 = wire s"
    unfolding s1 by (intro view) simp_all
  then have pre: "drv_inv s1" "can_send s1" "tracks wire s1" "wire s1 = wire s"
    using assms(2-4) s1 by (simp_all add: tracks_def)
  have st: "state s1 = state s" "net_out s1 = net_out s" using s1 by simp_all
  have tick: "jtag_rbb_tick E D s = rbb_execute E D cmds s1"
    using assms(5) read by (cases cmds) (simp_all add: jtag_rbb_tick_def)
  have repl: "replays drv_inv can_send wire s1 cyc t \<Longrightarrow> replays drv_inv can_send wire s cyc t" for cyc t
    using pre(4) s1 by (auto simp: replays_def same_conn_def)
  from rbb_execute_spec [OF assms(1) pre(1-3) len keep] obtain rs where
    rs: "analyze_bitbang (rbb_tms (rbb_parse E cmds)) (rbb_bits (rbb_parse E cmds)) (state s) =
        Inr (rs, run_tap (state s) (tms_bits (rbb_cycles cmds)))"
    and res: "if list_all (reads_ok (rbb_read (rbb_parse E cmds))) rs \<and>
        sum_list (map (reads_count (rbb_read (rbb_parse E cmds))) rs) = rbb_read_bits (rbb_parse E cmds)
      then \<exists>t reply. rbb_execute E D cmds s1 = Inr t \<and> replays drv_inv can_send wire s1 (rbb_cycles cmds) t \<and>
        net_out t = net_out s1 @ reply \<and> length reply \<le> rbb_read_bits (rbb_parse E cmds) \<and> set reply \<subseteq> {0x30, 0x31} \<and>
        (sock_accepts E \<longrightarrow> length reply = rbb_read_bits (rbb_parse E cmds) \<and>
          (\<forall>f. target = Some f \<longrightarrow> reply = rbb_digits f (history (wire s1)) (tap_view (state s) (rbb_cycles cmds))
             (concat (map (read_region (rbb_read (rbb_parse E cmds))) rs))))
      else rbb_execute E D cmds s1 = Inl AssertionFailed"
    unfolding st by blast
  have "rbb_chunk_ok E cmds (state s) \<longleftrightarrow> list_all (reads_ok (rbb_read (rbb_parse E cmds))) rs \<and>
        sum_list (map (reads_count (rbb_read (rbb_parse E cmds))) rs) = rbb_read_bits (rbb_parse E cmds)"
    by (simp add: rbb_chunk_ok_def rs Let_def)
  moreover have "rbb_positions E cmds (state s) = concat (map (read_region (rbb_read (rbb_parse E cmds))) rs)"
    by (simp add: rbb_positions_def rs Let_def)
  ultimately show ?thesis using res repl unfolding tick st rbb_read_bits_parse pre(4) by (auto split: if_splits)
qed

text \<open>With a known target the client is told what it shows.\<close>

lemma rbb_tick_shown:
  assumes "live" "at_rest drv_inv can_send wire s" "sock_accepts E" "sockets_keep E port" "target = Some f" "0 \<le> client_fd s"
    and read: "call_read E BUFFER_SIZE s = (Some cmds, s1)" "cmds \<noteq> []"
  shows "if rbb_chunk_ok E cmds (state s)
    then \<exists>t ps. jtag_rbb_tick E D s = Inr t \<and> at_rest drv_inv can_send wire t \<and>
      history (wire t) = history (wire s) @ tap_view (state s) (rbb_cycles cmds) \<and>
      net_out t = net_out s @ rbb_digits f (history (wire s)) (tap_view (state s) (rbb_cycles cmds)) ps \<and>
      rbb_answers (state s) cmds ps
    else jtag_rbb_tick E D s = Inl AssertionFailed"
proof -
  have s: "drv_inv s" "can_send s" "tracks wire s" using assms(2) by (simp_all add: at_rest_def)
  note tick = rbb_tick_spec [OF assms(1) s assms(6) read assms(4)]
  show ?thesis
  proof (cases "rbb_chunk_ok E cmds (state s)")
    case False
    with tick show ?thesis by simp
  next
    case True
    with tick assms(3,5) obtain t where t: "jtag_rbb_tick E D s = Inr t"
      "replays drv_inv can_send wire s (rbb_cycles cmds) t"
      "net_out t = net_out s @ rbb_digits f (history (wire s)) (tap_view (state s) (rbb_cycles cmds)) (rbb_positions E cmds (state s))"
      by auto
    have "length cmds \<le> BUFFER_SIZE" using call_read_frame [OF read(1)] by auto
    note pos = rbb_positions_answer [OF this True]
    have "at_rest drv_inv can_send wire t" using t(2) by (simp add: replays_def at_rest_def)
    with t(1,3) pos True replays_history [OF s(3) t(2)] show ?thesis by auto
  qed
qed

end

end
