(* ===== verification/Probe.thy ===== *)
theory Probe
  imports Driver
begin

text \<open>
  \<open>jtag_probe_devices\<close> (src/common.cpp) on any driver that keeps its contract: the probe runs
  to its end without a fault, the wire and the software state stay in step, and what it
  reports is what was captured.
\<close>

lemma scan_limit_probe: "MAX_TAPS * MAX_IR \<le> SCAN_LIMIT" "MAX_TAPS \<le> SCAN_LIMIT" "MAX_TAPS * 32 \<le> SCAN_LIMIT"
  by (simp_all add: MAX_TAPS_def MAX_IR_def SCAN_LIMIT_def)

context jtag_driver
begin

lemma flip_scan_state:
  assumes "drives drv_inv can_send wire s (scan_cycles data n True rd) t" "tracks wire s" "shifting (state s)" "0 < n"
  shows "state t = next_state (state s) True"
  using drives_state [OF assms(2,1)] run_tap_scan [OF assms(4,3), of data True rd] by simp

lemma hold_scan_state:
  assumes "drives drv_inv can_send wire s (scan_cycles data n False rd) t" "tracks wire s" "shifting (state s)" "0 < n"
  shows "state t = state s"
  using drives_state [OF assms(2,1)] run_tap_scan [OF assms(4,3), of data False rd] by simp

text \<open>Steps 1 to 6: reset, flush the instruction registers, count the bypass registers.\<close>

lemma probe_count_drives:
  assumes "live" "drv_inv s" "can_send s" "tracks wire s"
  shows "\<exists>a b c d e t ok1 ok2 ok3 ok4 ok5 ok6 rb cyc.
     jtag_goto_tlr D s = Inr (ok1, a) \<and> jtag_tms_seq_to D ShiftIR a = Inr (ok2, b) \<and>
     jtag_scan_chain_send D (replicate (MAX_TAPS * MAX_IR div 8) 0xFF) (MAX_TAPS * MAX_IR) True False b = Inr (ok3, c) \<and>
     jtag_tms_seq_to D ShiftDR c = Inr (ok4, d) \<and>
     jtag_scan_chain_send D (replicate (MAX_TAPS div 8) 0) MAX_TAPS False False d = Inr (ok5, e) \<and>
     jtag_scan_chain D (replicate (MAX_TAPS div 8) 0xFF) (indeterminate E (MAX_TAPS div 8)) MAX_TAPS True True e =
       Inr (ok6, rb, t) \<and>
     drives drv_inv can_send wire s cyc t \<and> state t = Exit1DR"
proof -
  from goto_tlr_drives [OF assms] obtain a ca where
    a: "jtag_goto_tlr D s = Inr (True, a)" "drives drv_inv can_send wire s ca a" "state a = TestLogicReset" by blast
  have "jtag_get_tms_seq (state a) ShiftIR = Inr (0x06, 5)" by (simp add: a(3) tms_path_facts)
  from tms_seq_to_drives [OF assms(1) drivesD(1-3) [OF a(2)] this] obtain b cb where
    b: "jtag_tms_seq_to D ShiftIR a = Inr (True, b)" "drives drv_inv can_send wire a cb b" "state b = ShiftIR" by blast
  have sb: "shifting (state b)" by (simp add: b(3) shifting_def)
  have "0 < MAX_TAPS * MAX_IR" "MAX_TAPS * MAX_IR \<le> 8 * length (replicate (MAX_TAPS * MAX_IR div 8) (0xFF :: byte))"
    by (simp_all add: MAX_TAPS_def MAX_IR_def)
  from scan_send_drives [OF assms(1) drivesD(1-3) [OF b(2)] sb this scan_limit_probe(1), of True] obtain c where
    c: "jtag_scan_chain_send D (replicate (MAX_TAPS * MAX_IR div 8) 0xFF) (MAX_TAPS * MAX_IR) True False b = Inr (True, c)"
      "drives drv_inv can_send wire b
         (scan_cycles (replicate (MAX_TAPS * MAX_IR div 8) 0xFF) (MAX_TAPS * MAX_IR) True False) c" by blast
  have "state c = Exit1IR"
    using flip_scan_state [OF c(2) drivesD(3) [OF b(2)] sb] b(3) by (simp add: MAX_TAPS_def MAX_IR_def)
  then have "jtag_get_tms_seq (state c) ShiftDR = Inr (0x3, 4)" by (simp add: tms_path_facts)
  from tms_seq_to_drives [OF assms(1) drivesD(1-3) [OF c(2)] this] obtain d cd where
    d: "jtag_tms_seq_to D ShiftDR c = Inr (True, d)" "drives drv_inv can_send wire c cd d" "state d = ShiftDR" by blast
  have sd: "shifting (state d)" by (simp add: d(3) shifting_def)
  have n: "0 < MAX_TAPS" "MAX_TAPS \<le> 8 * length (replicate (MAX_TAPS div 8) (x :: byte))"
    "MAX_TAPS \<le> 8 * length (indeterminate E (MAX_TAPS div 8))" for x
    by (simp_all add: MAX_TAPS_def)
  from scan_send_drives [OF assms(1) drivesD(1-3) [OF d(2)] sd n(1,2) scan_limit_probe(2)] obtain e where
    e: "jtag_scan_chain_send D (replicate (MAX_TAPS div 8) 0) MAX_TAPS False False d = Inr (True, e)"
      "drives drv_inv can_send wire d (scan_cycles (replicate (MAX_TAPS div 8) 0) MAX_TAPS False False) e" by blast
  have se: "state e = ShiftDR" using hold_scan_state [OF e(2) drivesD(3) [OF d(2)] sd n(1)] d(3) by simp
  then have sh: "shifting (state e)" by (simp add: shifting_def)
  from scan_chain_drives [OF assms(1) drivesD(1-3) [OF e(2)] sh n(1,2) scan_limit_probe(2) n(3)] obtain rb t where
    t: "jtag_scan_chain D (replicate (MAX_TAPS div 8) 0xFF) (indeterminate E (MAX_TAPS div 8)) MAX_TAPS True True e =
       Inr (True, rb, t)"
      "drives drv_inv can_send wire e (scan_cycles (replicate (MAX_TAPS div 8) 0xFF) MAX_TAPS True True) t" by blast
  have "state t = Exit1DR" using flip_scan_state [OF t(2) drivesD(3) [OF e(2)] sh n(1)] se by simp
  moreover have "\<exists>cyc. drives drv_inv can_send wire s cyc t"
    by (rule exI, rule drives_trans [OF drives_trans [OF drives_trans [OF drives_trans
          [OF drives_trans [OF a(2) b(2)] c(2)] d(2)] e(2)] t(2)])
  ultimately show ?thesis using a(1) b(1) c(1) d(1) e(1) t(1) by blast
qed

text \<open>Steps 7 to 9: reset, read the identification codes, reset again.\<close>

lemma probe_read_drives:
  assumes "live" "drv_inv s" "can_send s" "tracks wire s"
  shows "\<exists>a b c t ok1 ok2 ok3 ok4 rb cyc.
     jtag_goto_tlr D s = Inr (ok1, a) \<and> jtag_tms_seq D [0x02] 4 a = Inr (ok2, b) \<and>
     jtag_scan_chain D (replicate (MAX_TAPS * 32 div 8) 0) (indeterminate E (MAX_TAPS * 32 div 8)) (MAX_TAPS * 32) True True b =
       Inr (ok3, rb, c) \<and>
     jtag_goto_tlr D c = Inr (ok4, t) \<and>
     drives drv_inv can_send wire s cyc t \<and> state t = TestLogicReset"
proof -
  from goto_tlr_drives [OF assms] obtain a ca where
    a: "jtag_goto_tlr D s = Inr (True, a)" "drives drv_inv can_send wire s ca a" "state a = TestLogicReset" by blast
  from tms_seq_drives [OF assms(1) drivesD(1-3) [OF a(2)], of 4 "[0x02]"] obtain b cb where
    b: "jtag_tms_seq D [0x02] 4 a = Inr (True, b)" "drives drv_inv can_send wire a cb b"
      "tms_bits cb = bits_of [0x02] 4" by auto
  have "state b = ShiftDR" using drives_state [OF drivesD(3) [OF a(2)] b(2)] b(3) a(3) by (simp add: tms_path_facts)
  then have sb: "shifting (state b)" by (simp add: shifting_def)
  have n: "0 < MAX_TAPS * 32" "MAX_TAPS * 32 \<le> 8 * length (replicate (MAX_TAPS * 32 div 8) (0 :: byte))"
    "MAX_TAPS * 32 \<le> 8 * length (indeterminate E (MAX_TAPS * 32 div 8))"
    by (simp_all add: MAX_TAPS_def)
  from scan_chain_drives [OF assms(1) drivesD(1-3) [OF b(2)] sb n(1,2) scan_limit_probe(3) n(3)] obtain rb c where
    c: "jtag_scan_chain D (replicate (MAX_TAPS * 32 div 8) 0) (indeterminate E (MAX_TAPS * 32 div 8)) (MAX_TAPS * 32)
         True True b = Inr (True, rb, c)"
      "drives drv_inv can_send wire b (scan_cycles (replicate (MAX_TAPS * 32 div 8) 0) (MAX_TAPS * 32) True True) c"
    by blast
  from goto_tlr_drives [OF assms(1) drivesD(1-3) [OF c(2)]] obtain t ct where
    t: "jtag_goto_tlr D c = Inr (True, t)" "drives drv_inv can_send wire c ct t" "state t = TestLogicReset" by blast
  have "\<exists>cyc. drives drv_inv can_send wire s cyc t"
    by (rule exI, rule drives_trans [OF drives_trans [OF drives_trans [OF a(2) b(2)] c(2)] t(2)])
  with a(1) b(1) c(1) t(1,3) show ?thesis by blast
qed

lemma probe_drives:
  assumes "live" "drv_inv s" "can_send s" "tracks wire s"
  shows "\<exists>ids t cyc. jtag_probe_devices E D s = Inr (ids, t) \<and> length ids \<le> 7 \<and>
     drives drv_inv can_send wire s cyc t \<and> state t = (if ids = [] then Exit1DR else TestLogicReset)"
proof -
  from probe_count_drives [OF assms, of E] obtain a b c d e t ok1 ok2 ok3 ok4 ok5 ok6 rb cyc where
    steps: "jtag_goto_tlr D s = Inr (ok1, a)" "jtag_tms_seq_to D ShiftIR a = Inr (ok2, b)"
     "jtag_scan_chain_send D (replicate (MAX_TAPS * MAX_IR div 8) 0xFF) (MAX_TAPS * MAX_IR) True False b = Inr (ok3, c)"
     "jtag_tms_seq_to D ShiftDR c = Inr (ok4, d)"
     "jtag_scan_chain_send D (replicate (MAX_TAPS div 8) 0) MAX_TAPS False False d = Inr (ok5, e)"
     "jtag_scan_chain D (replicate (MAX_TAPS div 8) 0xFF) (indeterminate E (MAX_TAPS div 8)) MAX_TAPS True True e =
       Inr (ok6, rb, t)"
    and t: "drives drv_inv can_send wire s cyc t" "state t = Exit1DR" by blast
  show ?thesis
  proof (cases "count_devices rb = 0")
    case True
    then have "jtag_probe_devices E D s = Inr ([], t)"
      by (simp add: jtag_probe_devices_def steps Let_def)
    with t show ?thesis by auto
  next
    case False
    from probe_read_drives [OF assms(1) drivesD(1-3) [OF t(1)], of E] obtain f g h u ok7 ok8 ok9 ok10 rb2 cyc2 where
      read: "jtag_goto_tlr D t = Inr (ok7, f)" "jtag_tms_seq D [0x02] 4 f = Inr (ok8, g)"
       "jtag_scan_chain D (replicate (MAX_TAPS * 32 div 8) 0) (indeterminate E (MAX_TAPS * 32 div 8)) (MAX_TAPS * 32)
          True True g = Inr (ok9, rb2, h)"
       "jtag_goto_tlr D h = Inr (ok10, u)"
      and u: "drives drv_inv can_send wire t cyc2 u" "state u = TestLogicReset" by blast
    have "jtag_probe_devices E D s = Inr (collect_idcodes rb2 (count_devices rb), u)"
      by (simp only: jtag_probe_devices_def steps read bindR_simps prod.case Let_def False if_False)
    moreover have "collect_idcodes rb2 (count_devices rb) \<noteq> []"
      using False by (simp add: collect_idcodes_def)
    ultimately show ?thesis using drives_trans [OF t(1) u(1)] u(2) count_devices_le [of rb]
      by (intro exI [of _ "collect_idcodes rb2 (count_devices rb)"] exI [of _ u] exI [of _ "cyc @ cyc2"]) simp
  qed
qed

end

text \<open>The identification codes are read back as they are shifted out: first device first, bit 0 first.\<close>

lemma concat_le32_nth:
  "i < length ids \<Longrightarrow> k < 4 \<Longrightarrow> (concat (map le32_bytes ids) @ rest) ! (i * 4 + k) = le32_bytes (ids ! i) ! k"
proof (induction ids arbitrary: i)
  case Nil
  then show ?case by simp
next
  case (Cons w ids)
  show ?case
  proof (cases i)
    case 0
    with Cons.prems show ?thesis by (simp add: nth_append)
  next
    case (Suc j)
    have "(concat (map le32_bytes (w # ids)) @ rest) ! (i * 4 + k) =
        (le32_bytes w @ (concat (map le32_bytes ids) @ rest)) ! (4 + (j * 4 + k))"
      using Suc by (simp add: ac_simps)
    also have "\<dots> = (concat (map le32_bytes ids) @ rest) ! (j * 4 + k)"
      by (metis length_le32_bytes(1) nth_append_length_plus)
    finally show ?thesis using Cons.IH [of j] Cons.prems Suc by simp
  qed
qed

lemma collect_idcodes_bytes: "collect_idcodes (concat (map le32_bytes ids) @ rest) (length ids) = ids"
proof (rule nth_equalityI)
  fix i assume "i < length (collect_idcodes (concat (map le32_bytes ids) @ rest) (length ids))"
  then have i: "i < length ids" by simp
  from concat_le32_nth [OF i, of 0 rest] concat_le32_nth [OF i, of 1 rest] concat_le32_nth [OF i, of 2 rest]
    concat_le32_nth [OF i, of 3 rest] i
  show "collect_idcodes (concat (map le32_bytes ids) @ rest) (length ids) ! i = ids ! i"
    by (simp add: collect_idcodes_def le32_bytes_def le32_le32_bytes)
qed simp

section \<open>Properties\<close>

text \<open>
  C26: what \<open>jtag_probe_devices\<close> makes of the captured bits. A chain of \<open>k\<close> devices in bypass, flushed
  with zeros and fed with ones, returns \<open>k\<close> zeros before the first one, and is counted as
  \<open>k\<close> devices (for fewer than eight); and the identification codes shifted out of \<open>n\<close> devices, least
  significant bit first, are assembled to the same \<open>n\<close> codes in the same order.
\<close>

theorem probe_decodes_chain:
  assumes "k < MAX_TAPS" "\<forall>i<k. \<not> bit_at rb i" "bit_at rb k"
  shows "count_devices rb = k \<and>
     collect_idcodes (concat (map le32_bytes ids) @ rest) (length ids) = ids"
  using count_devices_chain [OF assms] collect_idcodes_bytes [of ids rest] by simp

theorem probe_decodes_chain_witness:
  "count_devices [0xFC] = 2 \<and> collect_idcodes [0x77, 0x04, 0xA0, 0x4B, 0x93, 0x10, 0x03, 0x0D] 2 = [0x4BA00477, 0x0D031093]"
proof -
  have "(\<forall>i<2. \<not> bit_at [0xFC] i) \<and> bit_at [0xFC] 2"
    by (auto simp: bit_at_def less_2_cases_iff)
  moreover have "concat (map le32_bytes [0x4BA00477, 0x0D031093]) =
      [0x77, 0x04, 0xA0, 0x4B, 0x93, 0x10, 0x03, 0x0D :: byte]" by code_simp
  ultimately show ?thesis
    using probe_decodes_chain [of 2 "[0xFC]" "[0x4BA00477, 0x0D031093]" "[]"]
    by (simp add: MAX_TAPS_def flip: numeral_2_eq_2)
qed

end
