(* ===== verification/Servers.thy ===== *)
theory Servers
  imports Rbb Probe Mpsse_Read Usb_Blaster_Scan
begin

text \<open>
  The servers and the device probe on the two drivers of the program: what was proved for any
  driver that keeps its contract, for \<open>mpsse_driver\<close> and for \<open>usb_blaster_driver\<close>.
\<close>

lemma mpsse_is_driver: "jtag_driver (mpsse_driver E) mpsse_inv (\<lambda>_. True) mpsse_wire (mpsse_live E) (\<lambda>_. ()) None"
  by (rule mpsse.jtag_driver_axioms)

lemma mpsse_wires: "wire_driver (mpsse_driver E) mpsse_inv (\<lambda>_. True) mpsse_wire (mpsse_live E) (\<lambda>_. ())"
  by (rule mpsse.wire_driver_axioms)

text \<open>What \<open>replays\<close> says, spelled out.\<close>

lemma replays_explicit:
  assumes "tracks wire s" "replays ok_inv can wire s cyc t"
  shows "ok_inv t \<and> can t \<and> state t = run_tap (state s) (tms_bits cyc) \<and>
     (\<exists>new. wire t = wire s @ new \<and> tap_view (state s) new = tap_view (state s) cyc)"
  using replays_state [OF assms] assms(2) by (auto simp: replays_def)

section \<open>A sample client\<close>

text \<open>The peer sends \<open>cmds\<close> whenever it is read from; USB answers with zeros.\<close>

definition client_ext :: "byte list \<Rightarrow> unit ext" where
  "client_ext cmds = (zeros_ext 4096)\<lparr>sock_read := \<lambda>fd n w. (Some cmds, w)\<rparr>"

lemma client_ext_facts [simp]:
  "mpsse_live (client_ext cmds)" "blaster_live (client_ext cmds)" "sock_accepts (client_ext cmds)"
  "ext_stack (client_ext cmds) = (\<lambda>n. [])"
  by (auto simp: client_ext_def mpsse_live_def blaster_live_def sock_accepts_def usb_writes_accepted_def
      usb_reads_answered_def zeros_ext_def)

lemma client_ext_read: "call_read (client_ext cmds) n s = (Some (take n cmds), s\<lparr>world := ()\<rparr>)"
  by (simp add: call_read_def client_ext_def)

lemma client_read_socket:
  assumes "buffer_inv s" "buffer_begin s = 0" "buffer_end s = 0" "cmds \<noteq> []" "length cmds \<le> BUFFER_SIZE"
  shows "\<exists>r. read_socket (client_ext cmds) s = Inr (True, r) \<and> unread r = cmds \<and> client_fd r = client_fd s \<and> state r = state s"
proof -
  have c: "compact_buffer s = s" using assms(2,3) by (simp add: compact_buffer_def BUFFER_SIZE_def)
  have lt: "0 < BUFFER_SIZE" "length (buffer s) = BUFFER_SIZE" using assms(1) by (simp_all add: BUFFER_SIZE_def buffer_inv_def)
  obtain x xs where x: "cmds = x # xs" using assms(4) by (cases cmds) auto
  have "read_socket (client_ext cmds) s = Inr (True, s\<lparr>world := (), buffer := write_at (buffer s) 0 cmds, buffer_end := length cmds\<rparr>)"
    using assms(2,3,5) lt x by (simp add: read_socket_def c client_ext_read Let_def)
  then show ?thesis using assms(2,5) lt(2) by (auto simp: unread_def write_at_def)
qed

lemma mpsse_client_start:
  "mpsse_inv ((mpsse_start ())\<lparr>client_fd := 4\<rparr>)" "tracks mpsse_wire ((mpsse_start ())\<lparr>client_fd := 4\<rparr>)"
  "state ((mpsse_start ())\<lparr>client_fd := 4\<rparr>) = TestLogicReset" "0 \<le> client_fd ((mpsse_start ())\<lparr>client_fd := 4\<rparr>)"
  "buffer_inv ((mpsse_start ())\<lparr>client_fd := 4\<rparr>)" "net_out ((mpsse_start ())\<lparr>client_fd := 4\<rparr>) = []"
  "buffer_begin ((mpsse_start ())\<lparr>client_fd := 4\<rparr>) = 0" "buffer_end ((mpsse_start ())\<lparr>client_fd := 4\<rparr>) = 0"
  using wire_driver.view [OF mpsse_wires, of "(mpsse_start ())\<lparr>client_fd := 4\<rparr>" "mpsse_start ()"] mpsse_start_inv [of "()"]
  by (simp_all add: tracks_def mpsse_start_def process_start_def common_state.defs buffer_inv_def)

text \<open>Into Shift-DR, two bits with an \<open>R\<close> before each, the second leaving Shift-DR.\<close>

definition sample_rbb :: "byte list" where
  "sample_rbb = [0x30, 0x34, 0x32, 0x36, 0x30, 0x34, 0x30, 0x34, 0x30, 0x52, 0x34, 0x33, 0x52, 0x37]"

lemma sample_rbb_ok: "rbb_chunk_ok E sample_rbb TestLogicReset"
proof -
  have "length sample_rbb \<le> BUFFER_SIZE" by (simp add: sample_rbb_def BUFFER_SIZE_def)
  show ?thesis unfolding rbb_chunk_ok_small [OF \<open>length sample_rbb \<le> BUFFER_SIZE\<close>] by code_simp
qed

section \<open>Properties\<close>

text \<open>
  The remote bitbang server on the MPSSE driver. A tick that receives a chunk of commands
  either replays it or fails an assertion, and \<open>rbb_chunk_ok\<close> decides which. Replaying means:
  whatever the driver puts on the wire, the target's TAP controller sees exactly the TMS values
  the client clocked, and its TDI values in every cycle that shifts a bit; the software state
  ends where these cycles lead; and the client is sent one \<open>0\<close> or \<open>1\<close> for each of its \<open>R\<close>.
\<close>

lemma rbb_tick_mpsse:
  assumes "mpsse_live E" "mpsse_inv s" "tracks mpsse_wire s" "sock_accepts E" "0 \<le> client_fd s"
    and "call_read E BUFFER_SIZE s = (Some cmds, s1)" "cmds \<noteq> []"
  shows "if rbb_chunk_ok E cmds (state s)
    then \<exists>t new reply. jtag_rbb_tick E (mpsse_driver E) s = Inr t \<and> mpsse_inv t \<and>
      mpsse_wire t = mpsse_wire s @ new \<and> tap_view (state s) new = tap_view (state s) (rbb_cycles cmds) \<and>
      state t = run_tap (state s) (tms_bits (rbb_cycles cmds)) \<and>
      net_out t = net_out s @ reply \<and> length reply = rbb_requests cmds \<and> set reply \<subseteq> {0x30, 0x31}
    else jtag_rbb_tick E (mpsse_driver E) s = Inl AssertionFailed"
proof -
  note tick = jtag_driver.rbb_tick_spec [OF mpsse_is_driver assms(1,2) TrueI assms(3,5-7) sockets_keep_unit]
  show ?thesis
  proof (cases "rbb_chunk_ok E cmds (state s)")
    case False
    with tick show ?thesis by simp
  next
    case True
    with tick assms(4) obtain t reply where t: "jtag_rbb_tick E (mpsse_driver E) s = Inr t"
      "replays mpsse_inv (\<lambda>_. True) mpsse_wire s (rbb_cycles cmds) t"
      "net_out t = net_out s @ reply" "length reply = rbb_requests cmds" "set reply \<subseteq> {0x30, 0x31}" by auto
    with True replays_explicit [OF assms(3) t(2)] show ?thesis by auto
  qed
qed

text \<open>
  The remote bitbang server on the USB Blaster driver: the same chunk gives the same cycles at
  the target's TAP controller and as many replies as on the MPSSE driver.
\<close>

lemma rbb_tick_blaster:
  fixes s :: "('w, 'z) blaster_state_scheme"
  assumes "blaster_live E" "blaster_inv s" "recv_buffer_len s = 0" "tracks blaster_wire s" "sock_accepts E"
    and "0 \<le> client_fd s" "call_read E BUFFER_SIZE s = (Some cmds, s1)" "cmds \<noteq> []"
  shows "if rbb_chunk_ok E cmds (state s)
    then \<exists>t new reply. jtag_rbb_tick E (usb_blaster_driver E) s = Inr t \<and> blaster_inv t \<and> recv_buffer_len t = 0 \<and>
      blaster_wire t = blaster_wire s @ new \<and> tap_view (state s) new = tap_view (state s) (rbb_cycles cmds) \<and>
      state t = run_tap (state s) (tms_bits (rbb_cycles cmds)) \<and>
      net_out t = net_out s @ reply \<and> length reply = rbb_requests cmds \<and> set reply \<subseteq> {0x30, 0x31}
    else jtag_rbb_tick E (usb_blaster_driver E) s = Inl AssertionFailed"
proof -
  have idle: "blaster_idle s" using assms(3) by (simp add: blaster_idle_def)
  note tick = jtag_driver.rbb_tick_spec [OF blaster_is_driver assms(1,2) idle assms(4,6-8) sockets_keep_unit]
  show ?thesis
  proof (cases "rbb_chunk_ok E cmds (state s)")
    case False
    with tick show ?thesis by simp
  next
    case True
    with tick assms(5) obtain t reply where t: "jtag_rbb_tick E (usb_blaster_driver E) s = Inr t"
      "replays blaster_inv blaster_idle blaster_wire s (rbb_cycles cmds) t"
      "net_out t = net_out s @ reply" "length reply = rbb_requests cmds" "set reply \<subseteq> {0x30, 0x31}" by auto
    with True replays_explicit [OF assms(4) t(2)] show ?thesis by (auto simp: blaster_idle_def)
  qed
qed

text \<open>
  An \<open>R\<close> while the target is not shifting ends the server: a chunk with an \<open>R\<close> none of whose
  clock cycles starts in Shift-DR or Shift-IR (an \<open>R\<close> with no clock at all included) fails the
  assertion that every read bit was answered.
\<close>

lemma rbb_read_outside_shift:
  assumes "mpsse_live E" "mpsse_inv s" "tracks mpsse_wire s" "0 \<le> client_fd s"
    and "call_read E BUFFER_SIZE s = (Some cmds, s1)" "0 < rbb_requests cmds"
    and "\<forall>k < length (rbb_cycles cmds). \<not> shifting (run_tap (state s) (take k (tms_bits (rbb_cycles cmds))))"
  shows "jtag_rbb_tick E (mpsse_driver E) s = Inl AssertionFailed"
proof -
  have ne: "cmds \<noteq> []" using assms(6) by (auto simp: rbb_requests_def)
  have "length cmds \<le> BUFFER_SIZE" using call_read_frame [OF assms(5)] by auto
  from rbb_read_needs_shift [OF this assms(6,7), of E]
    jtag_driver.rbb_tick_spec [OF mpsse_is_driver assms(1,2) TrueI assms(3-5) ne sockets_keep_unit] show ?thesis by simp
qed

text \<open>
  \<open>jtag_probe_devices\<close> on the MPSSE driver: from any reachable state of the driver the probe runs to
  its end without a fault, reports at most seven devices, keeps the driver invariant and the
  agreement between software state and wire, leaves the client side alone, and ends in
  Test-Logic-Reset, or in Exit1-DR when it found nothing.
\<close>

lemma probe_mpsse:
  assumes "mpsse_live E" "mpsse_inv s" "tracks mpsse_wire s"
  shows "\<exists>ids t. jtag_probe_devices E (mpsse_driver E) s = Inr (ids, t) \<and> length ids \<le> 7 \<and>
     mpsse_inv t \<and> tracks mpsse_wire t \<and> same_host s t \<and>
     state t = (if ids = [] then Exit1DR else TestLogicReset)"
proof -
  from jtag_driver.probe_drives [OF mpsse_is_driver assms(1,2) TrueI assms(3), of E] obtain ids t cyc where
    t: "jtag_probe_devices E (mpsse_driver E) s = Inr (ids, t)" "length ids \<le> 7"
      "drives mpsse_inv (\<lambda>_. True) mpsse_wire s cyc t" "state t = (if ids = [] then Exit1DR else TestLogicReset)"
    by blast
  from drivesD [OF t(3)] t show ?thesis by (intro exI [of _ ids] exI [of _ t] conjI)
qed

text \<open>
  \<open>jtag_probe_devices\<close> on the USB Blaster driver, likewise.
\<close>

lemma probe_blaster:
  fixes s :: "('w, 'z) blaster_state_scheme"
  assumes "blaster_live E" "blaster_inv s" "recv_buffer_len s = 0" "tracks blaster_wire s"
  shows "\<exists>ids t. jtag_probe_devices E (usb_blaster_driver E) s = Inr (ids, t) \<and> length ids \<le> 7 \<and>
     blaster_inv t \<and> recv_buffer_len t = 0 \<and> tracks blaster_wire t \<and> same_host s t \<and>
     state t = (if ids = [] then Exit1DR else TestLogicReset)"
proof -
  have "blaster_idle s" using assms(3) by (simp add: blaster_idle_def)
  from jtag_driver.probe_drives [OF blaster_is_driver assms(1,2) this assms(4), of E] obtain ids t cyc where
    t: "jtag_probe_devices E (usb_blaster_driver E) s = Inr (ids, t)" "length ids \<le> 7"
      "drives blaster_inv blaster_idle blaster_wire s cyc t" "state t = (if ids = [] then Exit1DR else TestLogicReset)"
    by blast
  from drivesD [OF t(3)] t show ?thesis unfolding blaster_idle_def by (intro exI [of _ ids] exI [of _ t] conjI)
qed

end
