(* ===== verification/Xvc_Drivers.thy ===== *)
theory Xvc_Drivers
  imports Xvc_Run Mpsse_Read Usb_Blaster_Scan Servers
begin

text \<open>
  The virtual cable server (src/xvc.cpp) on the two drivers of the program, and the requests it
  does not survive or does not answer.
\<close>

section \<open>Samples\<close>

lemma xvc_start_ok: "arrays_ok xvc_start"
  by (simp add: arrays_ok_def xvc_start_def)

definition sample_xvc :: "byte list" where
  "sample_xvc = SHIFT @ [4, 0, 0, 0] @ [0x02] @ [0x00] @ GETINFO @ [0x73]"

lemma sample_xvc_script:
  "xvc_script sample_xvc = [Xvc_shift 4 [0x02] [0x00], Xvc_getinfo]" "xvc_left sample_xvc = [0x73]"
  "sample_xvc \<noteq> []" "length sample_xvc \<le> BUFFER_SIZE"
proof -
  show "xvc_script sample_xvc = [Xvc_shift 4 [0x02] [0x00], Xvc_getinfo]" by code_simp
  show "xvc_left sample_xvc = [0x73]" by code_simp
  show "sample_xvc \<noteq> []" "length sample_xvc \<le> BUFFER_SIZE" by (simp_all add: sample_xvc_def BUFFER_SIZE_def)
qed

section \<open>Properties\<close>

text \<open>
  The virtual cable server on the MPSSE driver. A tick parses what is in the receive buffer into
  commands, never loops for ever, and executes every complete one: whatever the driver puts on the
  wire (TMS commands, scans with TMS on the last bit, clock-only cycles for a run-test), the
  target's TAP controller sees exactly the TMS values of all the shifts in order, and their TDI
  values in every cycle that shifts a bit. The client is sent the answers of \<open>getinfo:\<close> and
  \<open>settck:\<close> first and then one vector of the right length for each shift; incomplete bytes
  stay in the buffer.
\<close>

lemma xvc_tick_mpsse:
  assumes "mpsse_live E" "sock_accepts E" "mpsse_inv s" "tracks mpsse_wire s" "arrays_ok a" "0 \<le> client_fd s"
    and "read_socket E s = Inr (True, r)" "buffer_inv s" "list_all xvc_ok (xvc_script (unread r))"
  shows "\<exists>b t bs new. jtag_xvc_tick E (mpsse_driver E) a s = Inr (b, t) \<and> arrays_ok b \<and> mpsse_inv t \<and>
     tracks mpsse_wire t \<and> mpsse_wire t = mpsse_wire s @ new \<and>
     tap_view (state s) new = tap_view (state s) (concat (map xvc_cycles (xvc_script (unread r)))) \<and>
     state t = run_tap (state s) (tms_bits (concat (map xvc_cycles (xvc_script (unread r))))) \<and>
     net_out t = net_out s @ concat (map xvc_now (xvc_script (unread r))) @ concat bs \<and>
     map length bs = concat (map xvc_later (xvc_script (unread r))) \<and>
     buffer_inv t \<and> unread t = xvc_left (unread r)"
proof -
  from pipelined_driver.xvc_tick_spec [OF mpsse_queue.pipelined_driver_axioms assms(1,2) sockets_keep_unit assms(3) TrueI assms(4-9)]
  show ?thesis by (elim exE conjE) (intro exI conjI; assumption)
qed

text \<open>
  C34: a shift whose two vectors do not fit the receive buffer together with its header (more than
  2043 bytes each) is never executed: whatever has arrived of it, the tick leaves everything as
  \<open>read_socket\<close> left it. The answer to \<open>getinfo:\<close> promises vectors of 2048 bytes.
\<close>

theorem xvc_oversized_shift_waits:
  assumes "buffer_inv s" "0 \<le> client_fd s" "read_socket E s = Inr (True, r)"
    and "take 6 (unread r) = SHIFT" "10 \<le> length (unread r)"
    and "2043 < unat ((load_le32 (take 4 (drop 6 (unread r))) + 7) div 8)"
  shows "jtag_xvc_tick E D a s = Inr (a, r)"
proof -
  have inv: "buffer_inv r" by (rule read_socket_frame(1) [OF assms(1,3)])
  note shift_not_other [OF assms(4)]
  moreover have "\<not> 10 + 2 * unat ((load_le32 (take 4 (drop 6 (unread r))) + 7) div 8) \<le> length (unread r)"
    using unread_end [OF inv] assms(6) by (simp add: BUFFER_SIZE_def)
  ultimately have "xvc_next (unread r) = None" using assms(4) by (simp add: xvc_next_def Let_def)
  then have "xvc_loop E D (BUFFER_SIZE + 1) [] a r = Inr ([], a, r)"
    by (simp add: xvc_step_stops [OF inv])
  then show ?thesis using assms(2,3) by (simp add: jtag_xvc_tick_def)
qed

theorem xvc_oversized_shift_waits_witness:
  "\<exists>r. jtag_xvc_tick (client_ext (SHIFT @ [0, 0x40, 0, 0])) (mpsse_driver (client_ext (SHIFT @ [0, 0x40, 0, 0]))) xvc_start
       ((mpsse_start ())\<lparr>client_fd := 4\<rparr>) = Inr (xvc_start, r) \<and> unread r = SHIFT @ [0, 0x40, 0, 0]"
proof -
  let ?s = "(mpsse_start ())\<lparr>client_fd := 4\<rparr>" and ?c = "SHIFT @ [0, 0x40, 0, 0]"
  have "?c \<noteq> []" "length ?c \<le> BUFFER_SIZE" by (simp_all add: BUFFER_SIZE_def)
  from client_read_socket [OF mpsse_client_start(5,7,8) this] obtain r where
    r: "read_socket (client_ext ?c) ?s = Inr (True, r)" "unread r = ?c" by blast
  have "2043 < unat ((load_le32 (take 4 (drop 6 ?c)) + 7) div 8)" by code_simp
  with xvc_oversized_shift_waits [OF mpsse_client_start(5,4) r(1), of "mpsse_driver (client_ext ?c)" xvc_start] r
  show ?thesis by simp
qed

text \<open>
  C35: the requests that end the server, on any driver: a shift of \<open>2 ^ 32 - 7\<close> bits or more (its number
  of bytes wraps around to 0, so that it is executed at once on vectors of 4096 bytes: an access
  out of bounds), and \<open>settck:\<close> with a period of 0 (an infinite frequency is converted to an
  integer).
\<close>

theorem xvc_fatal_requests:
  assumes "buffer_inv s" "arrays_ok a"
  shows "(take 6 (unread s) = SHIFT \<and> 10 \<le> length (unread s) \<and>
      2 ^ 32 \<le> unat (load_le32 (take 4 (drop 6 (unread s)))) + 7 \<longrightarrow>
      xvc_step E D cmds a s = Inl OutOfBounds) \<and>
    (take 7 (unread s) = SETTCK \<and> 11 \<le> length (unread s) \<and> load_le32 (take 4 (drop 7 (unread s))) = 0 \<longrightarrow>
      xvc_step E D cmds a s = Inl BadConversion)"
  using xvc_shift_wraps [OF assms] xvc_settck_zero [OF assms(1)] by blast

theorem xvc_fatal_requests_witness:
  "\<exists>s :: unit mpsse_state. unread s = SHIFT @ [0xFA, 0xFF, 0xFF, 0xFF] \<and>
     xvc_step (zeros_ext 1) (mpsse_driver (zeros_ext 1)) [] xvc_start s = Inl OutOfBounds"
proof -
  let ?s = "(mpsse_start ())\<lparr>client_fd := 4\<rparr>" and ?c = "SHIFT @ [0xFA, 0xFF, 0xFF, 0xFF]"
  have "?c \<noteq> []" "length ?c \<le> BUFFER_SIZE" by (simp_all add: BUFFER_SIZE_def)
  from client_read_socket [OF mpsse_client_start(5,7,8) this] obtain r where
    r: "read_socket (client_ext ?c) ?s = Inr (True, r)" "unread r = ?c" by blast
  have "take 6 (unread r) = SHIFT \<and> 10 \<le> length (unread r) \<and>
      2 ^ 32 \<le> unat (load_le32 (take 4 (drop 6 (unread r)))) + 7"
    unfolding r(2) by (simp add: load_le32_def le32_def)
  with xvc_fatal_requests [OF read_socket_frame(1) [OF mpsse_client_start(5) r(1)] xvc_start_ok,
        of "zeros_ext 1" "mpsse_driver (zeros_ext 1)" "[]"]
  have "xvc_step (zeros_ext 1) (mpsse_driver (zeros_ext 1)) [] xvc_start r = Inl OutOfBounds" by blast
  with r(2) show ?thesis by blast
qed

text \<open>
  C36: on the USB Blaster, whose \<open>jtag_clock_tck\<close> does nothing, the virtual cable server loses the
  cycles of a run-test: a region of any number of TMS zeros in Run-Test/Idle that the client asked
  for becomes one single cycle on the wire.
\<close>

theorem xvc_blaster_loses_clocks:
  fixes s :: "('w, 'z) blaster_state_scheme"
  assumes "blaster_live E" "blaster_inv s" "state s = RunTestIdle"
    and "is_tms r" "region_begin r < region_end r" "region_end r \<le> n" "n \<le> 8 * BUFFER_SIZE"
    and "length (xvc_tms a) = BUFFER_SIZE" "\<forall>j \<in> {region_begin r..<region_end r}. \<not> bit_at (xvc_tms a) j"
  shows "\<exists>t. xvc_region (usb_blaster_driver E) a n r s = Inr t \<and>
     blaster_wire t = blaster_wire s @ [Cycle False (Some False) False]"
proof -
  let ?b = "region_begin r" and ?e = "region_end r"
  have range: "?b \<le> ?e" "?e \<le> 8 * length (xvc_tms a)" "?e \<le> 8 * BUFFER_SIZE" using assms(5-8) by simp_all
  from copy_region [OF range] obtain buf where
    buf: "copy_bits (xvc_tms a) ?b (?e - ?b) (replicate BUFFER_SIZE 0) 0 = Inr buf" "length buf = BUFFER_SIZE"
      "\<forall>j < ?e - ?b. bit_at buf j = bit_at (xvc_tms a) (?b + j)" by blast
  have e: "?b + (?e - ?b) = ?e" using assms(5) by simp
  have loop: "xvc_tms_loop (xvc_tms a) ?b 0 (?e - ?b) (replicate BUFFER_SIZE 0) True = Inr (buf, True)"
    using xvc_tms_loop_spec [of ?b "?e - ?b" "xvc_tms a" 0 "replicate BUFFER_SIZE 0" True] range buf(1) assms(9)
    by (simp add: e)
  have b0: "\<not> bit_at buf 0" using buf(3) assms(5,9) by simp
  let ?s = "s\<lparr>bits_send := bits_send s + 1, state := RunTestIdle\<rparr>"
  have inv: "blaster_inv ?s" "blaster_wire ?s = blaster_wire s"
    using assms(2) by (simp_all add: blaster_inv_def blaster_safe_def blaster_wire_def)
  have "0 < (1 :: nat)" "1 \<le> 8 * length buf" using buf(2) by (simp_all add: BUFFER_SIZE_def)
  from usb_blaster.tms_contract [OF inv(1) TrueI this, of E] assms(1) obtain t where
    t: "usb_blaster_jtag_tms_seq E buf 1 ?s = Inr (True, t)"
      "blaster_wire t = blaster_wire s @ map (\<lambda>j. Cycle (bit_at buf j) (Some False) False) [0..<1]"
    using inv(2) by auto
  have "read_bit buf 0 = Inr False" using b0 buf(2) by (simp add: read_bit_def BUFFER_SIZE_def)
  then have "walk_tms buf 0 1 RunTestIdle = Inr RunTestIdle" by simp
  then have "jtag_tms_seq (usb_blaster_driver E) buf 1 s = Inr (True, t)"
    using t(1) assms(3) by (simp add: jtag_tms_seq_def usb_blaster_driver_def)
  then have "xvc_region (usb_blaster_driver E) a n r s =
      Inr (t\<lparr>bits_send := bits_send t + of_nat (?e - ?b - 1)\<rparr>)"
    using assms(3-6) loop
    by (simp add: xvc_region_def region_length_def jtag_clock_tck_def usb_blaster_driver_def usb_blaster_jtag_clock_tck_def)
  moreover have "blaster_wire (t\<lparr>bits_send := x\<rparr>) = blaster_wire t" for x by (simp add: blaster_wire_def)
  ultimately show ?thesis using t(2) b0 by simp
qed

theorem xvc_blaster_loses_clocks_witness:
  "\<exists>(s :: unit blaster_state) t.
     xvc_region (usb_blaster_driver (zeros_ext 1)) xvc_start 1000
       \<lparr>is_tms = True, flip_tms = None, region_begin = 0, region_end = 1000\<rparr> s = Inr t \<and>
     blaster_wire t = blaster_wire s @ [Cycle False (Some False) False]"
proof -
  let ?s = "(blaster_start ())\<lparr>state := RunTestIdle\<rparr>"
  have "blaster_inv ?s" using blaster_start_inv(1) [of "()"] by (simp add: blaster_inv_def blaster_safe_def)
  moreover have "\<forall>j \<in> {0..<1000}. \<not> bit_at (xvc_tms xvc_start) j" by (simp add: xvc_start_def BUFFER_SIZE_def)
  ultimately have "\<exists>t. xvc_region (usb_blaster_driver (zeros_ext 1)) xvc_start 1000
       \<lparr>is_tms = True, flip_tms = None, region_begin = 0, region_end = 1000\<rparr> ?s = Inr t \<and>
     blaster_wire t = blaster_wire ?s @ [Cycle False (Some False) False]"
    by (intro xvc_blaster_loses_clocks) (simp_all add: xvc_start_def BUFFER_SIZE_def)
  then show ?thesis by (rule exI)
qed

end
