(* ===== verification/Vpi.thy ===== *)
theory Vpi
  imports Driver
begin

text \<open>
  src/vpi.cpp: the jtag_vpi server. The client sends commands of a fixed size of 1036 bytes, which
  are collected in a static array however the socket cuts them, decoded in place as a
  \<open>struct jtag_vpi_cmd\<close> (fields in the host's byte order, little endian) and executed. The
  lemmas show that the collection is exact and what the commands do on any driver that
  keeps its contract.
\<close>

section \<open>The tick\<close>

datatype JtagVpiCommand = CMD_RESET | CMD_TMS_SEQ | CMD_SCAN_CHAIN | CMD_SCAN_CHAIN_FLIP_TMS | CMD_STOP_SIMU

definition vpi_code :: "32 word \<Rightarrow> JtagVpiCommand option" where
  "vpi_code c =
     (if c = 0 then Some CMD_RESET else if c = 1 then Some CMD_TMS_SEQ else if c = 2 then Some CMD_SCAN_CHAIN
      else if c = 3 then Some CMD_SCAN_CHAIN_FLIP_TMS else if c = 4 then Some CMD_STOP_SIMU else None)"

text \<open>\<open>struct jtag_vpi_cmd\<close>: the offsets of its fields in the array, and its size.\<close>

definition VPI_OUT :: nat where "VPI_OUT = 4"
definition VPI_IN :: nat where "VPI_IN = 516"
definition VPI_LENGTH :: nat where "VPI_LENGTH = 1028"
definition VPI_BITS :: nat where "VPI_BITS = 1032"
definition VPI_SIZE :: nat where "VPI_SIZE = 1036"

definition vpi_cmd :: "byte list \<Rightarrow> 32 word" where
  "vpi_cmd raw = load_le32 (take 4 raw)"

definition vpi_buffer_out :: "byte list \<Rightarrow> byte list" where
  "vpi_buffer_out raw = take 512 (drop VPI_OUT raw)"

definition vpi_nb_bits :: "byte list \<Rightarrow> nat" where
  "vpi_nb_bits raw = unat (load_le32 (take 4 (drop VPI_BITS raw)))"

record vpi_state =
  vpi_buffer :: "byte list"
  vpi_recv :: nat

definition vpi_start :: vpi_state where
  "vpi_start = \<lparr>vpi_buffer = replicate VPI_SIZE 0, vpi_recv = 0\<rparr>"

definition jtag_vpi_init :: "'w ext \<Rightarrow> ('w, 'z) common_state_scheme \<Rightarrow> bool \<times> ('w, 'z) common_state_scheme" where
  "jtag_vpi_init E s = setup_tcp_server E 12345 s"

definition vpi_scan :: "'w ext \<Rightarrow> ('w, 'z) jtag \<Rightarrow> bool \<Rightarrow> vpi_state \<Rightarrow> ('w, 'z) common_state_scheme
    \<Rightarrow> (vpi_state \<times> ('w, 'z) common_state_scheme) result" where
  "vpi_scan E D flip v s =
     bindR (jtag_scan_chain D (vpi_buffer_out (vpi_buffer v)) (take 512 (drop VPI_IN (vpi_buffer v)))
              (vpi_nb_bits (vpi_buffer v)) flip True s) (\<lambda>(_, buffer_in, s).
     let v = v\<lparr>vpi_buffer := write_at (vpi_buffer v) VPI_IN buffer_in\<rparr> in
     Inr (v, snd (write_full E (vpi_buffer v) s)))"

definition vpi_command :: "'w ext \<Rightarrow> ('w, 'z) jtag \<Rightarrow> vpi_state \<Rightarrow> ('w, 'z) common_state_scheme
    \<Rightarrow> (vpi_state \<times> ('w, 'z) common_state_scheme) result" where
  "vpi_command E D v0 s =
     (if vpi_recv v0 \<noteq> VPI_SIZE then Inr (v0, s)
      else
        let v = v0\<lparr>vpi_recv := 0, vpi_buffer := write_at (vpi_buffer v0) VPI_IN (replicate 512 0)\<rparr> in
        case vpi_code (vpi_cmd (vpi_buffer v)) of
          Some CMD_RESET \<Rightarrow> bindR (jtag_goto_tlr D s) (\<lambda>(_, s). Inr (v, s))
        | Some CMD_TMS_SEQ \<Rightarrow>
            bindR (jtag_tms_seq D (vpi_buffer_out (vpi_buffer v)) (vpi_nb_bits (vpi_buffer v)) s) (\<lambda>(_, s). Inr (v, s))
        | Some CMD_SCAN_CHAIN \<Rightarrow> vpi_scan E D False v s
        | Some CMD_SCAN_CHAIN_FLIP_TMS \<Rightarrow> vpi_scan E D True v s
        | _ \<Rightarrow> Inr (v, s))"

definition jtag_vpi_tick :: "'w ext \<Rightarrow> ('w, 'z) jtag \<Rightarrow> vpi_state \<Rightarrow> ('w, 'z) common_state_scheme
    \<Rightarrow> (vpi_state \<times> ('w, 'z) common_state_scheme) result" where
  "jtag_vpi_tick E D v s =
     (if 0 \<le> client_fd s then
        (case call_read E (VPI_SIZE - vpi_recv v) s of
           (None, s) \<Rightarrow> vpi_command E D v s
         | (Some [], s) \<Rightarrow>
             bindR (adapter_deinit D ((snd (call_sock E (Sock_close (client_fd s)) s))\<lparr>client_fd := -1\<rparr>)) (\<lambda>(_, s).
             vpi_command E D v s)
         | (Some bs, s) \<Rightarrow>
             if vpi_recv v + length bs \<le> length (vpi_buffer v) then
               vpi_command E D (v\<lparr>vpi_buffer := write_at (vpi_buffer v) (vpi_recv v) bs,
                                  vpi_recv := vpi_recv v + length bs\<rparr>) s
             else Inl OutOfBounds)
      else Inr (v, snd (try_accept E s)))"

section \<open>Collecting a command\<close>

text \<open>\<open>vpi_holds v got\<close>: \<open>got\<close> is what has arrived of the current command.\<close>

definition vpi_holds :: "vpi_state \<Rightarrow> byte list \<Rightarrow> bool" where
  "vpi_holds v got \<longleftrightarrow> length (vpi_buffer v) = VPI_SIZE \<and> vpi_recv v = length got \<and> length got < VPI_SIZE \<and>
     take (length got) (vpi_buffer v) = got"

lemma vpi_start_holds: "vpi_holds vpi_start []"
  by (simp add: vpi_holds_def vpi_start_def VPI_SIZE_def)

lemma vpi_sizes: "VPI_IN + 512 \<le> VPI_SIZE" "VPI_OUT + 512 \<le> VPI_SIZE" "VPI_BITS + 4 \<le> VPI_SIZE" "0 < VPI_SIZE"
  by (simp_all add: VPI_IN_def VPI_OUT_def VPI_BITS_def VPI_SIZE_def)

text \<open>The state after a complete command \<open>raw\<close> has arrived and \<open>buffer_in\<close> has been cleared.\<close>

definition vpi_loaded :: "byte list \<Rightarrow> vpi_state" where
  "vpi_loaded raw = \<lparr>vpi_buffer = write_at raw VPI_IN (replicate 512 0), vpi_recv = 0\<rparr>"

definition vpi_full :: "byte list \<Rightarrow> vpi_state" where
  "vpi_full raw = \<lparr>vpi_buffer = raw, vpi_recv = VPI_SIZE\<rparr>"

lemma vpi_loaded_fields:
  assumes "length raw = VPI_SIZE"
  shows "length (vpi_buffer (vpi_loaded raw)) = VPI_SIZE"
    "vpi_cmd (vpi_buffer (vpi_loaded raw)) = vpi_cmd raw"
    "vpi_buffer_out (vpi_buffer (vpi_loaded raw)) = vpi_buffer_out raw"
    "vpi_nb_bits (vpi_buffer (vpi_loaded raw)) = vpi_nb_bits raw"
    "take 512 (drop VPI_IN (vpi_buffer (vpi_loaded raw))) = replicate 512 0"
    "vpi_holds (vpi_loaded raw) []"
  using assms by (simp_all add: vpi_loaded_def vpi_cmd_def vpi_buffer_out_def vpi_nb_bits_def vpi_holds_def write_at_def
      VPI_SIZE_def VPI_IN_def VPI_OUT_def VPI_BITS_def drop_take)

lemma vpi_collect:
  assumes "vpi_holds v got" "length got + length bs \<le> VPI_SIZE"
  shows "vpi_recv v + length bs \<le> length (vpi_buffer v)"
    and "length got + length bs < VPI_SIZE \<Longrightarrow>
      vpi_holds (v\<lparr>vpi_buffer := write_at (vpi_buffer v) (vpi_recv v) bs, vpi_recv := vpi_recv v + length bs\<rparr>) (got @ bs)"
    and "length got + length bs = VPI_SIZE \<Longrightarrow>
      v\<lparr>vpi_buffer := write_at (vpi_buffer v) (vpi_recv v) bs, vpi_recv := vpi_recv v + length bs\<rparr> = vpi_full (got @ bs)"
  using assms by (auto simp: vpi_holds_def vpi_full_def write_at_def)

lemma vpi_tick_collects:
  assumes "vpi_holds v got" "0 \<le> client_fd s" "call_read E (VPI_SIZE - length got) s = (Some bs, t)" "bs \<noteq> []"
  shows "(length (got @ bs) < VPI_SIZE \<and> (\<exists>v'. jtag_vpi_tick E D v s = Inr (v', t) \<and> vpi_holds v' (got @ bs))) \<or>
     (length (got @ bs) = VPI_SIZE \<and> jtag_vpi_tick E D v s = vpi_command E D (vpi_full (got @ bs)) t)"
proof -
  have recv: "vpi_recv v = length got" "length got < VPI_SIZE" using assms(1) by (simp_all add: vpi_holds_def)
  have len: "length got + length bs \<le> VPI_SIZE" using call_read_frame [OF assms(3)] recv(2) by auto
  note c = vpi_collect [OF assms(1) len]
  let ?v = "v\<lparr>vpi_buffer := write_at (vpi_buffer v) (vpi_recv v) bs, vpi_recv := vpi_recv v + length bs\<rparr>"
  obtain x xs where "bs = x # xs" using assms(4) by (cases bs) auto
  then have tick: "jtag_vpi_tick E D v s = vpi_command E D ?v t"
    using assms(2,3) c(1) recv(1) by (simp add: jtag_vpi_tick_def)
  show ?thesis
  proof (cases "length got + length bs = VPI_SIZE")
    case True
    with tick c(3) show ?thesis by simp
  next
    case False
    with len have "length got + length bs < VPI_SIZE" by simp
    moreover from this have "vpi_command E D ?v t = Inr (?v, t)" by (simp add: vpi_command_def recv(1))
    ultimately show ?thesis using tick c(2) by auto
  qed
qed

section \<open>The commands on a driver\<close>

context jtag_driver
begin

lemma vpi_scan_drives:
  assumes pre: "live" "sock_accepts E" "drv_inv s" "can_send s" "tracks wire s" "shifting (state s)" "sockets_keep E port"
    and raw: "length raw = VPI_SIZE" "0 < vpi_nb_bits raw" "vpi_nb_bits raw \<le> 4096"
  shows "\<exists>tdo t w. vpi_scan E D flip (vpi_loaded raw) s =
       Inr (\<lparr>vpi_buffer = write_at raw VPI_IN tdo, vpi_recv = 0\<rparr>, t\<lparr>net_out := net_out s @ write_at raw VPI_IN tdo, world := w\<rparr>) \<and>
     length tdo = 512 \<and>
     drives drv_inv can_send wire s (scan_cycles (vpi_buffer_out raw) (vpi_nb_bits raw) flip True) t \<and>
     (\<forall>f. target = Some f \<longrightarrow> bits_of tdo (vpi_nb_bits raw) = tdo_bits f (history (wire s))
        (tap_view (state s) (scan_cycles (vpi_buffer_out raw) (vpi_nb_bits raw) flip True))) \<and> port w = port (world t)"
proof -
  note f = vpi_loaded_fields [OF raw(1)]
  have n: "vpi_nb_bits raw \<le> 8 * length (vpi_buffer_out raw)" "vpi_nb_bits raw \<le> SCAN_LIMIT"
      "vpi_nb_bits raw \<le> 8 * length (replicate 512 (0 :: byte))"
    using raw by (simp_all add: vpi_buffer_out_def VPI_SIZE_def VPI_OUT_def SCAN_LIMIT_def)
  from scan_chain_drives [OF pre(1,3-6) raw(2) n, of flip True] obtain tdo t where
    t: "jtag_scan_chain D (vpi_buffer_out raw) (replicate 512 0) (vpi_nb_bits raw) flip True s = Inr (True, tdo, t)"
      "length tdo = 512" "drives drv_inv can_send wire s (scan_cycles (vpi_buffer_out raw) (vpi_nb_bits raw) flip True) t"
      "\<forall>f. target = Some f \<longrightarrow> bits_of tdo (vpi_nb_bits raw) = tdo_bits f (history (wire s))
        (tap_view (state s) (scan_cycles (vpi_buffer_out raw) (vpi_nb_bits raw) flip True))"
    using raw(2,3) by auto
  have buf: "write_at (vpi_buffer (vpi_loaded raw)) VPI_IN tdo = write_at raw VPI_IN tdo"
    using raw(1) t(2) by (simp add: vpi_loaded_def write_at_def VPI_SIZE_def VPI_IN_def)
  have rec: "(vpi_loaded raw)\<lparr>vpi_buffer := x\<rparr> = \<lparr>vpi_buffer = x, vpi_recv = 0\<rparr>" for x
    by (simp add: vpi_loaded_def)
  have net: "net_out t = net_out s" using t(3) by (simp add: drives_def same_host_def)
  obtain w where "write_full E (write_at raw VPI_IN tdo) t =
      (True, t\<lparr>net_out := net_out t @ write_at raw VPI_IN tdo, world := w\<rparr>)" "port w = port (world t)"
    using write_full_accepted_keeps [OF pre(2,7)] by blast
  then have "vpi_scan E D flip (vpi_loaded raw) s =
       Inr (\<lparr>vpi_buffer = write_at raw VPI_IN tdo, vpi_recv = 0\<rparr>, t\<lparr>net_out := net_out s @ write_at raw VPI_IN tdo, world := w\<rparr>)"
    by (simp add: vpi_scan_def f t(1) buf rec Let_def net)
  with t(2-4) \<open>port w = port (world t)\<close> show ?thesis by blast
qed

end

lemma vpi_command_full:
  assumes "length raw = VPI_SIZE"
  shows "vpi_command E D (vpi_full raw) s =
     (case vpi_code (vpi_cmd raw) of
          Some CMD_RESET \<Rightarrow> bindR (jtag_goto_tlr D s) (\<lambda>(_, s). Inr (vpi_loaded raw, s))
        | Some CMD_TMS_SEQ \<Rightarrow>
            bindR (jtag_tms_seq D (vpi_buffer_out raw) (vpi_nb_bits raw) s) (\<lambda>(_, s). Inr (vpi_loaded raw, s))
        | Some CMD_SCAN_CHAIN \<Rightarrow> vpi_scan E D False (vpi_loaded raw) s
        | Some CMD_SCAN_CHAIN_FLIP_TMS \<Rightarrow> vpi_scan E D True (vpi_loaded raw) s
        | _ \<Rightarrow> Inr (vpi_loaded raw, s))"
proof -
  have v: "(vpi_full raw)\<lparr>vpi_recv := 0, vpi_buffer := write_at (vpi_buffer (vpi_full raw)) VPI_IN (replicate 512 0)\<rparr> =
      vpi_loaded raw" by (simp add: vpi_full_def vpi_loaded_def)
  show ?thesis
    unfolding vpi_command_def Let_def v vpi_loaded_fields [OF assms] by (simp add: vpi_full_def)
qed

end
