(* ===== verification/Vpi_Drivers.thy ===== *)
theory Vpi_Drivers
  imports Vpi Servers
begin

text \<open>
  The jtag_vpi server (src/vpi.cpp) on the drivers: how commands are put together from what the
  socket delivers, what a scan does, and what happens when the client goes away.
\<close>

section \<open>Samples\<close>

text \<open>A scan of nine bits that raises TMS with the last one.\<close>

definition sample_vpi :: "byte list" where
  "sample_vpi = le32_bytes 3 @ ([0xA5, 0x01] @ replicate 510 0) @ replicate 512 0xEE @ le32_bytes 2 @ le32_bytes 9"

lemma sample_vpi_fields:
  "length sample_vpi = VPI_SIZE" "vpi_code (vpi_cmd sample_vpi) = Some CMD_SCAN_CHAIN_FLIP_TMS"
  "vpi_nb_bits sample_vpi = 9" "vpi_buffer_out sample_vpi = [0xA5, 0x01] @ replicate 510 0"
proof -
  show "length sample_vpi = VPI_SIZE" by (simp add: sample_vpi_def VPI_SIZE_def)
  have "take 4 sample_vpi = le32_bytes 3" by (simp add: sample_vpi_def)
  then show "vpi_code (vpi_cmd sample_vpi) = Some CMD_SCAN_CHAIN_FLIP_TMS" by (simp add: vpi_cmd_def vpi_code_def)
  have "drop 1032 sample_vpi = le32_bytes 9" by (simp add: sample_vpi_def)
  then show "vpi_nb_bits sample_vpi = 9" by (simp add: vpi_nb_bits_def VPI_BITS_def)
  show "vpi_buffer_out sample_vpi = [0xA5, 0x01] @ replicate 510 0"
    by (simp add: vpi_buffer_out_def VPI_OUT_def sample_vpi_def)
qed

section \<open>Properties\<close>

text \<open>
  Commands are framed exactly, however the socket cuts them. With \<open>got\<close> of the current command
  in the array, a tick that receives \<open>bs\<close> either just keeps \<open>got @ bs\<close>, when that is shorter than a
  command, or executes the command whose 1036 bytes are \<open>got @ bs\<close>; it never reads past the end
  of a command or past the array.
\<close>

lemma vpi_framing_exact:
  assumes "vpi_holds v got" "0 \<le> client_fd s" "call_read E (VPI_SIZE - length got) s = (Some bs, t)" "bs \<noteq> []"
  shows "(length (got @ bs) < VPI_SIZE \<and> (\<exists>v'. jtag_vpi_tick E D v s = Inr (v', t) \<and> vpi_holds v' (got @ bs))) \<or>
     (length (got @ bs) = VPI_SIZE \<and> jtag_vpi_tick E D v s = vpi_command E D (vpi_full (got @ bs)) t)"
  by (rule vpi_tick_collects [OF assms])

text \<open>The read that completes a scan command executes it.\<close>

lemma vpi_tick_scan:
  assumes "vpi_holds v got" "0 \<le> client_fd s" "call_read E (VPI_SIZE - length got) s = (Some bs, r)"
    and "length (got @ bs) = VPI_SIZE"
    and "vpi_code (vpi_cmd (got @ bs)) = Some (if flip then CMD_SCAN_CHAIN_FLIP_TMS else CMD_SCAN_CHAIN)"
  shows "jtag_vpi_tick E D v s = vpi_scan E D flip (vpi_loaded (got @ bs)) r"
proof -
  have "length got < VPI_SIZE" using assms(1) by (simp add: vpi_holds_def)
  then have "bs \<noteq> []" using assms(4) by auto
  with vpi_tick_collects [OF assms(1-3), of D] assms(4) have
    "jtag_vpi_tick E D v s = vpi_command E D (vpi_full (got @ bs)) r" by auto
  also have "\<dots> = vpi_scan E D flip (vpi_loaded (got @ bs)) r"
    using assms(5) by (cases flip) (simp_all add: vpi_command_full [OF assms(4)])
  finally show ?thesis .
qed

text \<open>
  A scan command of the jtag_vpi server on the MPSSE driver, issued while the TAP shifts. The wire
  grows by exactly the scan of the command's \<open>buffer_out\<close> (TMS raised with the last bit for
  \<open>CMD_SCAN_CHAIN_FLIP_TMS\<close> only), and the client gets back exactly its own 1036 bytes with 512
  bytes of result in place of \<open>buffer_in\<close>; the server is then ready for the next command.
\<close>

lemma vpi_scan_mpsse:
  assumes "mpsse_live E" "sock_accepts E" "mpsse_inv s" "tracks mpsse_wire s" "shifting (state s)" "0 \<le> client_fd s"
    and "vpi_holds v got" "call_read E (VPI_SIZE - length got) s = (Some bs, r)" "length (got @ bs) = VPI_SIZE"
    and "vpi_code (vpi_cmd (got @ bs)) = Some (if flip then CMD_SCAN_CHAIN_FLIP_TMS else CMD_SCAN_CHAIN)"
    and "0 < vpi_nb_bits (got @ bs)" "vpi_nb_bits (got @ bs) \<le> 4096"
  shows "\<exists>v' t tdo. jtag_vpi_tick E (mpsse_driver E) v s = Inr (v', t) \<and> vpi_holds v' [] \<and> mpsse_inv t \<and>
     tracks mpsse_wire t \<and> client_fd t = client_fd s \<and>
     mpsse_wire t = mpsse_wire s @ scan_cycles (vpi_buffer_out (got @ bs)) (vpi_nb_bits (got @ bs)) flip True \<and>
     length tdo = 512 \<and> net_out t = net_out s @ write_at (got @ bs) VPI_IN tdo"
proof -
  let ?raw = "got @ bs"
  from call_read_frame [OF assms(8)] obtain w where r: "r = s\<lparr>world := w\<rparr>" by blast
  note vw = wire_driver.view [OF mpsse_wires, of r s]
  have pre: "mpsse_inv r" "mpsse_wire r = mpsse_wire s" "tracks mpsse_wire r" "shifting (state r)"
      "net_out r = net_out s" "client_fd r = client_fd s"
    using vw r assms(3,4,5) by (simp_all add: tracks_def)
  from jtag_driver.vpi_scan_drives [OF mpsse_is_driver assms(1,2) pre(1) TrueI pre(3,4) sockets_keep_unit assms(9,11,12), of flip]
  obtain tdo t u where
    t: "vpi_scan E (mpsse_driver E) flip (vpi_loaded ?raw) r = Inr (\<lparr>vpi_buffer = write_at ?raw VPI_IN tdo, vpi_recv = 0\<rparr>,
       t\<lparr>net_out := net_out r @ write_at ?raw VPI_IN tdo, world := u\<rparr>)" "length tdo = 512"
      "drives mpsse_inv (\<lambda>_. True) mpsse_wire r (scan_cycles (vpi_buffer_out ?raw) (vpi_nb_bits ?raw) flip True) t"
    by blast
  let ?t = "t\<lparr>net_out := net_out r @ write_at ?raw VPI_IN tdo, world := u\<rparr>"
  note tick = vpi_tick_scan [OF assms(7,6,8-10), of "mpsse_driver E"]
  have "vpi_holds \<lparr>vpi_buffer = write_at ?raw VPI_IN tdo, vpi_recv = 0\<rparr> []"
    using assms(9) t(2) by (simp add: vpi_holds_def VPI_SIZE_def VPI_IN_def)
  moreover have "mpsse_inv ?t = mpsse_inv t" "mpsse_wire ?t = mpsse_wire t"
    using wire_driver.view [OF mpsse_wires, of ?t t] by simp_all
  ultimately show ?thesis using t pre(2,5,6) unfolding tick
    by (intro exI [of _ "\<lparr>vpi_buffer = write_at ?raw VPI_IN tdo, vpi_recv = 0\<rparr>"] exI [of _ ?t] exI [of _ tdo])
      (simp add: drives_def tracks_def same_host_def)
qed

text \<open>
  C37: what a detaching client leaves behind on the MPSSE driver. The descriptor is closed and
  forgotten and the adapter is switched out of MPSSE mode; but neither does accepting the next
  client switch it back, nor is the part of a command that had arrived dropped, so that the next
  client's first bytes complete it.
\<close>

theorem vpi_detach_mpsse:
  assumes "vpi_holds v got" "0 \<le> client_fd s" "call_read E (VPI_SIZE - length got) s = (Some [], r)"
  shows "\<exists>t. jtag_vpi_tick E (mpsse_driver E) v s = Inr (v, t) \<and> client_fd t = -1 \<and>
     usb_ctl t = usb_ctl s @ [Ftdi_set_bitmode 0 0] \<and>
     (\<exists>u. jtag_vpi_tick E (mpsse_driver E) v t = Inr (v, u) \<and> usb_ctl u = usb_ctl t)"
proof -
  have v: "vpi_recv v = length got" "vpi_recv v \<noteq> VPI_SIZE" using assms(1) by (simp_all add: vpi_holds_def)
  from call_read_frame [OF assms(3)] obtain w where r: "r = s\<lparr>world := w\<rparr>" by blast
  obtain x c where close: "call_sock E (Sock_close (client_fd r)) r = (x, c)" by fastforce
  from call_sock_frame [OF this] r obtain w2 where c: "c = s\<lparr>world := w2\<rparr>" by auto
  define t where "t = snd (call_ftdi_control E (Ftdi_set_bitmode 0 0) (c\<lparr>client_fd := -1\<rparr>))"
  have tick: "jtag_vpi_tick E (mpsse_driver E) v s = Inr (v, t)"
    using assms(2,3) v close
    by (simp add: jtag_vpi_tick_def vpi_command_def adapter_deinit_def mpsse_driver_def mpsse_deinit_def t_def)
  have t: "client_fd t = -1" "usb_ctl t = usb_ctl s @ [Ftdi_set_bitmode 0 0]"
    by (simp_all add: t_def c call_ftdi_control_def split: prod.split)
  have "usb_ctl (snd (try_accept E t)) = usb_ctl t"
    by (auto simp: try_accept_def Let_def call_sock_def split: prod.splits)
  with tick t show ?thesis by (intro exI [of _ t]) (simp add: jtag_vpi_tick_def)
qed

theorem vpi_detach_mpsse_witness:
  "\<exists>v got t. vpi_holds v got \<and> got = [7, 8] \<and>
     jtag_vpi_tick (client_ext []) (mpsse_driver (client_ext [])) v ((mpsse_start ())\<lparr>client_fd := 4\<rparr>) = Inr (v, t) \<and>
     usb_ctl t = [Ftdi_set_bitmode 0 0]"
proof -
  let ?s = "(mpsse_start ())\<lparr>client_fd := 4\<rparr>" and ?v = "\<lparr>vpi_buffer = [7, 8] @ replicate 1034 0, vpi_recv = 2\<rparr>"
  have v: "vpi_holds ?v [7, 8]" by (simp add: vpi_holds_def VPI_SIZE_def)
  have "call_read (client_ext []) (VPI_SIZE - length [7, 8 :: byte]) ?s = (Some [], ?s\<lparr>world := ()\<rparr>)"
    by (simp add: client_ext_read)
  from vpi_detach_mpsse [OF v _ this] obtain t where
    "jtag_vpi_tick (client_ext []) (mpsse_driver (client_ext [])) ?v ?s = Inr (?v, t)"
    "usb_ctl t = usb_ctl ?s @ [Ftdi_set_bitmode 0 0]" by auto
  moreover have "usb_ctl ?s = []" by (simp add: mpsse_start_def process_start_def common_state.defs)
  ultimately show ?thesis using v by (intro exI [of _ ?v] exI [of _ "[7, 8]"] exI [of _ t]) simp
qed

text \<open>
  C38: the number of bits of a command is not checked against its 512-byte vectors: a TMS sequence of
  more than 4096 bits reads past the vector, on any driver.
\<close>

theorem vpi_tms_out_of_bounds:
  assumes "length raw = VPI_SIZE" "vpi_code (vpi_cmd raw) = Some CMD_TMS_SEQ" "4096 < vpi_nb_bits raw"
  shows "vpi_command E D (vpi_full raw) s = Inl OutOfBounds"
proof -
  have "length (vpi_buffer_out raw) = 512" using assms(1) by (simp add: vpi_buffer_out_def VPI_SIZE_def VPI_OUT_def)
  then have "walk_tms (vpi_buffer_out raw) 0 (vpi_nb_bits raw) st = Inl OutOfBounds" for st
    using assms(3) by (intro walk_tms_out_of_bounds) simp_all
  then show ?thesis using assms(2) by (simp add: vpi_command_full [OF assms(1)] jtag_tms_seq_def Let_def)
qed

theorem vpi_tms_out_of_bounds_witness:
  "\<exists>raw. vpi_nb_bits raw = 4097 \<and>
     vpi_command (zeros_ext 1) (mpsse_driver (zeros_ext 1)) (vpi_full raw) (mpsse_start ()) = Inl OutOfBounds"
proof -
  let ?raw = "le32_bytes 1 @ replicate 1028 0 @ le32_bytes 4097"
  have "take 4 ?raw = le32_bytes 1" "drop 1032 ?raw = le32_bytes 4097" by simp_all
  then have "length ?raw = VPI_SIZE" "vpi_code (vpi_cmd ?raw) = Some CMD_TMS_SEQ" "vpi_nb_bits ?raw = 4097"
    by (simp_all add: VPI_SIZE_def vpi_cmd_def vpi_code_def vpi_nb_bits_def VPI_BITS_def)
  with vpi_tms_out_of_bounds [OF this(1,2), of "zeros_ext 1" "mpsse_driver (zeros_ext 1)" "mpsse_start ()"] show ?thesis
    by (intro exI [of _ ?raw]) simp
qed

end
