(* ===== verification/Jtagd.thy ===== *)
theory Jtagd
  imports Driver
begin

text \<open>
  src/jtagd.cpp: the server for Intel's jtagd protocol. Packets with a two-byte header carry
  messages (multiplex channel 0) or data for a fifo (channels from 4 on); messages are queued
  and handled in order, and the answers are put together in \<open>send_buffer\<close>, whose fill level
  is an 8 bit number. Additions to it wrap around as in the source.
\<close>

section \<open>The state\<close>

record Message =
  command :: byte
  body :: "byte list"

text \<open>A fifo that was never used is empty, as \<open>std::map::operator[]\<close> makes it.\<close>

record jtagd_state =
  send_buffer :: "byte list"
  send_buffer_size :: byte
  last_response :: int
  devices :: "32 word list"
  messages :: "Message list"
  fifos :: "nat \<Rightarrow> 32 word list"

definition FIFO_MIN :: nat where
  "FIFO_MIN = 4"

definition jtagd_start :: jtagd_state where
  "jtagd_start = \<lparr>send_buffer = replicate BUFFER_SIZE 0, send_buffer_size = 0, last_response = -1,
     devices = [], messages = [], fifos = (\<lambda>_. [])\<rparr>"

definition jtag_jtagd_init :: "'w ext \<Rightarrow> ('w, 'z) common_state_scheme \<Rightarrow> bool \<times> ('w, 'z) common_state_scheme" where
  "jtag_jtagd_init E s = setup_tcp_server E 1309 s"

section \<open>Putting an answer together\<close>

text \<open>\<open>memcpy(&send_buffer[send_buffer_size], data, length); send_buffer_size += length\<close>\<close>

definition put_bytes :: "byte list \<Rightarrow> jtagd_state \<Rightarrow> jtagd_state result" where
  "put_bytes data j =
     (if unat (send_buffer_size j) + length data \<le> length (send_buffer j) then
        Inr (j\<lparr>send_buffer := write_at (send_buffer j) (unat (send_buffer_size j)) data,
               send_buffer_size := send_buffer_size j + of_nat (length data)\<rparr>)
      else Inl OutOfBounds)"

definition add_string :: "byte list \<Rightarrow> jtagd_state \<Rightarrow> jtagd_state result" where
  "add_string data j =
     (if 0xff < length data then Inl AssertionFailed
      else if BUFFER_SIZE < unat (send_buffer_size j) + 1 + length data then Inl AssertionFailed
      else bindR (put_bytes [of_nat (length data)] j) (put_bytes data))"

definition add_int :: "32 word \<Rightarrow> jtagd_state \<Rightarrow> jtagd_state result" where
  "add_int value j =
     (if BUFFER_SIZE < unat (send_buffer_size j) + 4 then Inl AssertionFailed
      else put_bytes (be32_bytes value) j)"

definition add_array :: "byte list \<Rightarrow> nat \<Rightarrow> jtagd_state \<Rightarrow> jtagd_state result" where
  "add_array data len j =
     (if BUFFER_SIZE < unat (send_buffer_size j) + len then Inl AssertionFailed
      else if length data < len then Inl OutOfBounds
      else put_bytes (take len data) j)"

definition add_response :: "byte \<Rightarrow> jtagd_state \<Rightarrow> jtagd_state result" where
  "add_response resp j =
     (if last_response j \<noteq> -1 then Inl AssertionFailed
      else if BUFFER_SIZE < unat (send_buffer_size j) + 4 then Inl AssertionFailed
      else
        bindR (put_bytes [resp] (j\<lparr>last_response := uint (send_buffer_size j)\<rparr>)) (\<lambda>j.
        bindR (put_bytes [0] j) (\<lambda>j.
        bindR (put_bytes [0] j) (put_bytes [0]))))"

definition end_response :: "jtagd_state \<Rightarrow> jtagd_state result" where
  "end_response j =
     (if last_response j = -1 then Inl AssertionFailed
      else
        let len = (of_int (uint (send_buffer_size j) - last_response j) :: 16 word); at = nat (last_response j) in
        if at + 3 < length (send_buffer j) then
          Inr (j\<lparr>send_buffer := (send_buffer j)[at + 2 := ucast (drop_bit 8 len), at + 3 := ucast len],
                 last_response := -1\<rparr>)
        else Inl OutOfBounds)"

definition compute_header :: "16 word \<Rightarrow> 16 word \<Rightarrow> 16 word" where
  "compute_header len mux = push_bit 12 mux OR (len - 1)"

definition fill_header :: "16 word \<Rightarrow> jtagd_state \<Rightarrow> jtagd_state" where
  "fill_header mux j =
     (let header = compute_header (ucast (send_buffer_size j) - 2) mux in
      j\<lparr>send_buffer := (send_buffer j)[0 := ucast (drop_bit 8 header), 1 := ucast header]\<rparr>)"

definition do_send :: "'w ext \<Rightarrow> 16 word \<Rightarrow> jtagd_state \<Rightarrow> ('w, 'z) common_state_scheme
    \<Rightarrow> jtagd_state \<times> ('w, 'z) common_state_scheme" where
  "do_send E mux j s =
     (let j = fill_header mux j in
      (j\<lparr>send_buffer_size := 2\<rparr>, snd (write_full E (take (unat (send_buffer_size j)) (send_buffer j)) s)))"

text \<open>A run of additions, as the handlers make them.\<close>

primrec emit :: "(jtagd_state \<Rightarrow> jtagd_state result) list \<Rightarrow> jtagd_state \<Rightarrow> jtagd_state result" where
  "emit [] j = Inr j"
| "emit (f # fs) j = bindR (f j) (emit fs)"

section \<open>Receiving packets\<close>

text \<open>
  The fifo holds 32 bit elements; \<open>pop_fifo\<close> compares its length in elements with a length in
  bytes, copies that many bytes of its memory and erases as many elements.
\<close>

definition pop_fifo :: "byte list \<Rightarrow> nat \<Rightarrow> jtagd_state \<Rightarrow> (bool \<times> byte list \<times> jtagd_state) result" where
  "pop_fifo buf len j =
     (if len \<le> length (fifos j FIFO_MIN) then
        if len \<le> length buf then
          Inr (True, write_at buf 0 (take len (concat (map le32_bytes (fifos j FIFO_MIN)))),
               j\<lparr>fifos := (fifos j)(FIFO_MIN := drop len (fifos j FIFO_MIN))\<rparr>)
        else Inl OutOfBounds
      else Inr (False, buf, j))"

lemma bindR_cong [fundef_cong]:
  "m = m' \<Longrightarrow> (\<And>x. m' = Inr x \<Longrightarrow> f x = f' x) \<Longrightarrow> bindR m f = bindR m' f'"
  by (cases m') simp_all

text \<open>The messages of a packet: from \<open>p\<close> to \<open>stop\<close>, both indices into the receive buffer.\<close>

definition be16 :: "byte \<Rightarrow> byte \<Rightarrow> nat" where
  "be16 hi lo = unat (push_bit 8 (ucast hi) OR ucast lo :: 16 word)"

function jtagd_split :: "('w, 'z) common_state_scheme \<Rightarrow> nat \<Rightarrow> nat \<Rightarrow> Message list \<Rightarrow> Message list result" where
  "jtagd_split s p stop msgs =
     (if p < stop then
        bindR (buffer_bytes s p 4) (\<lambda>h.
          let header_len = be16 (h ! 2) (h ! 3) in
          if header_len < 4 then Inr msgs
          else bindR (buffer_bytes s p header_len) (\<lambda>raw.
            jtagd_split s (p + header_len) stop (msgs @ [\<lparr>command = hd raw, body = drop 4 raw\<rparr>])))
      else Inr msgs)"
  by pat_completeness auto
termination
  by (relation "measure (\<lambda>(s, p, stop, msgs). stop - p)") auto

declare jtagd_split.simps [simp del]

text \<open>
  \<open>fifos[mux].insert(fifos[mux].end(), buffer_begin, buffer_begin + length)\<close>: the two numbers are
  not iterators, so that this is the insertion of \<open>buffer_begin\<close> copies of a value.
\<close>

definition jtagd_packet :: "('w, 'z) common_state_scheme \<Rightarrow> nat \<Rightarrow> nat \<Rightarrow> jtagd_state \<Rightarrow> jtagd_state result" where
  "jtagd_packet s mux len j =
     (if mux = 0 then
        bindR (jtagd_split s (buffer_begin s) (buffer_begin s + len) []) (\<lambda>new.
        Inr (j\<lparr>messages := messages j @ new\<rparr>))
      else if 4 \<le> mux then
        Inr (j\<lparr>fifos := (fifos j)(mux := fifos j mux @ replicate (buffer_begin s) (of_nat (buffer_begin s + len)))\<rparr>)
      else Inr j)"

function jtagd_packets :: "('w, 'z) common_state_scheme \<Rightarrow> jtagd_state
    \<Rightarrow> (jtagd_state \<times> ('w, 'z) common_state_scheme) result" where
  "jtagd_packets s j =
     (if buffer_begin s + 2 \<le> buffer_end s then
        bindR (buffer_bytes s (buffer_begin s) 2) (\<lambda>h.
          let header = (push_bit 8 (ucast (h ! 0)) + ucast (h ! 1) :: 16 word); mux = unat (drop_bit 12 header);
              len = unat (header AND 0xFFF) + 1 in
          if buffer_begin s + 2 + len \<le> buffer_end s then
            bindR (jtagd_packet (s\<lparr>buffer_begin := buffer_begin s + 2\<rparr>) mux len j) (\<lambda>j.
            jtagd_packets (s\<lparr>buffer_begin := buffer_begin s + 2 + len\<rparr>) j)
          else Inr (j, s))
      else Inr (j, s))"
  by pat_completeness auto
termination
  by (relation "measure (\<lambda>(s, j). buffer_end s - buffer_begin s)") auto

declare jtagd_packets.simps [simp del]

section \<open>Handling messages\<close>

text \<open>A handler returns whether the message is done with; \<open>False\<close> is \<open>break\<close>: try again later.\<close>

type_synonym ('w, 'z) handled = "(bool \<times> jtagd_state \<times> ('w, 'z) common_state_scheme) result"

definition answer :: "(jtagd_state \<Rightarrow> jtagd_state result) list \<Rightarrow> jtagd_state \<Rightarrow> ('w, 'z) common_state_scheme
    \<Rightarrow> ('w, 'z) handled" where
  "answer fs j s = bindR (emit fs j) (\<lambda>j. Inr (True, j, s))"

definition answer_send :: "'w ext \<Rightarrow> (jtagd_state \<Rightarrow> jtagd_state result) list \<Rightarrow> jtagd_state
    \<Rightarrow> ('w, 'z) common_state_scheme \<Rightarrow> ('w, 'z) handled" where
  "answer_send E fs j s = bindR (emit fs j) (\<lambda>j. case do_send E 0 j s of (j, s) \<Rightarrow> Inr (True, j, s))"

definition jtagd_ack :: "(jtagd_state \<Rightarrow> jtagd_state result) list" where
  "jtagd_ack = [add_response 0, end_response]"

definition jtagd_get_hardware :: "'w ext \<Rightarrow> jtagd_state \<Rightarrow> ('w, 'z) common_state_scheme \<Rightarrow> ('w, 'z) handled" where
  "jtagd_get_hardware E j s =
     (let hw_name = ascii ''hw0''; port = ascii ''port0''; device_name = ascii ''device0'';
          fifo_len = 4 + 1 + length hw_name + 1 + length port + 4 + 1 + length device_name + 4 in
      bindR (emit [add_response 0, add_int 1, add_int (of_nat fifo_len), end_response] j) (\<lambda>j.
      case do_send E 0 j s of (j, s) \<Rightarrow>
      bindR (emit [add_int 1, add_string hw_name, add_string port, add_int 1, add_string device_name,
                   add_int 0x0800] j) (\<lambda>j.
      case do_send E (of_nat FIFO_MIN) j s of (j, s) \<Rightarrow> Inr (True, j, s))))"

definition jtagd_get_version_info :: "jtagd_state \<Rightarrow> ('w, 'z) common_state_scheme \<Rightarrow> ('w, 'z) handled" where
  "jtagd_get_version_info =
     answer [add_response 0, add_string (ascii ''1.0''), add_int 0, add_string (ascii ''jtagd''), end_response]"

definition jtagd_get_defined_devices :: "jtagd_state \<Rightarrow> ('w, 'z) common_state_scheme \<Rightarrow> ('w, 'z) handled" where
  "jtagd_get_defined_devices = answer [add_response 0, add_int 1, add_int 0, add_int 0, end_response]"

definition jtagd_device :: "32 word \<Rightarrow> (jtagd_state \<Rightarrow> jtagd_state result) list" where
  "jtagd_device idcode = [add_int idcode, add_int 10, add_int 0, add_int 0, add_int 0, add_string (ascii ''device0'')]"

definition jtagd_read_chain :: "'w ext \<Rightarrow> ('w, 'z) jtag \<Rightarrow> jtagd_state \<Rightarrow> ('w, 'z) common_state_scheme
    \<Rightarrow> ('w, 'z) handled" where
  "jtagd_read_chain E D j s =
     bindR (jtag_probe_devices E D s) (\<lambda>(ids, s).
     let j = j\<lparr>devices := ids\<rparr>; device_count = length ids;
         fifo_len = device_count * (4 + 4 + 4 + 4 + 4 + 1 + length (ascii ''device0'')) in
     bindR (emit [add_response 0, add_int 1, add_int (of_nat device_count), add_int (of_nat fifo_len),
                  end_response] j) (\<lambda>j.
     case do_send E 0 j s of (j, s) \<Rightarrow>
     bindR (emit (concat (map jtagd_device (devices j))) j) (\<lambda>j.
     case do_send E (of_nat FIFO_MIN) j s of (j, s) \<Rightarrow> Inr (True, j, s))))"

definition jtagd_open_device :: "jtagd_state \<Rightarrow> ('w, 'z) common_state_scheme \<Rightarrow> ('w, 'z) handled" where
  "jtagd_open_device j s =
     bindR (add_response 0 j) (\<lambda>j.
     if devices j = [] then Inl OutOfBounds
     else answer [add_int (devices j ! 0), end_response] j s)"

text \<open>\<open>msg.body[i]\<close>, and \<open>memcpy(&x, &msg.body[i], 4)\<close> followed by \<open>ntohl\<close>\<close>

definition body_word :: "Message \<Rightarrow> nat \<Rightarrow> 32 word result" where
  "body_word msg i = (if i + 4 \<le> length (body msg) then Inr (load_be32 (take 4 (drop i (body msg)))) else Inl OutOfBounds)"

definition jtagd_access_ir :: "'w ext \<Rightarrow> ('w, 'z) jtag \<Rightarrow> Message \<Rightarrow> jtagd_state \<Rightarrow> ('w, 'z) common_state_scheme
    \<Rightarrow> ('w, 'z) handled" where
  "jtagd_access_ir E D msg j s =
     bindR (body_word msg 12) (\<lambda>instruction.
     bindR (jtag_tms_seq_to D ShiftIR s) (\<lambda>(_, s).
     bindR (jtag_scan_chain D (le32_bytes instruction) (replicate 4 0) 10 True True s) (\<lambda>(_, read_back, s).
     answer_send E [add_response 0, add_int (load_le32 read_back), end_response] j s)))"

definition jtagd_access_dr :: "'w ext \<Rightarrow> ('w, 'z) jtag \<Rightarrow> Message \<Rightarrow> jtagd_state \<Rightarrow> ('w, 'z) common_state_scheme
    \<Rightarrow> ('w, 'z) handled" where
  "jtagd_access_dr E D msg j s =
     bindR (body_word msg 12) (\<lambda>length_dr.
     bindR (body_word msg 20) (\<lambda>write_length.
     bindR (body_word msg 28) (\<lambda>read_length.
     bindR (pop_fifo (replicate BUFFER_SIZE 0) (unat (write_length div 8)) j) (\<lambda>(ok, send, j).
     if \<not> ok then Inr (False, j, s)
     else
       bindR (jtag_tms_seq_to D ShiftDR s) (\<lambda>(_, s).
       bindR (jtag_scan_chain D send (replicate BUFFER_SIZE 0) (unat length_dr) True True s) (\<lambda>(_, recv, s).
       bindR (emit [add_response 0, end_response] j) (\<lambda>j.
       case do_send E 0 j s of (j, s) \<Rightarrow>
       if 0 < read_length then
         bindR (add_array recv (unat ((read_length + 7) div 8)) j) (\<lambda>j.
         case do_send E (of_nat FIFO_MIN) j s of (j, s) \<Rightarrow> Inr (True, j, s))
       else Inr (True, j, s))))))))"

definition jtagd_run_test_idle :: "'w ext \<Rightarrow> ('w, 'z) jtag \<Rightarrow> jtagd_state \<Rightarrow> ('w, 'z) common_state_scheme
    \<Rightarrow> ('w, 'z) handled" where
  "jtagd_run_test_idle E D j s =
     bindR (jtag_tms_seq_to D RunTestIdle s) (\<lambda>(_, s). answer_send E jtagd_ack j s)"

definition jtagd_dispatch :: "'w ext \<Rightarrow> ('w, 'z) jtag \<Rightarrow> Message \<Rightarrow> jtagd_state \<Rightarrow> ('w, 'z) common_state_scheme
    \<Rightarrow> ('w, 'z) handled" where
  "jtagd_dispatch E D msg j s =
     (if command msg = 0x80 then jtagd_get_hardware E j s
      else if command msg = 0x83 then jtagd_get_version_info j s
      else if command msg = 0x84 then jtagd_get_defined_devices j s
      else if command msg = 0xA2 then answer jtagd_ack j s
      else if command msg = 0xA3 then answer jtagd_ack j s
      else if command msg = 0xA5 then jtagd_read_chain E D j s
      else if command msg = 0xA8 then jtagd_open_device j s
      else if command msg = 0xAA then answer jtagd_ack j s
      else if command msg = 0xAB then answer [add_response 0, add_int 0, end_response] j s
      else if command msg = 0xC0 then answer jtagd_ack j s
      else if command msg = 0xC1 then answer_send E jtagd_ack j s
      else if command msg = 0xC2 then answer jtagd_ack j s
      else if command msg = 0xC6 then jtagd_access_ir E D msg j s
      else if command msg = 0xC8 then jtagd_access_dr E D msg j s
      else if command msg = 0xCA then jtagd_run_test_idle E D j s
      else if command msg = 0xFE then answer [add_response 0, add_int 1, end_response] j s
      else answer [add_response 126, end_response] j s)"

text \<open>The loop over the queue; no handler looks at the queue itself.\<close>

fun jtagd_handle :: "'w ext \<Rightarrow> ('w, 'z) jtag \<Rightarrow> Message list \<Rightarrow> jtagd_state \<Rightarrow> ('w, 'z) common_state_scheme
    \<Rightarrow> (jtagd_state \<times> ('w, 'z) common_state_scheme) result" where
  "jtagd_handle E D [] j s = Inr (j\<lparr>messages := []\<rparr>, s)"
| "jtagd_handle E D (msg # msgs) j s =
     bindR (jtagd_dispatch E D msg j s) (\<lambda>(finished, j, s).
       if finished then jtagd_handle E D msgs j s else Inr (j\<lparr>messages := msg # msgs\<rparr>, s))"

definition jtagd_hello :: "'w ext \<Rightarrow> jtagd_state \<Rightarrow> ('w, 'z) common_state_scheme
    \<Rightarrow> (jtagd_state \<times> ('w, 'z) common_state_scheme) result" where
  "jtagd_hello E j s =
     bindR (emit [add_string (ascii (''JTAG Server'' @ [CHR 0x0D, CHR 0x0A])), add_int 13, add_int 0] j) (\<lambda>j.
     Inr (do_send E 0 j s))"

definition jtag_jtagd_tick :: "'w ext \<Rightarrow> ('w, 'z) jtag \<Rightarrow> jtagd_state \<Rightarrow> ('w, 'z) common_state_scheme
    \<Rightarrow> (jtagd_state \<times> ('w, 'z) common_state_scheme) result" where
  "jtag_jtagd_tick E D j0 s =
     (let j = j0\<lparr>send_buffer_size := 2\<rparr> in
      if 0 \<le> client_fd s then
        bindR (read_socket E s) (\<lambda>(ok, s).
        if \<not> ok then Inr (j, s)
        else
          bindR (jtagd_packets s j) (\<lambda>(j, s).
          bindR (jtagd_handle E D (messages j) j s) (\<lambda>(j, s).
          if 2 < unat (send_buffer_size j) then Inr (do_send E 0 j s) else Inr (j, s))))
      else
        case try_accept E s of (ok, s) \<Rightarrow>
          let j = j\<lparr>messages := []\<rparr> in
          if ok then jtagd_hello E j s else Inr (j, s))"

end
