(* ===== verification/Jtagd_Answers.thy ===== *)
theory Jtagd_Answers
  imports Jtagd
begin

text \<open>
  What the jtagd server (src/jtagd.cpp) sends. As long as an answer stays below 256 bytes, the fill
  level of \<open>send_buffer\<close> does not wrap around, the additions append their encodings, a response
  carries its length, and \<open>do_send\<close> sends one packet with a header that a receiver decodes; the
  lemmas describe the effect of a run of additions by the bytes it appends.
\<close>

section \<open>Additions append\<close>

definition filled :: "jtagd_state \<Rightarrow> byte list \<Rightarrow> bool" where
  "filled j bs \<longleftrightarrow> length (send_buffer j) = BUFFER_SIZE \<and> unat (send_buffer_size j) = length bs \<and>
     take (length bs) (send_buffer j) = bs"

definition kept :: "jtagd_state \<Rightarrow> jtagd_state \<Rightarrow> bool" where
  "kept j k \<longleftrightarrow> last_response k = last_response j \<and> devices k = devices j \<and> messages k = messages j \<and> fifos k = fifos j"

lemma kept_refl [simp]: "kept j j"
  by (simp add: kept_def)

lemma kept_trans [trans]: "kept j k \<Longrightarrow> kept k l \<Longrightarrow> kept j l"
  by (simp add: kept_def)

definition appends :: "(jtagd_state \<Rightarrow> jtagd_state result) \<Rightarrow> byte list \<Rightarrow> bool" where
  "appends f d \<longleftrightarrow> (\<forall>j bs. filled j bs \<and> length bs + length d < 256 \<longrightarrow>
     (\<exists>k. f j = Inr k \<and> filled k (bs @ d) \<and> kept j k))"

named_theorems appends_intros

lemma appends_put: "appends (put_bytes d) d"
proof (unfold appends_def, intro allI impI)
  fix j bs assume a: "filled j bs \<and> length bs + length d < 256"
  then have j: "length (send_buffer j) = BUFFER_SIZE" "unat (send_buffer_size j) = length bs"
    "take (length bs) (send_buffer j) = bs" "length bs + length d < 256" by (simp_all add: filled_def)
  have fits: "length bs + length d \<le> length (send_buffer j)" using j(1,4) by (simp add: BUFFER_SIZE_def)
  let ?k = "j\<lparr>send_buffer := write_at (send_buffer j) (length bs) d,
              send_buffer_size := send_buffer_size j + of_nat (length d)\<rparr>"
  have "unat (send_buffer_size j + of_nat (length d)) = length bs + length d"
    using j(2,4) by (simp add: unat_plus_if_size word_size unat_of_nat)
  then have "filled ?k (bs @ d)" using j fits by (simp add: filled_def)
  moreover have "put_bytes d j = Inr ?k" using j(2) fits by (simp add: put_bytes_def)
  ultimately show "\<exists>k. put_bytes d j = Inr k \<and> filled k (bs @ d) \<and> kept j k"
    by (intro exI [of _ ?k]) (simp add: kept_def)
qed

lemma appends_then:
  assumes "appends f x" "appends g y"
  shows "appends (\<lambda>j. bindR (f j) g) (x @ y)"
proof (unfold appends_def, intro allI impI)
  fix j bs assume a: "filled j bs \<and> length bs + length (x @ y) < 256"
  then have "filled j bs \<and> length bs + length x < 256" by simp
  with assms(1) obtain k where k: "f j = Inr k" "filled k (bs @ x)" "kept j k" unfolding appends_def by blast
  have "filled k (bs @ x) \<and> length (bs @ x) + length y < 256" using k(2) a by simp
  with assms(2) obtain l where "g k = Inr l" "filled l ((bs @ x) @ y)" "kept k l" unfolding appends_def by blast
  with k show "\<exists>l. bindR (f j) g = Inr l \<and> filled l (bs @ x @ y) \<and> kept j l" by (auto intro: kept_trans)
qed

lemma appends_cong:
  assumes "appends f d" "\<And>j. length d + unat (send_buffer_size j) < 256 \<Longrightarrow> g j = f j"
  shows "appends g d"
proof (unfold appends_def, intro allI impI)
  fix j bs assume a: "filled j bs \<and> length bs + length d < 256"
  then have "length d + unat (send_buffer_size j) < 256" by (simp add: filled_def)
  then have eq: "g j = f j" by (rule assms(2))
  from assms(1) have "\<exists>k. f j = Inr k \<and> filled k (bs @ d) \<and> kept j k"
    unfolding appends_def by (elim allE impE) (rule a)
  then show "\<exists>k. g j = Inr k \<and> filled k (bs @ d) \<and> kept j k" unfolding eq .
qed

lemma appends_int [appends_intros]: "appends (add_int v) (be32_bytes v)"
  by (rule appends_cong [OF appends_put]) (simp add: add_int_def BUFFER_SIZE_def)

lemma appends_string [appends_intros]:
  assumes "length d \<le> 255"
  shows "appends (add_string d) (of_nat (length d) # d)"
proof -
  have "appends (\<lambda>j. bindR (put_bytes [of_nat (length d)] j) (put_bytes d)) ([of_nat (length d)] @ d)"
    by (rule appends_then [OF appends_put appends_put])
  then have "appends (\<lambda>j. bindR (put_bytes [of_nat (length d)] j) (put_bytes d)) (of_nat (length d) # d)" by simp
  then show ?thesis by (rule appends_cong) (use assms in \<open>simp add: add_string_def BUFFER_SIZE_def\<close>)
qed

lemma appends_emit_Nil [appends_intros]: "appends (emit []) []"
  by (auto simp: appends_def)

lemma appends_emit_Cons [appends_intros]: "appends f x \<Longrightarrow> appends (emit fs) y \<Longrightarrow> appends (emit (f # fs)) (x @ y)"
proof -
  have "emit (f # fs) = (\<lambda>j. bindR (f j) (emit fs))" by (rule ext) simp
  then show "appends f x \<Longrightarrow> appends (emit fs) y \<Longrightarrow> appends (emit (f # fs)) (x @ y)"
    using appends_then [of f x "emit fs" y] by simp
qed

lemma emit_append: "emit (fs @ gs) j = bindR (emit fs j) (emit gs)"
proof (induction fs arbitrary: j)
  case (Cons f fs)
  then show ?case by (cases "f j") simp_all
qed simp

lemma appends_emit_append: "appends (emit fs) x \<Longrightarrow> appends (emit gs) y \<Longrightarrow> appends (emit (fs @ gs)) (x @ y)"
  using appends_then [of "emit fs" x "emit gs" y] by (simp add: emit_append [abs_def])

lemma appends_emit_concat:
  "(\<And>x. x \<in> set xs \<Longrightarrow> appends (emit (f x)) (g x)) \<Longrightarrow> appends (emit (concat (map f xs))) (concat (map g xs))"
  by (induction xs) (auto intro: appends_emit_append appends_emit_Nil)

section \<open>Responses\<close>

definition be16_bytes :: "16 word \<Rightarrow> byte list" where
  "be16_bytes w = [ucast (drop_bit 8 w), ucast w]"

text \<open>A response: code, a zero, its length including these four bytes, and the payload.\<close>

definition response :: "byte \<Rightarrow> byte list \<Rightarrow> byte list" where
  "response code payload = [code, 0] @ be16_bytes (of_nat (4 + length payload)) @ payload"

lemma length_response [simp]: "length (response code payload) = 4 + length payload"
  by (simp add: response_def be16_bytes_def)

lemma emit_response:
  assumes "filled j bs" "last_response j = -1" "appends (emit fs) d" "length bs + 4 + length d < 256"
  shows "\<exists>k. emit (add_response code # fs @ [end_response]) j = Inr k \<and> filled k (bs @ response code d) \<and> kept j k"
proof -
  have j: "length (send_buffer j) = BUFFER_SIZE" "unat (send_buffer_size j) = length bs"
    using assms(1) by (simp_all add: filled_def)
  let ?j = "j\<lparr>last_response := uint (send_buffer_size j)\<rparr>"
  have "filled ?j bs" using assms(1) by (simp add: filled_def)
  moreover have "appends (\<lambda>j. bindR (put_bytes [code] j) (\<lambda>j. bindR (put_bytes [0] j) (\<lambda>j.
      bindR (put_bytes [0] j) (put_bytes [0])))) ([code] @ [0] @ [0] @ [0])"
    by (intro appends_then appends_put)
  ultimately obtain k where
    k: "add_response code j = Inr k" "filled k (bs @ [code, 0, 0, 0])" "kept ?j k"
    using assms(2,4) j unfolding appends_def by (fastforce simp: add_response_def BUFFER_SIZE_def)
  have lk: "last_response k = int (length bs)"
    using k(3) j(2) by (simp add: kept_def uint_nat)
  have "filled k (bs @ [code, 0, 0, 0]) \<and> length (bs @ [code, 0, 0, 0]) + length d < 256" using k(2) assms(4) by simp
  with assms(3) obtain l where
    l: "emit fs k = Inr l" "filled l ((bs @ [code, 0, 0, 0]) @ d)" "kept k l" unfolding appends_def by blast
  have lenl: "length (send_buffer l) = BUFFER_SIZE" "unat (send_buffer_size l) = length bs + (4 + length d)"
    "take (length bs + (4 + length d)) (send_buffer l) = bs @ [code, 0, 0, 0] @ d"
    using l(2) unfolding filled_def by (simp_all add: eval_nat_numeral)
  have ll: "last_response l = int (length bs)" using l(3) lk by (simp add: kept_def)
  define w where "w = (of_nat (4 + length d) :: 16 word)"
  have len: "of_int (uint (send_buffer_size l) - last_response l) = w"
    using lenl(2) ll by (simp add: uint_nat w_def)
  let ?m = "l\<lparr>send_buffer := (send_buffer l)[length bs + 2 := ucast (drop_bit 8 w), length bs + 3 := ucast w],
      last_response := -1\<rparr>"
  have fin: "end_response l = Inr ?m"
    using ll lenl(1) assms(4) unfolding end_response_def len Let_def by (simp add: BUFFER_SIZE_def)
  have "take (length bs + (4 + length d)) (send_buffer ?m) = bs @ response code d"
  proof -
    have "take (length bs + (4 + length d)) (send_buffer ?m) =
        (bs @ [code, 0, 0, 0] @ d)[length bs + 2 := ucast (drop_bit 8 w), length bs + 3 := ucast w]"
      unfolding lenl(3) [symmetric] by (simp add: take_update_swap)
    also have "\<dots> = bs @ response code d"
      by (simp add: list_update_append response_def be16_bytes_def w_def numeral_eq_Suc)
    finally show ?thesis .
  qed
  then have "filled ?m (bs @ response code d)" using lenl by (simp add: filled_def)
  moreover have "emit (fs @ [end_response]) k = Inr ?m"
    by (simp add: emit_append l(1) fin)
  moreover have "kept j ?m" using k(3) l(3) assms(2) by (simp add: kept_def)
  ultimately show ?thesis using k(1) by auto
qed

section \<open>Packets\<close>

definition jtagd_frame :: "16 word \<Rightarrow> byte list \<Rightarrow> byte list" where
  "jtagd_frame mux payload = be16_bytes (compute_header (of_nat (length payload)) mux) @ payload"

lemma do_send_frame:
  assumes "filled j (a # b # payload)" "sock_accepts E"
  shows "\<exists>k w. do_send E mux j s = (k, s\<lparr>net_out := net_out s @ jtagd_frame mux payload, world := w\<rparr>) \<and>
     filled k (be16_bytes (compute_header (of_nat (length payload)) mux)) \<and> kept j k"
proof -
  have j: "length (send_buffer j) = BUFFER_SIZE" "unat (send_buffer_size j) = Suc (Suc (length payload))"
    "take (Suc (Suc (length payload))) (send_buffer j) = a # b # payload"
    using assms(1) by (simp_all add: filled_def)
  then obtain rest where buf: "send_buffer j = a # b # payload @ rest"
    by (metis append_Cons append_take_drop_id)
  have "ucast (send_buffer_size j) - 2 = (of_nat (length payload) :: 16 word)"
  proof -
    have "ucast (send_buffer_size j) = (of_nat (unat (send_buffer_size j)) :: 16 word)" by simp
    then show ?thesis unfolding j(2) by simp
  qed
  then have fill: "fill_header mux j =
      j\<lparr>send_buffer := be16_bytes (compute_header (of_nat (length payload)) mux) @ payload @ rest\<rparr>"
    by (simp add: fill_header_def buf be16_bytes_def Let_def)
  let ?k = "(fill_header mux j)\<lparr>send_buffer_size := 2\<rparr>"
  obtain w where w: "write_full E (jtagd_frame mux payload) s =
      (True, s\<lparr>net_out := net_out s @ jtagd_frame mux payload, world := w\<rparr>)"
    using write_full_accepted [OF assms(2)] by blast
  have out: "take (unat (send_buffer_size j)) (send_buffer (fill_header mux j)) = jtagd_frame mux payload"
    by (simp add: fill j(2) jtagd_frame_def be16_bytes_def)
  have "do_send E mux j s = (?k, s\<lparr>net_out := net_out s @ jtagd_frame mux payload, world := w\<rparr>)"
    unfolding do_send_def Let_def using out w by (simp add: fill)
  moreover have "filled ?k (be16_bytes (compute_header (of_nat (length payload)) mux))"
    using j(1) by (simp add: fill filled_def be16_bytes_def buf)
  ultimately show ?thesis by (intro exI [of _ ?k] exI [of _ w]) (simp add: fill kept_def)
qed

end
