(* ===== verification/Jtagd_Packets.thy ===== *)
theory Jtagd_Packets
  imports Jtagd_Answers
begin

text \<open>
  What the jtagd server (src/jtagd.cpp) makes of the packets it receives: the header and the
  messages of a well-formed packet are decoded as they were encoded; what is stored for a fifo
  packet is not its contents.
\<close>

section \<open>Headers\<close>

lemma be16_or:
  fixes w :: "16 word"
  shows "push_bit 8 (ucast (ucast (drop_bit 8 w) :: byte)) OR ucast (ucast w :: byte) = w"
  by (rule bit_word_eqI) (auto simp: bit_or_iff bit_push_bit_iff bit_ucast_iff bit_drop_bit_eq)

lemma be16_join:
  fixes w :: "16 word"
  shows "push_bit 8 (ucast (ucast (drop_bit 8 w) :: byte)) + ucast (ucast w :: byte) = w"
proof -
  have "push_bit 8 (ucast (ucast (drop_bit 8 w) :: byte)) AND (ucast (ucast w :: byte) :: 16 word) = 0"
    by (rule bit_word_eqI) (auto simp: bit_and_iff bit_push_bit_iff bit_ucast_iff dest: bit_imp_le_length)
  from word_plus_and_or [of "push_bit 8 (ucast (ucast (drop_bit 8 w) :: byte))" "ucast (ucast w :: byte) :: 16 word"]
    \<open>_ = 0\<close> show ?thesis by (simp add: be16_or)
qed

lemma be16_be16_bytes:
  fixes w :: "16 word"
  shows "be16 (ucast (drop_bit 8 w)) (ucast w) = unat w"
  by (simp add: be16_def be16_or)

lemma bit_of_nat_small: "k < 2 ^ i \<Longrightarrow> \<not> bit (of_nat k :: 16 word) i"
proof -
  assume "k < 2 ^ i"
  then have "\<not> bit k i" by (simp add: bit_iff_odd)
  then show ?thesis by (simp only: bit_of_nat_iff) simp
qed

lemma high_bits_zero: "k < 4096 \<Longrightarrow> 12 \<le> i \<Longrightarrow> \<not> bit (of_nat k :: 16 word) i"
  using bit_of_nat_small [of k i] power_increasing [of 12 i "2 :: nat"] by simp

lemma header_fields:
  assumes "1 \<le> n" "n \<le> 4096" "mux < 16"
  shows "unat (drop_bit 12 (compute_header (of_nat n) (of_nat mux))) = mux"
    "unat (compute_header (of_nat n) (of_nat mux) AND 0xFFF) + 1 = n"
proof -
  define k where "k = n - 1"
  have k: "k < 4096" "n = Suc k" using assms by (simp_all add: k_def)
  have h: "compute_header (of_nat n) (of_nat mux) = push_bit 12 (of_nat mux) OR of_nat k"
    by (simp add: compute_header_def k(2))
  have "drop_bit 12 (push_bit 12 (of_nat mux) OR of_nat k :: 16 word) = of_nat mux"
  proof (rule bit_word_eqI)
    fix i :: nat assume i: "i < LENGTH(16)"
    show "bit (drop_bit 12 (push_bit 12 (of_nat mux) OR of_nat k :: 16 word)) i = bit (of_nat mux :: 16 word) i"
    proof (cases "i < 4")
      case True
      then show ?thesis using high_bits_zero [OF k(1), of "12 + i"]
        by (simp add: bit_drop_bit_eq bit_or_iff bit_push_bit_iff)
    next
      case False
      then have "mux < 2 ^ i" using assms(3) power_increasing [of 4 i "2 :: nat"] by simp
      then have "\<not> bit (of_nat mux :: 16 word) i" by (rule bit_of_nat_small)
      moreover have "\<not> bit (push_bit 12 (of_nat mux) OR of_nat k :: 16 word) (12 + i)"
        using False by (auto dest: bit_imp_le_length)
      ultimately show ?thesis unfolding bit_drop_bit_eq comp_def by (simp only: add.commute)
    qed
  qed
  then show "unat (drop_bit 12 (compute_header (of_nat n) (of_nat mux))) = mux"
    unfolding h using assms(3) by (simp add: unat_of_nat)
  have "(push_bit 12 (of_nat mux) OR of_nat k :: 16 word) AND 0xFFF = of_nat k"
  proof (rule bit_word_eqI)
    fix i :: nat assume "i < LENGTH(16)"
    have m: "(0xFFF :: 16 word) = mask 12" by (simp add: mask_eq_exp_minus_1)
    show "bit ((push_bit 12 (of_nat mux) OR of_nat k :: 16 word) AND 0xFFF) i = bit (of_nat k :: 16 word) i"
      unfolding m using high_bits_zero [OF k(1), of i] \<open>i < LENGTH(16)\<close>
      by (cases "12 \<le> i") (auto simp: bit_and_iff bit_or_iff bit_push_bit_iff bit_mask_iff not_le)
  qed
  then show "unat (compute_header (of_nat n) (of_nat mux) AND 0xFFF) + 1 = n"
    unfolding h using k by (simp add: unat_of_nat)
qed

section \<open>Packets and messages\<close>

definition encode_message :: "Message \<Rightarrow> byte list" where
  "encode_message m = [command m, 0] @ be16_bytes (of_nat (4 + length (body m))) @ body m"

lemma length_encode_message [simp]: "length (encode_message m) = 4 + length (body m)"
  by (simp add: encode_message_def be16_bytes_def)

text \<open>The buffer holds \<open>bs\<close> at index \<open>p\<close>.\<close>

definition holds_at :: "('w, 'z) common_state_scheme \<Rightarrow> nat \<Rightarrow> byte list \<Rightarrow> bool" where
  "holds_at s p bs \<longleftrightarrow> p + length bs \<le> length (buffer s) \<and> take (length bs) (drop p (buffer s)) = bs"

lemma holds_at_bytes: "holds_at s p (xs @ ys) \<Longrightarrow> buffer_bytes s p (length xs) = Inr xs"
proof -
  assume h: "holds_at s p (xs @ ys)"
  then have "take (length xs) (take (length (xs @ ys)) (drop p (buffer s))) = xs" by (simp add: holds_at_def)
  then show ?thesis using h by (simp add: holds_at_def buffer_bytes_def min_def)
qed

lemma holds_at_rest: "holds_at s p (xs @ ys) \<Longrightarrow> holds_at s (p + length xs) ys"
proof -
  assume h: "holds_at s p (xs @ ys)"
  then have "drop (length xs) (take (length (xs @ ys)) (drop p (buffer s))) = ys" by (simp add: holds_at_def)
  then show ?thesis using h by (simp add: holds_at_def drop_take add.commute)
qed

lemma holds_at_prefix: "holds_at s p (xs @ ys) \<Longrightarrow> holds_at s p xs"
  using holds_at_bytes [of s p xs ys] by (auto simp: holds_at_def buffer_bytes_def split: if_splits)

lemma split_messages:
  "holds_at s p (concat (map encode_message ms)) \<Longrightarrow> (\<forall>m \<in> set ms. length (body m) < 65532) \<Longrightarrow>
     jtagd_split s p (p + length (concat (map encode_message ms))) msgs = Inr (msgs @ ms)"
proof (induction ms arbitrary: p msgs)
  case Nil
  then show ?case by (simp add: jtagd_split.simps [of s p p])
next
  case (Cons m ms)
  let ?rest = "concat (map encode_message ms)" and ?n = "4 + length (body m)"
  have h: "holds_at s p (encode_message m @ ?rest)" using Cons.prems(1) by simp
  have "encode_message m = [command m, 0] @ be16_bytes (of_nat ?n) @ body m" by (simp add: encode_message_def)
  then have split: "encode_message m @ ?rest = ([command m, 0] @ be16_bytes (of_nat ?n)) @ (body m @ ?rest)" by simp
  have four: "buffer_bytes s p 4 = Inr ([command m, 0] @ be16_bytes (of_nat ?n))"
    using holds_at_bytes [OF h [unfolded split]] by (simp add: be16_bytes_def eval_nat_numeral)
  have n: "unat (of_nat ?n :: 16 word) = ?n"
    using Cons.prems(2) by (simp only: unat_of_nat) (simp add: take_bit_eq_mod)
  then have len: "be16 (([command m, 0] @ be16_bytes (of_nat ?n)) ! 2) (([command m, 0] @ be16_bytes (of_nat ?n)) ! 3) = ?n"
    using be16_be16_bytes [of "of_nat ?n"] by (simp add: be16_bytes_def)
  have all: "buffer_bytes s p ?n = Inr (encode_message m)" using holds_at_bytes [OF h] by simp
  have msg: "\<lparr>command = hd (encode_message m), body = drop 4 (encode_message m)\<rparr> = m"
    by (simp add: encode_message_def be16_bytes_def)
  have stop: "p + length (concat (map encode_message (m # ms))) = (p + ?n) + length ?rest" by simp
  have "holds_at s (p + ?n) ?rest" using holds_at_rest [OF h] by simp
  from Cons.IH [OF this, of "msgs @ [m]"] Cons.prems(2)
  have "jtagd_split s (p + ?n) (p + length (concat (map encode_message (m # ms)))) (msgs @ [m]) = Inr ((msgs @ [m]) @ ms)"
    unfolding stop by simp
  then show ?case
    unfolding jtagd_split.simps [of s p] four bindR_simps len Let_def all msg by simp
qed

text \<open>A whole packet at the front of the unread bytes.\<close>

lemma packets_step:
  assumes inv: "buffer_inv s" and u: "unread s = jtagd_frame (of_nat mux) payload @ rest"
    and len: "payload \<noteq> []" "length payload \<le> 4096" "mux < 16"
  shows "jtagd_packets s j =
    bindR (jtagd_packet (s\<lparr>buffer_begin := buffer_begin s + 2\<rparr>) mux (length payload) j) (\<lambda>j.
    jtagd_packets (s\<lparr>buffer_begin := buffer_begin s + (2 + length payload)\<rparr>) j)"
    and "holds_at s (buffer_begin s + 2) payload"
proof -
  let ?w = "compute_header (of_nat (length payload)) (of_nat mux)"
  have le: "buffer_end s = buffer_begin s + length (unread s)" using unread_end [OF inv] by simp
  have lenu: "length (unread s) = 2 + length payload + length rest" by (simp add: u jtagd_frame_def be16_bytes_def)
  have n: "1 \<le> length payload" using len(1) by (cases payload) auto
  have two: "buffer_bytes s (buffer_begin s) 2 = Inr (be16_bytes ?w)"
    using buffer_bytes_unread [OF inv, of 0 2] lenu by (simp add: u jtagd_frame_def be16_bytes_def)
  have join: "push_bit 8 (ucast (be16_bytes ?w ! 0)) + ucast (be16_bytes ?w ! 1) = ?w"
    using be16_join [of ?w] by (simp add: be16_bytes_def)
  note f = header_fields [OF n len(2,3)]
  have c: "buffer_begin s + 2 \<le> buffer_end s" "buffer_begin s + 2 + length payload \<le> buffer_end s" using le lenu by simp_all
  show "jtagd_packets s j =
    bindR (jtagd_packet (s\<lparr>buffer_begin := buffer_begin s + 2\<rparr>) mux (length payload) j) (\<lambda>j.
    jtagd_packets (s\<lparr>buffer_begin := buffer_begin s + (2 + length payload)\<rparr>) j)"
    unfolding jtagd_packets.simps [of s j] two bindR_simps Let_def join f
    by (simp only: c c(2) [unfolded add.assoc] if_True add.assoc)
  have p: "buffer_bytes s (buffer_begin s + 2) (length payload) = Inr payload"
    using buffer_bytes_unread [OF inv, of 2 "length payload"] lenu by (simp add: u jtagd_frame_def be16_bytes_def)
  then show "holds_at s (buffer_begin s + 2) payload" by (auto simp: holds_at_def buffer_bytes_def split: if_splits)
qed

lemma packet_messages:
  assumes "holds_at s (buffer_begin s + 2) (concat (map encode_message ms))" "\<forall>m \<in> set ms. length (body m) < 65532"
  shows "jtagd_packet (s\<lparr>buffer_begin := buffer_begin s + 2\<rparr>) 0 (length (concat (map encode_message ms))) j =
    Inr (j\<lparr>messages := messages j @ ms\<rparr>)"
proof -
  let ?s = "s\<lparr>buffer_begin := buffer_begin s + 2\<rparr>"
  have "holds_at ?s (buffer_begin ?s) (concat (map encode_message ms))" using assms(1) by (simp add: holds_at_def)
  from split_messages [OF this assms(2), of "[]"] show ?thesis by (simp add: jtagd_packet_def)
qed

lemma packets_of_messages:
  assumes "buffer_inv s" "unread s = jtagd_frame 0 (concat (map encode_message ms)) @ rest"
    and "ms \<noteq> []" "length (concat (map encode_message ms)) \<le> 4096"
  shows "jtagd_packets s j =
    jtagd_packets (s\<lparr>buffer_begin := buffer_begin s + (2 + length (concat (map encode_message ms)))\<rparr>)
      (j\<lparr>messages := messages j @ ms\<rparr>)"
proof -
  let ?p = "concat (map encode_message ms)"
  obtain m ms' where m: "ms = m # ms'" using assms(3) by (cases ms) auto
  have "encode_message m \<noteq> []" by (simp add: encode_message_def)
  with m have ne: "?p \<noteq> []" by simp
  have short: "length (body m) < 65532" if "m \<in> set ms" for m
  proof -
    have "length (encode_message m) \<le> length ?p"
      using that by (induction ms) auto
    then show ?thesis using assms(4) by simp
  qed
  have "unread s = jtagd_frame (of_nat 0) ?p @ rest" using assms(2) by simp
  note p = packets_step [OF assms(1) this ne assms(4)]
  show ?thesis using p(1) [of j] packet_messages [OF p(2), of j] short by simp
qed

lemma packets_stop: "buffer_inv s \<Longrightarrow> length (unread s) < 2 \<Longrightarrow> jtagd_packets s j = Inr (j, s)"
  using unread_end [of s] by (simp add: jtagd_packets.simps [of s j])

section \<open>Properties\<close>

text \<open>
  C22: round trip of the packet format. A packet with the header that \<open>compute_header\<close> builds
  (multiplex channel 0) around any sequence of encoded messages, at the front of the receive
  buffer, is taken out of it whole and gives exactly these messages, in order, behind those
  already queued; parsing goes on behind it.
\<close>

theorem jtagd_messages_roundtrip:
  assumes "buffer_inv s" "unread s = jtagd_frame 0 (concat (map encode_message ms)) @ rest"
    and "ms \<noteq> []" "length (concat (map encode_message ms)) \<le> 4096"
  shows "jtagd_packets s j =
    jtagd_packets (s\<lparr>buffer_begin := buffer_begin s + (2 + length (concat (map encode_message ms)))\<rparr>)
      (j\<lparr>messages := messages j @ ms\<rparr>)"
  by (rule packets_of_messages [OF assms])

theorem jtagd_messages_roundtrip_witness:
  "\<exists>s :: unit common_state. unread s = [0, 8, 0xA2, 0, 0, 4, 0xAA, 0, 0, 5, 7] \<and>
     jtagd_packets s jtagd_start = jtagd_packets (s\<lparr>buffer_begin := 11\<rparr>)
       (jtagd_start\<lparr>messages := [\<lparr>command = 0xA2, body = []\<rparr>, \<lparr>command = 0xAA, body = [7]\<rparr>]\<rparr>)"
proof -
  let ?bs = "[0, 8, 0xA2, 0, 0, 4, 0xAA, 0, 0, 5, 7] :: byte list"
  let ?ms = "[\<lparr>command = 0xA2, body = []\<rparr>, \<lparr>command = 0xAA, body = [7]\<rparr>]"
  let ?s = "(process_start ())\<lparr>buffer := ?bs @ replicate 4085 0, buffer_end := 11\<rparr>"
  have inv: "buffer_inv ?s" by (simp add: buffer_inv_def process_start_def BUFFER_SIZE_def)
  have u: "unread ?s = ?bs" by (simp add: unread_def process_start_def)
  have "?bs = jtagd_frame 0 (concat (map encode_message ?ms)) @ []" by code_simp
  then have f: "unread ?s = jtagd_frame 0 (concat (map encode_message ?ms)) @ []" using u by simp
  have "length (concat (map encode_message ?ms)) = 9" by simp
  with jtagd_messages_roundtrip [OF inv f, of jtagd_start] have
    "jtagd_packets ?s jtagd_start = jtagd_packets (?s\<lparr>buffer_begin := buffer_begin ?s + (2 + 9)\<rparr>)
       (jtagd_start\<lparr>messages := messages jtagd_start @ ?ms\<rparr>)" by simp
  moreover have "buffer_begin ?s = 0" "messages jtagd_start = []" by (simp_all add: process_start_def jtagd_start_def)
  ultimately show ?thesis using u by (intro exI [of _ ?s]) simp
qed

text \<open>
  C39: a packet for a fifo (channel 4 and above) does not deliver its contents: what is appended is
  \<open>buffer_begin\<close> copies of one number made of two buffer positions, whatever the payload is.
\<close>

theorem jtagd_fifo_stores_positions:
  assumes "buffer_inv s" "unread s = jtagd_frame (of_nat mux) payload @ rest"
    and "4 \<le> mux" "mux < 16" "payload \<noteq> []" "length payload \<le> 4096"
  shows "jtagd_packets s j =
    jtagd_packets (s\<lparr>buffer_begin := buffer_begin s + (2 + length payload)\<rparr>)
      (j\<lparr>fifos := (fifos j)(mux := fifos j mux @
         replicate (buffer_begin s + 2) (of_nat (buffer_begin s + 2 + length payload)))\<rparr>)"
  using packets_step(1) [OF assms(1,2,5,6,4), of j] assms(3) by (simp add: jtagd_packet_def)

theorem jtagd_fifo_stores_positions_witness:
  "\<exists>s :: unit common_state. unread s = [0x40, 2, 0xDE, 0xAD, 0x42] \<and>
     jtagd_packets s jtagd_start = jtagd_packets (s\<lparr>buffer_begin := 5\<rparr>)
       (jtagd_start\<lparr>fifos := (\<lambda>_. [])(4 := [5, 5])\<rparr>)"
proof -
  let ?bs = "[0x40, 2, 0xDE, 0xAD, 0x42] :: byte list"
  let ?s = "(process_start ())\<lparr>buffer := ?bs @ replicate 4091 0, buffer_end := 5\<rparr>"
  have inv: "buffer_inv ?s" by (simp add: buffer_inv_def process_start_def BUFFER_SIZE_def)
  have u: "unread ?s = ?bs" by (simp add: unread_def process_start_def)
  have "?bs = jtagd_frame (of_nat 4) [0xDE, 0xAD, 0x42] @ []" by code_simp
  then have f: "unread ?s = jtagd_frame (of_nat 4) [0xDE, 0xAD, 0x42] @ []" using u by simp
  have two: "replicate 2 (5 :: byte) = [5, 5]" by (simp add: numeral_2_eq_2)
  from jtagd_fifo_stores_positions [OF inv f, of jtagd_start] have
    "jtagd_packets ?s jtagd_start = jtagd_packets (?s\<lparr>buffer_begin := 5\<rparr>)
       (jtagd_start\<lparr>fifos := (\<lambda>_. [])(4 := [5, 5])\<rparr>)"
    by (simp add: process_start_def jtagd_start_def two)
  then show ?thesis using u by (intro exI [of _ ?s]) simp
qed

end
