(* ===== verification/Jtagd_Batch.thy ===== *)
theory Jtagd_Batch
  imports Jtagd_Packets Servers
begin

text \<open>
  The jtagd server (src/jtagd.cpp) from the socket to the socket, for the commands that do not need
  the adapter: their answers are collected in \<open>send_buffer\<close> and go out in one packet at the end
  of the tick, unless the 8 bit fill level wraps around. Also the greeting of a new client.
\<close>

section \<open>Answers that are collected\<close>

text \<open>
  The commands whose answer waits for the end of the tick: all but the seven that use the adapter, look
  at the devices or send packets of their own (0x80 GET_HARDWARE, 0xA5 READ_CHAIN, 0xA8 OPEN_DEVICE,
  0xC1 LOCK_DEVICE, 0xC6 ACCESS_IR, 0xC8 ACCESS_DR, 0xCA RUN_TEST_IDLE).
\<close>

definition batched :: "byte \<Rightarrow> bool" where
  "batched c \<longleftrightarrow> c \<noteq> 0x80 \<and> c \<noteq> 0xA5 \<and> c \<noteq> 0xA8 \<and> c \<noteq> 0xC1 \<and> c \<noteq> 0xC6 \<and> c \<noteq> 0xC8 \<and> c \<noteq> 0xCA"

definition acknowledged :: "byte \<Rightarrow> bool" where
  "acknowledged c \<longleftrightarrow> c = 0xA2 \<or> c = 0xA3 \<or> c = 0xAA \<or> c = 0xC0 \<or> c = 0xC2"

text \<open>What a client may expect for each of these commands.\<close>

definition batched_reply :: "byte \<Rightarrow> byte list" where
  "batched_reply c =
     (if c = 0x83 then response 0 ((3 # ascii ''1.0'') @ be32_bytes 0 @ (5 # ascii ''jtagd''))
      else if c = 0x84 then response 0 (be32_bytes 1 @ be32_bytes 0 @ be32_bytes 0)
      else if c = 0xAB then response 0 (be32_bytes 0)
      else if c = 0xFE then response 0 (be32_bytes 1)
      else if acknowledged c then response 0 []
      else response 126 [])"

lemma length_batched_reply [simp]: "4 \<le> length (batched_reply c)"
  by (simp add: batched_reply_def)

lemma emit_reply:
  assumes "filled j bs" "last_response j = -1" "appends (emit fs) d" "length bs + length (response code d) < 256"
  shows "\<exists>k. answer (add_response code # fs @ [end_response]) j s = Inr (True, k, s) \<and>
     filled k (bs @ response code d) \<and> kept j k"
proof -
  have "length bs + 4 + length d < 256" using assms(4) by simp
  from emit_response [OF assms(1-3) this] obtain k where
    "emit (add_response code # fs @ [end_response]) j = Inr k" "filled k (bs @ response code d)" "kept j k" by blast
  then show ?thesis by (simp add: answer_def)
qed

lemma dispatch_batched:
  assumes "batched (command m)" "filled j bs" "last_response j = -1" "length bs + length (batched_reply (command m)) < 256"
  shows "\<exists>k. jtagd_dispatch E D m j s = Inr (True, k, s) \<and> filled k (bs @ batched_reply (command m)) \<and> kept j k"
proof -
  let ?c = "command m"
  note reply = emit_reply [OF assms(2,3)]
  have str: "appends (add_string (ascii ''1.0'')) (3 # ascii ''1.0'')" "appends (add_string (ascii ''jtagd'')) (5 # ascii ''jtagd'')"
    using appends_string [of "ascii ''1.0''"] appends_string [of "ascii ''jtagd''"] by (simp_all add: ascii_def)
  have version: "appends (emit [add_string (ascii ''1.0''), add_int 0, add_string (ascii ''jtagd'')])
      ((3 # ascii ''1.0'') @ be32_bytes 0 @ (5 # ascii ''jtagd'') @ [])"
    by (intro appends_intros str)
  have ints: "appends (emit [add_int 1, add_int 0, add_int 0]) (be32_bytes 1 @ be32_bytes 0 @ be32_bytes 0 @ [])"
    "appends (emit [add_int v]) (be32_bytes v @ [])" for v
    by (intro appends_intros)+
  consider "?c = 0x83" | "?c = 0x84" | "?c = 0xAB" | "?c = 0xFE" | "acknowledged ?c"
    | "?c \<noteq> 0x83" "?c \<noteq> 0x84" "?c \<noteq> 0xAB" "?c \<noteq> 0xFE" "\<not> acknowledged ?c" by blast
  then show ?thesis
  proof cases
    case 1
    then show ?thesis using reply [OF version, of 0 s] assms(4)
      by (simp add: jtagd_dispatch_def jtagd_get_version_info_def batched_reply_def)
  next
    case 2
    then show ?thesis using reply [OF ints(1), of 0 s] assms(4)
      by (simp add: jtagd_dispatch_def jtagd_get_defined_devices_def batched_reply_def)
  next
    case 3
    then show ?thesis using reply [OF ints(2) [of 0], of 0 s] assms(4)
      by (simp add: jtagd_dispatch_def batched_reply_def)
  next
    case 4
    then show ?thesis using reply [OF ints(2) [of 1], of 0 s] assms(4)
      by (simp add: jtagd_dispatch_def batched_reply_def)
  next
    case 5
    then have c: "batched_reply ?c = response 0 []" "jtagd_dispatch E D m j s = answer jtagd_ack j s"
      by (auto simp: batched_reply_def acknowledged_def jtagd_dispatch_def)
    show ?thesis using reply [OF appends_emit_Nil, of 0 s] assms(4)
      unfolding c by (simp add: jtagd_ack_def)
  next
    case 6
    then have c: "batched_reply ?c = response 126 []"
        "jtagd_dispatch E D m j s = answer [add_response 126, end_response] j s"
      using assms(1) by (simp_all add: batched_reply_def acknowledged_def jtagd_dispatch_def batched_def)
    show ?thesis using reply [OF appends_emit_Nil, of 126 s] assms(4) unfolding c by simp
  qed
qed

lemma handle_batched:
  assumes "list_all (\<lambda>m. batched (command m)) ms" "filled j bs" "last_response j = -1"
    and "length bs + length (concat (map (\<lambda>m. batched_reply (command m)) ms)) < 256"
  shows "\<exists>k. jtagd_handle E D ms j s = Inr (k, s) \<and> filled k (bs @ concat (map (\<lambda>m. batched_reply (command m)) ms)) \<and>
     last_response k = -1 \<and> devices k = devices j \<and> fifos k = fifos j \<and> messages k = []"
  using assms
proof (induction ms arbitrary: j bs)
  case Nil
  then show ?case by (simp add: filled_def)
next
  case (Cons m ms)
  have "length bs + length (batched_reply (command m)) < 256" using Cons.prems(4) by simp
  with Cons.prems obtain k where
    k: "jtagd_dispatch E D m j s = Inr (True, k, s)" "filled k (bs @ batched_reply (command m))" "kept j k"
    using dispatch_batched [of m j bs E D s] by auto
  have "last_response k = -1" using k(3) Cons.prems(3) by (simp add: kept_def)
  moreover have "list_all (\<lambda>m. batched (command m)) ms" using Cons.prems(1) by simp
  moreover have "length (bs @ batched_reply (command m)) + length (concat (map (\<lambda>m. batched_reply (command m)) ms)) < 256"
    using Cons.prems(4) by simp
  ultimately obtain l where
    "jtagd_handle E D ms k s = Inr (l, s)"
      "filled l ((bs @ batched_reply (command m)) @ concat (map (\<lambda>m. batched_reply (command m)) ms))"
      "last_response l = -1" "devices l = devices k" "fifos l = fifos k" "messages l = []"
    using Cons.IH [of k "bs @ batched_reply (command m)"] k(2) by blast
  then show ?case using k by (simp add: kept_def)
qed

section \<open>A tick\<close>

definition jtagd_ready :: "jtagd_state \<Rightarrow> bool" where
  "jtagd_ready j \<longleftrightarrow> length (send_buffer j) = BUFFER_SIZE \<and> last_response j = -1 \<and> messages j = []"

lemma ready_filled:
  assumes "length (send_buffer j) = BUFFER_SIZE"
  obtains a b where "filled (j\<lparr>send_buffer_size := 2\<rparr>) [a, b]"
proof -
  have "2 \<le> length (send_buffer j)" using assms by (simp add: BUFFER_SIZE_def)
  then obtain a b rest where "send_buffer j = a # b # rest"
    by (auto simp: numeral_2_eq_2 Suc_le_length_iff)
  then show ?thesis using assms that [of a b] by (simp add: filled_def)
qed

lemma tick_messages:
  assumes "jtagd_ready j" "0 \<le> client_fd s" "buffer_inv s" "read_socket E s = Inr (True, r)"
    and "unread r = jtagd_frame 0 (concat (map encode_message ms)) @ rest" "length rest < 2"
    and "ms \<noteq> []" "length (concat (map encode_message ms)) \<le> 4096"
  shows "\<exists>t. jtag_jtagd_tick E D j s =
      bindR (jtagd_handle E D ms (j\<lparr>send_buffer_size := 2, messages := ms\<rparr>) t) (\<lambda>(j, s).
        if 2 < unat (send_buffer_size j) then Inr (do_send E 0 j s) else Inr (j, s)) \<and>
     buffer_inv t \<and> unread t = rest \<and> net_out t = net_out s"
proof -
  have inv: "buffer_inv r" by (rule read_socket_frame(1) [OF assms(3,4)])
  let ?j = "j\<lparr>send_buffer_size := 2\<rparr>" and ?n = "2 + length (concat (map encode_message ms))"
  let ?t = "r\<lparr>buffer_begin := buffer_begin r + ?n\<rparr>"
  have "length (jtagd_frame 0 (concat (map encode_message ms))) = ?n" by (simp add: jtagd_frame_def be16_bytes_def)
  then have t: "buffer_inv ?t" "unread ?t = rest" using unread_consume [OF inv, of ?n] assms(5) by simp_all
  have "messages ?j = []" using assms(1) by (simp add: jtagd_ready_def)
  then have "jtagd_packets r ?j = Inr (j\<lparr>send_buffer_size := 2, messages := ms\<rparr>, ?t)"
    unfolding packets_of_messages [OF inv assms(5,7,8)] using packets_stop [OF t(1)] t(2) assms(6) by simp
  then show ?thesis using assms(2,4) t read_socket_frame(5) [OF assms(3,4)]
    by (intro exI [of _ ?t]) (simp add: jtag_jtagd_tick_def)
qed

section \<open>The fill level wraps around\<close>

lemma put_one:
  assumes "length (send_buffer j) = BUFFER_SIZE"
  shows "\<exists>k. put_bytes [b] j = Inr k \<and> length (send_buffer k) = BUFFER_SIZE \<and>
     send_buffer_size k = send_buffer_size j + 1 \<and> kept j k"
proof -
  have "unat (send_buffer_size j) < 256" using unsigned_less [of "send_buffer_size j"] by simp
  then show ?thesis using assms by (simp add: put_bytes_def BUFFER_SIZE_def kept_def)
qed

lemma ack_any_size:
  assumes "length (send_buffer j) = BUFFER_SIZE" "last_response j = -1"
  shows "\<exists>k. emit jtagd_ack j = Inr k \<and> length (send_buffer k) = BUFFER_SIZE \<and>
     send_buffer_size k = send_buffer_size j + 4 \<and> kept j k"
proof -
  have lt: "unat (send_buffer_size j) < 256" using unsigned_less [of "send_buffer_size j"] by simp
  let ?j = "j\<lparr>last_response := uint (send_buffer_size j)\<rparr>"
  have "length (send_buffer ?j) = BUFFER_SIZE" using assms(1) by simp
  from put_one [OF this] obtain a where
    a: "put_bytes [0] ?j = Inr a" "length (send_buffer a) = BUFFER_SIZE" "send_buffer_size a = send_buffer_size j + 1"
      "kept ?j a" by fastforce
  from put_one [OF a(2)] obtain b where
    b: "put_bytes [0] a = Inr b" "length (send_buffer b) = BUFFER_SIZE" "send_buffer_size b = send_buffer_size j + 2"
      "kept ?j b" using a(3,4) by (fastforce intro: kept_trans)
  from put_one [OF b(2)] obtain c where
    c: "put_bytes [0] b = Inr c" "length (send_buffer c) = BUFFER_SIZE" "send_buffer_size c = send_buffer_size j + 3"
      "kept ?j c" using b(3,4) by (fastforce intro: kept_trans)
  from put_one [OF c(2)] obtain d where
    d: "put_bytes [0] c = Inr d" "length (send_buffer d) = BUFFER_SIZE" "send_buffer_size d = send_buffer_size j + 4"
      "kept ?j d" using c(3,4) by (fastforce intro: kept_trans)
  have resp: "add_response 0 j = Inr d"
  proof -
    have "\<not> BUFFER_SIZE < unat (send_buffer_size j) + 4" using lt by (simp add: BUFFER_SIZE_def)
    then show ?thesis
      unfolding add_response_def assms(2) by (simp only: a(1) b(1) c(1) d(1) bindR_simps if_False simp_thms)
  qed
  have ld: "last_response d = uint (send_buffer_size j)" using d(4) by (simp add: kept_def)
  have at: "nat (last_response d) = unat (send_buffer_size j)" by (simp add: ld)
  have "0 \<le> last_response d" by (simp add: ld)
  then have ne: "last_response d \<noteq> -1" by linarith
  let ?len = "of_int (uint (send_buffer_size d) - last_response d) :: 16 word" and ?at = "nat (last_response d)"
  let ?k = "d\<lparr>send_buffer := (send_buffer d)[?at + 2 := ucast (drop_bit 8 ?len), ?at + 3 := ucast ?len], last_response := -1\<rparr>"
  have "?at + 3 < length (send_buffer d)" unfolding at d(2) using lt by (simp add: BUFFER_SIZE_def)
  with ne have "end_response d = Inr ?k" unfolding end_response_def Let_def by (simp only: if_True if_False)
  then have "emit jtagd_ack j = Inr ?k" by (simp add: jtagd_ack_def resp)
  moreover have "length (send_buffer ?k) = BUFFER_SIZE" "send_buffer_size ?k = send_buffer_size j + 4" "kept j ?k"
    using d(2-4) assms(2) by (simp_all add: kept_def)
  ultimately show ?thesis by blast
qed

lemma dispatch_ack: "acknowledged (command m) \<Longrightarrow> jtagd_dispatch E D m j s = answer jtagd_ack j s"
  by (auto simp: acknowledged_def jtagd_dispatch_def)

lemma handle_acks:
  assumes "list_all (\<lambda>m. acknowledged (command m)) ms" "length (send_buffer j) = BUFFER_SIZE" "last_response j = -1"
  shows "\<exists>k. jtagd_handle E D ms j s = Inr (k, s) \<and> length (send_buffer k) = BUFFER_SIZE \<and>
     send_buffer_size k = send_buffer_size j + 4 * of_nat (length ms) \<and> last_response k = -1 \<and> messages k = []"
  using assms
proof (induction ms arbitrary: j)
  case Nil
  then show ?case by simp
next
  case (Cons m ms)
  from ack_any_size [OF Cons.prems(2,3)] obtain k where
    k: "emit jtagd_ack j = Inr k" "length (send_buffer k) = BUFFER_SIZE" "send_buffer_size k = send_buffer_size j + 4"
      "kept j k" by blast
  have "jtagd_dispatch E D m j s = Inr (True, k, s)"
    using Cons.prems(1) k(1) by (simp add: dispatch_ack answer_def)
  moreover have "last_response k = -1" using k(4) Cons.prems(3) by (simp add: kept_def)
  moreover have "list_all (\<lambda>m. acknowledged (command m)) ms" using Cons.prems(1) by simp
  ultimately show ?case using Cons.IH [of k] k(2,3) by (auto simp: algebra_simps)
qed

lemma size_after_acks: "unat (2 + 4 * of_nat n :: byte) = 2 + 4 * (n mod 64)"
proof -
  have "unat (2 + 4 * of_nat n :: byte) = unat (of_nat (2 + 4 * n) :: byte)" by simp
  also have "\<dots> = (2 + 4 * n) mod 256" by (simp only: unat_of_nat) (simp add: take_bit_eq_mod)
  also have "2 + 4 * n = 2 + 4 * (n mod 64) + 256 * (n div 64)" using div_mult_mod_eq [of n 64] by linarith
  also have "(2 + 4 * (n mod 64) + 256 * (n div 64)) mod 256 = (2 + 4 * (n mod 64)) mod 256" by (rule mod_mult_self2)
  also have "\<dots> = 2 + 4 * (n mod 64)"
  proof -
    have "n mod 64 < 64" by simp
    then have "2 + 4 * (n mod 64) < 256" by linarith
    then show ?thesis by simp
  qed
  finally show ?thesis .
qed

lemma do_send_length:
  assumes "sock_accepts E" "length (send_buffer j) = BUFFER_SIZE"
  shows "\<exists>k t bs. do_send E mux j s = (k, t) \<and> net_out t = net_out s @ bs \<and> length bs = unat (send_buffer_size j)"
proof -
  let ?k = "fill_header mux j"
  have b: "length (send_buffer ?k) = BUFFER_SIZE" using assms(2) by (simp add: fill_header_def Let_def)
  have "unat (send_buffer_size ?k) < 256" using unsigned_less [of "send_buffer_size ?k"] by simp
  moreover obtain w where "write_full E (take (unat (send_buffer_size ?k)) (send_buffer ?k)) s =
      (True, s\<lparr>net_out := net_out s @ take (unat (send_buffer_size ?k)) (send_buffer ?k), world := w\<rparr>)" (is "_ = (True, ?t)")
    using write_full_accepted [OF assms(1)] by blast
  moreover have "send_buffer_size ?k = send_buffer_size j" by (simp add: fill_header_def Let_def)
  ultimately show ?thesis using b
    by (intro exI [of _ "?k\<lparr>send_buffer_size := 2\<rparr>"] exI [of _ ?t]
        exI [of _ "take (unat (send_buffer_size j)) (send_buffer ?k)"])
      (simp add: do_send_def BUFFER_SIZE_def Let_def)
qed

section \<open>Samples\<close>

definition sample_messages :: "Message list" where
  "sample_messages = [\<lparr>command = 0xA2, body = []\<rparr>, \<lparr>command = 0xFE, body = [0, 0, 0, 2]\<rparr>, \<lparr>command = 0x42, body = []\<rparr>]"

lemma jtagd_start_ready: "jtagd_ready jtagd_start"
  by (simp add: jtagd_ready_def jtagd_start_def)

lemma message_packet:
  assumes "0 < length (concat (map encode_message ms))" "length (concat (map encode_message ms)) \<le> 4000"
  shows "\<exists>r. read_socket (client_ext (jtagd_frame 0 (concat (map encode_message ms)))) ((mpsse_start ())\<lparr>client_fd := 4\<rparr>) =
      Inr (True, r) \<and> unread r = jtagd_frame 0 (concat (map encode_message ms)) @ []"
proof -
  let ?f = "jtagd_frame 0 (concat (map encode_message ms))"
  have "?f \<noteq> []" "length ?f \<le> BUFFER_SIZE"
    using assms by (simp_all add: jtagd_frame_def be16_bytes_def BUFFER_SIZE_def)
  from client_read_socket [OF mpsse_client_start(5,7,8) this] show ?thesis by auto
qed

section \<open>Properties\<close>

text \<open>
  C4: one request packet, one answer packet. When no earlier command is waiting and a complete packet on
  channel 0 has arrived, with at most one byte of the next behind it, that
  consists of commands other than 0x80, 0xA5, 0xA8, 0xC1, 0xC6, 0xC8 and 0xCA
  (\<open>batched\<close>: their answers wait for the end of the tick) and whose answers have at most 253 bytes together, so that
  they and the header fit the 8 bit fill level, then the tick consumes the packet whole and sends the client exactly one
  packet, on channel 0: the answers that the commands call for, in their order; unknown commands are
  answered with code 126. Devices and fifos are untouched and the server is ready again.
\<close>

theorem jtagd_batch_answered:
  assumes "sock_accepts E" "jtagd_ready j" "0 \<le> client_fd s" "buffer_inv s" "read_socket E s = Inr (True, r)"
    and "unread r = jtagd_frame 0 (concat (map encode_message ms)) @ rest" "length rest < 2"
    and "ms \<noteq> []" "length (concat (map encode_message ms)) \<le> 4096"
    and "list_all (\<lambda>m. batched (command m)) ms"
    and "length (concat (map (\<lambda>m. batched_reply (command m)) ms)) < 254"
  shows "\<exists>k t. jtag_jtagd_tick E D j s = Inr (k, t) \<and>
     net_out t = net_out s @ jtagd_frame 0 (concat (map (\<lambda>m. batched_reply (command m)) ms)) \<and>
     unread t = rest \<and> buffer_inv t \<and> jtagd_ready k \<and> devices k = devices j \<and> fifos k = fifos j"
proof -
  let ?reply = "concat (map (\<lambda>m. batched_reply (command m)) ms)"
  from tick_messages [OF assms(2-9), of D] obtain t where
    tick: "jtag_jtagd_tick E D j s = bindR (jtagd_handle E D ms (j\<lparr>send_buffer_size := 2, messages := ms\<rparr>) t)
        (\<lambda>(j, s). if 2 < unat (send_buffer_size j) then Inr (do_send E 0 j s) else Inr (j, s))"
      and t: "buffer_inv t" "unread t = rest" "net_out t = net_out s" by blast
  from assms(2) have "length (send_buffer j) = BUFFER_SIZE" by (simp add: jtagd_ready_def)
  from ready_filled [OF this] obtain a b where "filled (j\<lparr>send_buffer_size := 2\<rparr>) [a, b]" by blast
  then have f: "filled (j\<lparr>send_buffer_size := 2, messages := ms\<rparr>) [a, b]" by (simp add: filled_def)
  have l: "last_response (j\<lparr>send_buffer_size := 2, messages := ms\<rparr>) = -1" using assms(2) by (simp add: jtagd_ready_def)
  have "length [a, b] + length ?reply < 256" using assms(11) by simp
  from handle_batched [OF assms(10) f l this, of E D t] obtain k where
    k: "jtagd_handle E D ms (j\<lparr>send_buffer_size := 2, messages := ms\<rparr>) t = Inr (k, t)" "filled k (a # b # ?reply)"
      "last_response k = -1" "devices k = devices j" "fifos k = fifos j" "messages k = []" by auto
  from do_send_frame [OF k(2) assms(1), of 0 t] obtain l w where
    send: "do_send E 0 k t = (l, t\<lparr>net_out := net_out t @ jtagd_frame 0 ?reply, world := w\<rparr>)" "kept k l"
      "filled l (be16_bytes (compute_header (of_nat (length ?reply)) 0))" by blast
  obtain m ms' where "ms = m # ms'" using assms(8) by (cases ms) auto
  then have "4 \<le> length ?reply" using length_batched_reply [of "command m"]
    by (simp del: length_batched_reply add: trans_le_add1)
  moreover have "unat (send_buffer_size k) = 2 + length ?reply" using k(2) unfolding filled_def by simp
  ultimately have "2 < unat (send_buffer_size k)" by linarith
  then have "jtag_jtagd_tick E D j s = Inr (l, t\<lparr>net_out := net_out t @ jtagd_frame 0 ?reply, world := w\<rparr>)"
    unfolding tick k(1) by (simp add: send(1))
  moreover have "jtagd_ready l" "devices l = devices j" "fifos l = fifos j"
    using send(2,3) k by (simp_all add: kept_def filled_def jtagd_ready_def)
  ultimately show ?thesis using t by (simp add: buffer_inv_def unread_def)
qed

theorem jtagd_batch_answered_witness:
  "\<exists>k t. jtag_jtagd_tick (client_ext (jtagd_frame 0 (concat (map encode_message sample_messages))))
       (mpsse_driver (client_ext [])) jtagd_start ((mpsse_start ())\<lparr>client_fd := 4\<rparr>) = Inr (k, t) \<and>
     net_out t = [0, 15, 0, 0, 0, 4, 0, 0, 0, 8, 0, 0, 0, 1, 126, 0, 0, 4]"
proof -
  let ?s = "(mpsse_start ())\<lparr>client_fd := 4\<rparr>" and ?ms = sample_messages
  let ?E = "client_ext (jtagd_frame 0 (concat (map encode_message ?ms)))"
  have len: "length (concat (map encode_message ?ms)) = 16" by (simp add: sample_messages_def)
  then have l: "0 < length (concat (map encode_message ?ms))" "length (concat (map encode_message ?ms)) \<le> 4000"
    "length (concat (map encode_message ?ms)) \<le> 4096" by simp_all
  from message_packet [OF l(1,2)] obtain r where
    r: "read_socket ?E ?s = Inr (True, r)" "unread r = jtagd_frame 0 (concat (map encode_message ?ms)) @ []" by blast
  have b: "list_all (\<lambda>m. batched (command m)) ?ms" by (simp add: sample_messages_def batched_def)
  have reply: "concat (map (\<lambda>m. batched_reply (command m)) ?ms) = [0, 0, 0, 4, 0, 0, 0, 8, 0, 0, 0, 1, 126, 0, 0, 4]"
    by code_simp
  then have lr: "length (concat (map (\<lambda>m. batched_reply (command m)) ?ms)) < 254" by simp
  have ne: "?ms \<noteq> []" by (simp add: sample_messages_def)
  from jtagd_batch_answered [OF client_ext_facts(3) jtagd_start_ready mpsse_client_start(4,5) r _ ne l(3) b lr,
      of "mpsse_driver (client_ext [])"] obtain k t where
    t: "jtag_jtagd_tick ?E (mpsse_driver (client_ext [])) jtagd_start ?s = Inr (k, t)"
      "net_out t = jtagd_frame 0 (concat (map (\<lambda>m. batched_reply (command m)) ?ms))"
    unfolding mpsse_client_start(6) by auto
  have "jtagd_frame 0 [0, 0, 0, 4, 0, 0, 0, 8, 0, 0, 0, 1, 126, 0, 0, 4] =
      [0, 15, 0, 0, 0, 4, 0, 0, 0, 8, 0, 0, 0, 1, 126, 0, 0, 4]" by code_simp
  with t show ?thesis unfolding reply by (intro exI [of _ k] exI [of _ t]) simp
qed

text \<open>
  C23: what becomes of answers that do not fit. A packet of \<open>n\<close> commands that are only acknowledged has
  answers of \<open>4 * n\<close> bytes; because the fill level is kept in 8 bits, what is sent is as long as for
  \<open>n mod 64\<close> of them, and nothing at all when \<open>n\<close> is a multiple of 64.
\<close>

theorem jtagd_replies_wrap:
  assumes "sock_accepts E" "jtagd_ready j" "0 \<le> client_fd s" "buffer_inv s" "read_socket E s = Inr (True, r)"
    and "unread r = jtagd_frame 0 (concat (map encode_message ms)) @ rest" "length rest < 2"
    and "ms \<noteq> []" "length (concat (map encode_message ms)) \<le> 4096"
    and "list_all (\<lambda>m. acknowledged (command m)) ms"
  shows "\<exists>k t bs. jtag_jtagd_tick E D j s = Inr (k, t) \<and> net_out t = net_out s @ bs \<and>
     length bs = (if length ms mod 64 = 0 then 0 else 2 + 4 * (length ms mod 64))"
proof -
  let ?j = "j\<lparr>send_buffer_size := 2, messages := ms\<rparr>"
  from tick_messages [OF assms(2-9), of D] obtain t where
    tick: "jtag_jtagd_tick E D j s = bindR (jtagd_handle E D ms ?j t)
        (\<lambda>(j, s). if 2 < unat (send_buffer_size j) then Inr (do_send E 0 j s) else Inr (j, s))"
      and t: "net_out t = net_out s" by blast
  have "length (send_buffer ?j) = BUFFER_SIZE" "last_response ?j = -1" using assms(2) by (simp_all add: jtagd_ready_def)
  from handle_acks [OF assms(10) this] obtain k where
    k: "jtagd_handle E D ms ?j t = Inr (k, t)" "length (send_buffer k) = BUFFER_SIZE"
      "send_buffer_size k = 2 + 4 * of_nat (length ms)" by fastforce
  have size: "unat (send_buffer_size k) = 2 + 4 * (length ms mod 64)" unfolding k(3) by (rule size_after_acks)
  show ?thesis
  proof (cases "length ms mod 64 = 0")
    case True
    then have "\<not> 2 < unat (send_buffer_size k)" using size by simp
    then have "jtag_jtagd_tick E D j s = Inr (k, t)" unfolding tick k(1) by simp
    with True t show ?thesis by (intro exI [of _ k] exI [of _ t] exI [of _ "[]"]) simp
  next
    case False
    then have "2 < unat (send_buffer_size k)" using size by simp
    then have "jtag_jtagd_tick E D j s = Inr (do_send E 0 k t)" unfolding tick k(1) by simp
    with do_send_length [OF assms(1) k(2), of 0 t] False t size show ?thesis by auto
  qed
qed

theorem jtagd_replies_wrap_witness:
  "\<exists>k t. jtag_jtagd_tick (client_ext (jtagd_frame 0 (concat (map encode_message (replicate 64 \<lparr>command = 0xA2, body = []\<rparr>)))))
       (mpsse_driver (client_ext [])) jtagd_start ((mpsse_start ())\<lparr>client_fd := 4\<rparr>) = Inr (k, t) \<and> net_out t = []"
proof -
  let ?s = "(mpsse_start ())\<lparr>client_fd := 4\<rparr>" and ?ms = "replicate 64 \<lparr>command = 0xA2, body = []\<rparr>"
  let ?E = "client_ext (jtagd_frame 0 (concat (map encode_message ?ms)))"
  have len: "length (concat (map encode_message ?ms)) = 256" by (simp add: length_concat sum_list_replicate)
  then have l: "0 < length (concat (map encode_message ?ms))" "length (concat (map encode_message ?ms)) \<le> 4000"
    "length (concat (map encode_message ?ms)) \<le> 4096" by simp_all
  from message_packet [OF l(1,2)] obtain r where
    r: "read_socket ?E ?s = Inr (True, r)" "unread r = jtagd_frame 0 (concat (map encode_message ?ms)) @ []" by blast
  have a: "list_all (\<lambda>m. acknowledged (command m)) ?ms" by (simp add: list_all_iff acknowledged_def)
  have ne: "?ms \<noteq> []" by simp
  from jtagd_replies_wrap [OF client_ext_facts(3) jtagd_start_ready mpsse_client_start(4,5) r _ ne l(3) a,
      of "mpsse_driver (client_ext [])"] show ?thesis
    unfolding mpsse_client_start(6) by auto
qed

text \<open>
  C32: a new client. A tick without a client either stays without one or accepts one; an accepted client
  is greeted with the signature, the server version 13 and the authentication type 0 in one packet.
  Whatever messages \<open>messages j\<close> the previous client left in the queue are dropped, but not what it left in the fifos,
  nor the devices.
\<close>

theorem jtagd_greets_client:
  assumes "sock_accepts E" "length (send_buffer j) = BUFFER_SIZE" "last_response j = -1"
    and "client_fd s < 0" "try_accept E s = (ok, a)"
  shows "\<exists>k t. jtag_jtagd_tick E D j s = Inr (k, t) \<and> messages k = [] \<and> jtagd_ready k \<and> devices k = devices j \<and> fifos k = fifos j \<and>
     client_fd t = client_fd a \<and>
     net_out t = net_out a @ (if ok then jtagd_frame 0 ((13 # ascii (''JTAG Server'' @ [CHR 0x0D, CHR 0x0A])) @
       be32_bytes 13 @ be32_bytes 0) else [])"
proof (cases ok)
  case False
  with assms(4,5) have "jtag_jtagd_tick E D j s = Inr (j\<lparr>send_buffer_size := 2, messages := []\<rparr>, a)"
    by (simp add: jtag_jtagd_tick_def)
  with False assms(2,3) show ?thesis by (simp add: jtagd_ready_def)
next
  case True
  let ?j = "j\<lparr>send_buffer_size := 2, messages := []\<rparr>" and ?sig = "ascii (''JTAG Server'' @ [CHR 0x0D, CHR 0x0A])"
  let ?hello = "(13 # ?sig) @ be32_bytes 13 @ be32_bytes 0"
  from ready_filled [OF assms(2)] obtain x y where "filled (j\<lparr>send_buffer_size := 2\<rparr>) [x, y]" by blast
  then have f: "filled ?j [x, y]" by (simp add: filled_def)
  have "appends (add_string ?sig) (13 # ?sig)" using appends_string [of ?sig] by (simp add: ascii_def)
  then have "appends (emit [add_string ?sig, add_int 13, add_int 0]) ((13 # ?sig) @ be32_bytes 13 @ be32_bytes 0 @ [])"
    by (intro appends_intros)
  then have app: "appends (emit [add_string ?sig, add_int 13, add_int 0]) ?hello" by simp
  have "length [x, y] + length ?hello < 256" by (simp add: ascii_def)
  with app f obtain k where
    k: "emit [add_string ?sig, add_int 13, add_int 0] ?j = Inr k" "filled k (x # y # ?hello)" "kept ?j k"
    unfolding appends_def by fastforce
  from do_send_frame [OF k(2) assms(1), of 0 a] obtain l w where
    send: "do_send E 0 k a = (l, a\<lparr>net_out := net_out a @ jtagd_frame 0 ?hello, world := w\<rparr>)" "kept k l"
      "filled l (be16_bytes (compute_header (of_nat (length ?hello)) 0))" by blast
  have "jtagd_hello E ?j a = Inr (l, a\<lparr>net_out := net_out a @ jtagd_frame 0 ?hello, world := w\<rparr>)"
    unfolding jtagd_hello_def k(1) bindR_simps send(1) ..
  then have "jtag_jtagd_tick E D j s = Inr (l, a\<lparr>net_out := net_out a @ jtagd_frame 0 ?hello, world := w\<rparr>)"
    using True assms(4,5) by (simp add: jtag_jtagd_tick_def)
  moreover have "messages l = []" "jtagd_ready l" "devices l = devices j" "fifos l = fifos j"
    using k(3) send(2,3) assms(3) by (simp_all add: kept_def jtagd_ready_def filled_def)
  ultimately show ?thesis using True by simp
qed

theorem jtagd_greets_client_witness:
  "\<exists>k t. jtag_jtagd_tick (queue_ext 1) (mpsse_driver (queue_ext 1)) (jtagd_start\<lparr>messages := sample_messages\<rparr>)
       (mpsse_start ([], [])) = Inr (k, t) \<and>
     messages k = [] \<and> client_fd t = 4 \<and> take 15 (net_out t) = 0 # 21 # 13 # ascii ''JTAG Server'' @ [0x0D]"
proof -
  let ?j = "jtagd_start\<lparr>messages := sample_messages\<rparr>"
  have acc: "sock_accepts (queue_ext 1)" by (auto simp: sock_accepts_def queue_ext_def)
  obtain a where a: "try_accept (queue_ext 1) (mpsse_start ([], [])) = (True, a)" "client_fd a = 4" "net_out a = []"
    by (simp add: try_accept_def call_sock_def queue_ext_def mpsse_start_def process_start_def common_state.defs)
  have fd: "client_fd (mpsse_start ([], [])) < 0" by (simp add: mpsse_start_def process_start_def common_state.defs)
  have j: "length (send_buffer ?j) = BUFFER_SIZE" "last_response ?j = -1" by (simp_all add: jtagd_start_def)
  from jtagd_greets_client [OF acc j fd a(1), of "mpsse_driver (queue_ext 1)"] a(2,3) obtain k t where
    t: "jtag_jtagd_tick (queue_ext 1) (mpsse_driver (queue_ext 1)) ?j (mpsse_start ([], [])) = Inr (k, t)"
      "messages k = []" "client_fd t = 4" "net_out t = jtagd_frame 0 ((13 # ascii (''JTAG Server'' @ [CHR 0x0D, CHR 0x0A])) @
         be32_bytes 13 @ be32_bytes 0)" by auto
  have "take 15 (jtagd_frame 0 ((13 # ascii (''JTAG Server'' @ [CHR 0x0D, CHR 0x0A])) @ be32_bytes 13 @ be32_bytes 0)) =
      0 # 21 # 13 # ascii ''JTAG Server'' @ [0x0D]" by code_simp
  with t show ?thesis by (intro exI [of _ k] exI [of _ t]) simp
qed

end
