(* ===== verification/Jtagd_Drivers.thy ===== *)
theory Jtagd_Drivers
  imports Jtagd_Batch
begin

text \<open>
  The commands of the jtagd server (src/jtagd.cpp) that use the adapter: reading the chain, access to
  the instruction register and to the data register, on any driver that keeps its contract and
  on \<open>mpsse_driver\<close>.
\<close>

section \<open>Sending answers\<close>

definition jtagd_idle :: "jtagd_state \<Rightarrow> bool" where
  "jtagd_idle j \<longleftrightarrow> last_response j = -1 \<and> (\<exists>a b. filled j [a, b])"

lemma idle_after_send: "filled k (be16_bytes w) \<Longrightarrow> last_response k = -1 \<Longrightarrow> jtagd_idle k"
  by (auto simp: jtagd_idle_def be16_bytes_def)

lemma idle_response:
  assumes "jtagd_idle j" "appends (emit fs) d" "length d \<le> 249"
  shows "\<exists>k a b. emit (add_response code # fs @ [end_response]) j = Inr k \<and> filled k (a # b # response code d) \<and>
     last_response k = -1 \<and> kept j k"
proof -
  from assms(1) obtain a b where f: "filled j [a, b]" "last_response j = -1" by (auto simp: jtagd_idle_def)
  have "length [a, b] + 4 + length d < 256" using assms(3) by simp
  from emit_response [OF f assms(2) this, of code] f(2) show ?thesis by (auto simp: kept_def)
qed

lemma idle_appends:
  assumes "jtagd_idle j" "appends f d" "length d \<le> 253"
  shows "\<exists>k a b. f j = Inr k \<and> filled k (a # b # d) \<and> last_response k = -1 \<and> kept j k"
proof -
  from assms(1) obtain a b where f: "filled j [a, b]" "last_response j = -1" by (auto simp: jtagd_idle_def)
  have "filled j [a, b] \<and> length [a, b] + length d < 256" using f(1) assms(3) by simp
  with assms(2) f(2) show ?thesis unfolding appends_def by (fastforce simp: kept_def)
qed

lemma send_idle:
  assumes "filled j (a # b # payload)" "last_response j = -1" "sock_accepts E"
  shows "\<exists>k w. do_send E mux j s = (k, s\<lparr>net_out := net_out s @ jtagd_frame mux payload, world := w\<rparr>) \<and>
     jtagd_idle k \<and> kept j k"
proof -
  from do_send_frame [OF assms(1,3), of mux s] obtain k w where
    k: "do_send E mux j s = (k, s\<lparr>net_out := net_out s @ jtagd_frame mux payload, world := w\<rparr>)"
      "filled k (be16_bytes (compute_header (of_nat (length payload)) mux))" "kept j k" by blast
  from idle_after_send [OF k(2)] k assms(2) show ?thesis by (auto simp: kept_def)
qed

lemma answer_send_idle:
  assumes "jtagd_idle j" "appends (emit fs) d" "length d \<le> 249" "sock_accepts E"
  shows "\<exists>k w. answer_send E (add_response code # fs @ [end_response]) j s =
       Inr (True, k, s\<lparr>net_out := net_out s @ jtagd_frame 0 (response code d), world := w\<rparr>) \<and> jtagd_idle k \<and> kept j k"
proof -
  from idle_response [OF assms(1-3), of code] obtain k a b where
    k: "emit (add_response code # fs @ [end_response]) j = Inr k" "filled k (a # b # response code d)"
      "last_response k = -1" "kept j k" by blast
  from send_idle [OF k(2,3) assms(4), of 0 s] obtain l w where
    l: "do_send E 0 k s = (l, s\<lparr>net_out := net_out s @ jtagd_frame 0 (response code d), world := w\<rparr>)"
      "jtagd_idle l" "kept k l" by blast
  with k kept_trans [OF k(4) l(3)] show ?thesis
    by (intro exI [of _ l] exI [of _ w]) (simp add: answer_send_def del: emit.simps)
qed

section \<open>Reading the chain\<close>

definition device_bytes :: "32 word \<Rightarrow> byte list" where
  "device_bytes idcode = be32_bytes idcode @ be32_bytes 10 @ be32_bytes 0 @ be32_bytes 0 @ be32_bytes 0 @
     (7 # ascii ''device0'')"

definition chain_reply :: "32 word list \<Rightarrow> byte list" where
  "chain_reply ids = jtagd_frame 0 (response 0 (be32_bytes 1 @ be32_bytes (of_nat (length ids)) @
       be32_bytes (of_nat (28 * length ids)))) @
     jtagd_frame (of_nat FIFO_MIN) (concat (map device_bytes ids))"

lemma length_device_bytes [simp]: "length (device_bytes w) = 28"
  by (simp add: device_bytes_def ascii_def)

lemma appends_device: "appends (emit (jtagd_device w)) (device_bytes w)"
proof -
  have "appends (add_string (ascii ''device0'')) (7 # ascii ''device0'')"
    using appends_string [of "ascii ''device0''"] by (simp add: ascii_def)
  then have "appends (emit (jtagd_device w)) (be32_bytes w @ be32_bytes 10 @ be32_bytes 0 @ be32_bytes 0 @ be32_bytes 0 @
     (7 # ascii ''device0'') @ [])"
    unfolding jtagd_device_def by (intro appends_intros)
  then show ?thesis by (simp add: device_bytes_def)
qed

section \<open>The data register\<close>

lemma ack_send:
  assumes "jtagd_idle j" "sock_accepts E"
  shows "\<exists>k l w. emit [add_response 0, end_response] j = Inr k \<and>
     do_send E 0 k s = (l, s\<lparr>net_out := net_out s @ jtagd_frame 0 (response 0 []), world := w\<rparr>) \<and>
     jtagd_idle l \<and> kept j l"
proof -
  from idle_response [OF assms(1) appends_emit_Nil, of 0] obtain k a b where
    k: "emit [add_response 0, end_response] j = Inr k" "filled k (a # b # response 0 [])" "last_response k = -1" "kept j k"
    by auto
  from send_idle [OF k(2,3) assms(2), of 0 s] k(1,4) show ?thesis by (blast intro: kept_trans)
qed

lemma appends_array:
  assumes "n \<le> length data"
  shows "appends (add_array data n) (take n data)"
  by (rule appends_cong [OF appends_put]) (use assms in \<open>simp add: add_array_def BUFFER_SIZE_def\<close>)

definition dr_data :: "jtagd_state \<Rightarrow> nat \<Rightarrow> byte list" where
  "dr_data j n = write_at (replicate BUFFER_SIZE 0) 0 (take n (concat (map le32_bytes (fifos j FIFO_MIN))))"

definition dr_reply :: "byte list \<Rightarrow> byte list" where
  "dr_reply data = jtagd_frame 0 (response 0 []) @ (if data = [] then [] else jtagd_frame (of_nat FIFO_MIN) data)"

lemma do_send_keeps:
  assumes "sockets_keep E port" "do_send E mux j s = (k, t)"
  shows "port (world t) = port (world s)"
  using write_full_keeps [OF assms(1), of _ s] assms(2) by (auto simp: do_send_def Let_def)

lemma answer_send_keeps:
  assumes "sockets_keep E port" "answer_send E fs j s = Inr (ok, k, t)"
  shows "port (world t) = port (world s)"
  using assms(2) do_send_keeps [OF assms(1)] by (auto simp: answer_send_def result_iff split: prod.splits)

text \<open>\<open>shows_tdo f h v bs n\<close>: the first \<open>n\<close> bits of \<open>bs\<close> are TDO levels of the target \<open>f\<close> in the cycles \<open>v\<close>.\<close>

definition shows_tdo :: "target \<Rightarrow> (bool \<times> bool option) list \<Rightarrow> (bool \<times> bool option) list \<Rightarrow> byte list \<Rightarrow> nat \<Rightarrow> bool" where
  "shows_tdo f h v bs n \<longleftrightarrow> (\<forall>i < n. i < 8 * length bs \<longrightarrow> bit_at bs i = f (h @ take i v))"

lemma shows_tdo_bits:
  assumes "bits_of bs n = tdo_bits f h v"
  shows "shows_tdo f h v (take k bs) n"
proof -
  have "length v = n" using arg_cong [OF assms, of length] by simp
  then have "bit_at bs i = f (h @ take i v)" if "i < n" for i
    using arg_cong [OF assms, of "\<lambda>x. x ! i"] that by simp
  then show ?thesis by (auto simp: shows_tdo_def bit_at_take)
qed

section \<open>Reading the chain\<close>

lemma read_chain_sends:
  assumes "jtag_probe_devices E D s = Inr (ids, t)" "length ids \<le> 7" "sock_accepts E" "jtagd_idle j"
  shows "\<exists>k u. jtagd_read_chain E D j s = Inr (True, k, t\<lparr>net_out := net_out t @ chain_reply ids, world := u\<rparr>) \<and>
     jtagd_idle k \<and> devices k = ids \<and> (sockets_keep E port \<longrightarrow> port u = port (world t))"
proof -
  let ?j = "j\<lparr>devices := ids\<rparr>" and ?d = "be32_bytes 1 @ be32_bytes (of_nat (length ids)) @ be32_bytes (of_nat (28 * length ids))"
  have len: "length ids * (4 + 4 + 4 + 4 + 4 + 1 + length (ascii ''device0'')) = 28 * length ids" by (simp add: ascii_def)
  have j: "jtagd_idle ?j" using assms(4) by (simp add: jtagd_idle_def filled_def)
  have "appends (emit [add_int 1, add_int (of_nat (length ids)), add_int (of_nat (28 * length ids))])
      (be32_bytes 1 @ be32_bytes (of_nat (length ids)) @ be32_bytes (of_nat (28 * length ids)) @ [])"
    by (intro appends_intros)
  then have app: "appends (emit [add_int 1, add_int (of_nat (length ids)), add_int (of_nat (28 * length ids))]) ?d" by simp
  from idle_response [OF j app, of 0] obtain k a b where
    k: "emit [add_response 0, add_int 1, add_int (of_nat (length ids)), add_int (of_nat (28 * length ids)), end_response] ?j = Inr k"
      "filled k (a # b # response 0 ?d)" "last_response k = -1" "kept ?j k" by auto
  from send_idle [OF k(2,3) assms(3), of 0 t] obtain l w where
    l: "do_send E 0 k t = (l, t\<lparr>net_out := net_out t @ jtagd_frame 0 (response 0 ?d), world := w\<rparr>)"
      "jtagd_idle l" "kept k l" by blast
  let ?t = "t\<lparr>net_out := net_out t @ jtagd_frame 0 (response 0 ?d), world := w\<rparr>"
  have dl: "devices l = ids" using k(4) l(3) by (simp add: kept_def)
  have app2: "appends (emit (concat (map jtagd_device ids))) (concat (map device_bytes ids))"
    by (rule appends_emit_concat) (rule appends_device)
  have "length (concat (map device_bytes ids)) \<le> 253"
    using assms(2) by (simp add: length_concat comp_def sum_list_triv)
  from idle_appends [OF l(2) app2 this] obtain m c d where
    m: "emit (concat (map jtagd_device ids)) l = Inr m" "filled m (c # d # concat (map device_bytes ids))"
      "last_response m = -1" "kept l m" by blast
  from send_idle [OF m(2,3) assms(3), of "of_nat FIFO_MIN" ?t] obtain n v where
    n: "do_send E (of_nat FIFO_MIN) m ?t =
        (n, ?t\<lparr>net_out := net_out ?t @ jtagd_frame (of_nat FIFO_MIN) (concat (map device_bytes ids)), world := v\<rparr>)"
      "jtagd_idle n" "kept m n" by blast
  have "jtagd_read_chain E D j s = Inr (True, n,
      ?t\<lparr>net_out := net_out ?t @ jtagd_frame (of_nat FIFO_MIN) (concat (map device_bytes ids)), world := v\<rparr>)"
    unfolding jtagd_read_chain_def assms(1) bindR_simps Let_def prod.case len k(1) l(1) dl m(1) n(1) ..
  moreover have "devices n = ids" using dl m(4) n(3) by (simp add: kept_def)
  moreover have "port v = port (world t)" if "sockets_keep E port"
    using do_send_keeps [OF that n(1)] do_send_keeps [OF that l(1)] by simp
  ultimately show ?thesis using n(2)
    by (intro exI [of _ n] exI [of _ v]) (simp add: chain_reply_def)
qed

section \<open>On a driver\<close>

text \<open>The sizes of an access to the data register, what it takes from the fifo, and its answer.\<close>

lemma dr_bytes: "unat read_length \<le> 2024 \<Longrightarrow> unat ((read_length + 7) div 8) = (unat (read_length :: 32 word) + 7) div 8"
  by (simp add: unat_div unat_plus_if_size word_size)

lemma dr_pop:
  fixes write_length :: "32 word"
  assumes "unat write_length div 8 \<le> length (fifos j FIFO_MIN)" "unat write_length div 8 \<le> BUFFER_SIZE"
  shows "length (dr_data j (unat write_length div 8)) = BUFFER_SIZE"
    and "pop_fifo (replicate BUFFER_SIZE 0) (unat (write_length div 8)) j =
      Inr (True, dr_data j (unat write_length div 8),
        j\<lparr>fifos := (fifos j)(FIFO_MIN := drop (unat write_length div 8) (fifos j FIFO_MIN))\<rparr>)"
proof -
  have "unat write_length div 8 \<le> 4 * length (fifos j FIFO_MIN)" using assms(1) by simp
  then show "length (dr_data j (unat write_length div 8)) = BUFFER_SIZE"
    using assms(2) by (simp add: dr_data_def length_concat comp_def sum_list_triv min_def)
  have "unat (write_length div 8) = unat write_length div 8" by (simp add: unat_div)
  then show "pop_fifo (replicate BUFFER_SIZE 0) (unat (write_length div 8)) j =
      Inr (True, dr_data j (unat write_length div 8),
        j\<lparr>fifos := (fifos j)(FIFO_MIN := drop (unat write_length div 8) (fifos j FIFO_MIN))\<rparr>)"
    using assms by (simp add: pop_fifo_def dr_data_def)
qed

lemma dr_answer:
  assumes "jtagd_idle l" "k \<le> length rb" "k \<le> 253" "sock_accepts E"
  shows "\<exists>m x u. add_array rb k l = Inr m \<and> do_send E (of_nat FIFO_MIN) m t =
      (x, t\<lparr>net_out := net_out t @ jtagd_frame (of_nat FIFO_MIN) (take k rb), world := u\<rparr>) \<and> jtagd_idle x \<and> kept l x"
proof -
  have "length (take k rb) \<le> 253" using assms(3) by simp
  from idle_appends [OF assms(1) appends_array [OF assms(2)] this] obtain m c d where
    m: "add_array rb k l = Inr m" "filled m (c # d # take k rb)" "last_response m = -1" "kept l m" by blast
  from send_idle [OF m(2,3) assms(4), of "of_nat FIFO_MIN" t] obtain x u where
    "do_send E (of_nat FIFO_MIN) m t =
      (x, t\<lparr>net_out := net_out t @ jtagd_frame (of_nat FIFO_MIN) (take k rb), world := u\<rparr>)" "jtagd_idle x" "kept m x" by blast
  with m(1,4) kept_trans show ?thesis by blast
qed

context jtag_driver
begin

lemma read_chain_drives:
  assumes "live" "sock_accepts E" "drv_inv s" "can_send s" "tracks wire s" "jtagd_idle j"
  shows "\<exists>ids k t u cyc. jtagd_read_chain E D j s = Inr (True, k, t\<lparr>net_out := net_out s @ chain_reply ids, world := u\<rparr>) \<and>
     drives drv_inv can_send wire s cyc t \<and> jtagd_idle k \<and> devices k = ids \<and> length ids \<le> 7 \<and>
     state t = (if ids = [] then Exit1DR else TestLogicReset)"
proof -
  from probe_drives [OF assms(1,3-5), of E] obtain ids t cyc where
    t: "jtag_probe_devices E D s = Inr (ids, t)" "length ids \<le> 7" "drives drv_inv can_send wire s cyc t"
      "state t = (if ids = [] then Exit1DR else TestLogicReset)" by blast
  from read_chain_sends [OF t(1,2) assms(2,6)] obtain k u where
    "jtagd_read_chain E D j s = Inr (True, k, t\<lparr>net_out := net_out t @ chain_reply ids, world := u\<rparr>)"
    "jtagd_idle k" "devices k = ids" by blast
  moreover have "net_out t = net_out s" using t(3) by (simp add: drives_def same_host_def)
  ultimately show ?thesis using t by (intro exI [of _ ids] exI [of _ k] exI [of _ t] exI [of _ u] exI [of _ cyc]) simp
qed

lemma access_ir_drives:
  assumes "live" "sock_accepts E" "drv_inv s" "can_send s" "tracks wire s" "jtagd_idle j"
    and "jtag_get_tms_seq (state s) ShiftIR = Inr p" "body_word m 12 = Inr instruction"
  shows "\<exists>x k t u path. jtagd_access_ir E D m j s =
       Inr (True, k, t\<lparr>net_out := net_out s @ jtagd_frame 0 (response 0 (be32_bytes x)), world := u\<rparr>) \<and>
     drives drv_inv can_send wire s (path @ scan_cycles (le32_bytes instruction) 10 True True) t \<and>
     run_tap (state s) (tms_bits path) = ShiftIR \<and> state t = Exit1IR \<and> jtagd_idle k \<and> kept j k \<and>
     (\<forall>f. target = Some f \<longrightarrow> shows_tdo f (history (wire s @ path))
        (tap_view ShiftIR (scan_cycles (le32_bytes instruction) 10 True True)) (le32_bytes x) 10) \<and>
     (sockets_keep E port \<longrightarrow> port u = port (world t))"
proof -
  from tms_seq_to_drives [OF assms(1,3-5,7)] obtain a path where
    a: "jtag_tms_seq_to D ShiftIR s = Inr (True, a)" "drives drv_inv can_send wire s path a" "state a = ShiftIR" by blast
  have sh: "shifting (state a)" by (simp add: a(3) shifting_def)
  have n: "0 < (10 :: nat)" "10 \<le> 8 * length (le32_bytes instruction)" "10 \<le> SCAN_LIMIT" "10 \<le> 8 * length (replicate 4 (0 :: byte))"
    by (simp_all add: SCAN_LIMIT_def)
  from scan_chain_drives [OF assms(1) drivesD(1-3) [OF a(2)] sh n, of True True] obtain rb t where
    t: "jtag_scan_chain D (le32_bytes instruction) (replicate 4 0) 10 True True a = Inr (True, rb, t)"
      "drives drv_inv can_send wire a (scan_cycles (le32_bytes instruction) 10 True True) t" "length rb = 4"
    and seen: "\<forall>f. target = Some f \<longrightarrow> bits_of rb 10 = tdo_bits f (history (wire a))
        (tap_view (state a) (scan_cycles (le32_bytes instruction) 10 True True))" by auto
  have "le32_bytes (load_le32 rb) = rb" by (rule le32_bytes_load [OF t(3)])
  then have shown: "\<forall>f. target = Some f \<longrightarrow> shows_tdo f (history (wire s @ path))
        (tap_view ShiftIR (scan_cycles (le32_bytes instruction) 10 True True)) (le32_bytes (load_le32 rb)) 10"
    using seen shows_tdo_bits [of rb 10 _ _ _ 4] a(2,3) t(3) by (auto simp: drives_def)
  have st: "state t = Exit1IR" using flip_scan_state [OF t(2) drivesD(3) [OF a(2)] sh n(1)] a(3) by simp
  have "appends (emit [add_int (load_le32 rb)]) (be32_bytes (load_le32 rb) @ [])" by (intro appends_intros)
  then have app: "appends (emit [add_int (load_le32 rb)]) (be32_bytes (load_le32 rb))" by simp
  from answer_send_idle [OF assms(6) app _ assms(2), of 0 t] obtain k w where
    k: "answer_send E [add_response 0, add_int (load_le32 rb), end_response] j t =
       Inr (True, k, t\<lparr>net_out := net_out t @ jtagd_frame 0 (response 0 (be32_bytes (load_le32 rb))), world := w\<rparr>)"
      "jtagd_idle k" "kept j k" by auto
  have keep: "port w = port (world t)" if "sockets_keep E port" using answer_send_keeps [OF that k(1)] by simp
  have "net_out t = net_out s" using a(2) t(2) by (simp add: drives_def same_host_def)
  moreover have "run_tap (state s) (tms_bits path) = ShiftIR" using drives_state [OF assms(5) a(2)] a(3) by simp
  ultimately show ?thesis using drives_trans [OF a(2) t(2)] st k shown keep
    by (intro exI [of _ "load_le32 rb"] exI [of _ k] exI [of _ t] exI [of _ w] exI [of _ path])
      (simp add: jtagd_access_ir_def assms(8) a(1) t(1))
qed

lemma access_dr_drives:
  assumes "live" "sock_accepts E" "drv_inv s" "can_send s" "tracks wire s" "jtagd_idle j"
    and "jtag_get_tms_seq (state s) ShiftDR = Inr p"
    and "body_word m 12 = Inr length_dr" "body_word m 20 = Inr write_length" "body_word m 28 = Inr read_length"
    and "unat write_length div 8 \<le> length (fifos j FIFO_MIN)" "unat write_length div 8 \<le> BUFFER_SIZE"
    and "0 < length_dr" "unat length_dr \<le> SCAN_LIMIT" "unat read_length \<le> 2024"
  shows "\<exists>data k t u path. jtagd_access_dr E D m j s =
       Inr (True, k, t\<lparr>net_out := net_out s @ dr_reply data, world := u\<rparr>) \<and>
     drives drv_inv can_send wire s
       (path @ scan_cycles (dr_data j (unat write_length div 8)) (unat length_dr) True True) t \<and>
     run_tap (state s) (tms_bits path) = ShiftDR \<and> state t = Exit1DR \<and>
     length data = (unat read_length + 7) div 8 \<and> jtagd_idle k \<and>
     fifos k = (fifos j)(FIFO_MIN := drop (unat write_length div 8) (fifos j FIFO_MIN)) \<and>
     (\<forall>f. target = Some f \<longrightarrow> shows_tdo f (history (wire s @ path))
        (tap_view ShiftDR (scan_cycles (dr_data j (unat write_length div 8)) (unat length_dr) True True)) data (unat length_dr)) \<and>
     (sockets_keep E port \<longrightarrow> port u = port (world t))"
proof -
  let ?w = "unat write_length div 8" and ?r = "(unat read_length + 7) div 8"
  let ?j = "j\<lparr>fifos := (fifos j)(FIFO_MIN := drop ?w (fifos j FIFO_MIN))\<rparr>"
  note r = dr_bytes [OF assms(15)] and send = dr_pop(1) [OF assms(11,12)] and pop = dr_pop(2) [OF assms(11,12)]
  have idle: "jtagd_idle ?j" using assms(6) by (simp add: jtagd_idle_def filled_def)
  from tms_seq_to_drives [OF assms(1,3-5,7)] obtain a path where
    a: "jtag_tms_seq_to D ShiftDR s = Inr (True, a)" "drives drv_inv can_send wire s path a" "state a = ShiftDR" by blast
  have sh: "shifting (state a)" by (simp add: a(3) shifting_def)
  have n: "0 < unat length_dr" using assms(13) by (simp add: unat_gt_0 word_neq_0_conv)
  have lim: "unat length_dr \<le> 8 * length (dr_data j ?w)" "unat length_dr \<le> 8 * length (replicate BUFFER_SIZE (0 :: byte))"
    using assms(14) unfolding send by (simp_all add: SCAN_LIMIT_def BUFFER_SIZE_def)
  from scan_chain_drives [OF assms(1) drivesD(1-3) [OF a(2)] sh n lim(1) assms(14) lim(2), of True True] obtain rb t where
    t: "jtag_scan_chain D (dr_data j ?w) (replicate BUFFER_SIZE 0) (unat length_dr) True True a = Inr (True, rb, t)"
      "length rb = BUFFER_SIZE" "drives drv_inv can_send wire a (scan_cycles (dr_data j ?w) (unat length_dr) True True) t"
    and seen: "\<forall>f. target = Some f \<longrightarrow> bits_of rb (unat length_dr) = tdo_bits f (history (wire a))
        (tap_view (state a) (scan_cycles (dr_data j ?w) (unat length_dr) True True))"
    using n lim(2) by auto
  have shown: "target = Some f \<Longrightarrow> shows_tdo f (history (wire s @ path))
        (tap_view ShiftDR (scan_cycles (dr_data j ?w) (unat length_dr) True True)) (take k rb) (unat length_dr)" for f k
    using seen shows_tdo_bits [of rb "unat length_dr"] a(2,3) by (simp add: drives_def)
  have st: "state t = Exit1DR" using flip_scan_state [OF t(3) drivesD(3) [OF a(2)] sh n] a(3) by simp
  have net: "net_out t = net_out s" using a(2) t(3) by (simp add: drives_def same_host_def)
  have path: "run_tap (state s) (tms_bits path) = ShiftDR" using drives_state [OF assms(5) a(2)] a(3) by simp
  note drives = drives_trans [OF a(2) t(3)]
  from ack_send [OF idle assms(2), of t] obtain k l v where
    k: "emit [add_response 0, end_response] ?j = Inr k"
      "do_send E 0 k t = (l, t\<lparr>net_out := net_out t @ jtagd_frame 0 (response 0 []), world := v\<rparr>)"
      "jtagd_idle l" "kept ?j l" by blast
  let ?t = "t\<lparr>net_out := net_out t @ jtagd_frame 0 (response 0 []), world := v\<rparr>"
  have keep: "port v = port (world t)" if "sockets_keep E port" using do_send_keeps [OF that k(2)] by simp
  note body = jtagd_access_dr_def assms(8-10) bindR_simps pop prod.case simp_thms if_False if_True a(1) t(1) k(1,2) r
  show ?thesis
  proof (cases "0 < read_length")
    case False
    then have "read_length = 0" by (simp add: word_gt_0)
    then have z: "?r = 0" by simp
    have "jtagd_access_dr E D m j s = Inr (True, l, ?t)" using False by (simp only: body)
    then show ?thesis using z drives st path net k(3,4) keep
      by (intro exI [of _ "[]"] exI [of _ l] exI [of _ t] exI [of _ v] exI [of _ path])
        (simp add: dr_reply_def kept_def shows_tdo_def)
  next
    case True
    then have "0 < unat read_length" by (simp add: unat_gt_0 word_neq_0_conv)
    then have pos: "0 < ?r" by simp
    have rl: "?r \<le> 253" using assms(15) by linarith
    then have le: "?r \<le> length rb" unfolding t(2) by (simp add: BUFFER_SIZE_def)
    from dr_answer [OF k(3) le rl assms(2), of ?t] obtain m2 x u where
      x: "add_array rb ?r l = Inr m2" "do_send E (of_nat FIFO_MIN) m2 ?t =
        (x, ?t\<lparr>net_out := net_out ?t @ jtagd_frame (of_nat FIFO_MIN) (take ?r rb), world := u\<rparr>)"
        "jtagd_idle x" "kept l x" by blast
    have "jtagd_access_dr E D m j s = Inr (True, x,
        ?t\<lparr>net_out := net_out ?t @ jtagd_frame (of_nat FIFO_MIN) (take ?r rb), world := u\<rparr>)"
      using True by (simp only: body x(1,2))
    moreover have "take ?r rb \<noteq> []" "length (take ?r rb) = ?r" using pos le by auto
    moreover have "fifos x = fifos ?j" using k(4) x(4) by (simp add: kept_def)
    moreover have "port u = port (world t)" if "sockets_keep E port"
      using do_send_keeps [OF that x(2)] keep [OF that] by simp
    ultimately show ?thesis using drives st path net x(3) shown [of _ ?r]
      by (intro exI [of _ "take ?r rb"] exI [of _ x] exI [of _ t] exI [of _ u] exI [of _ path])
        (simp add: dr_reply_def)
  qed
qed

end

lemma access_ir_stuck:
  assumes "state s = Exit1IR \<or> state s = Exit1DR" "body_word m 12 = Inr instruction"
  shows "jtagd_access_ir E D m j s = Inl AssertionFailed"
  using assms by (auto simp: jtagd_access_ir_def jtag_tms_seq_to_def jtag_get_tms_seq_def)

text \<open>The states from which the table has a way to a shift state, and what an access does from the others.\<close>

lemma ways_to_shift_ir:
  "st \<in> {TestLogicReset, RunTestIdle, ShiftIR} \<Longrightarrow> \<exists>p. jtag_get_tms_seq st ShiftIR = Inr p"
  "st \<notin> {TestLogicReset, RunTestIdle, ShiftIR} \<Longrightarrow> jtag_get_tms_seq st ShiftIR = Inl AssertionFailed"
  by (auto simp: jtag_get_tms_seq_def)

lemma ways_to_shift_dr:
  "st \<in> {TestLogicReset, RunTestIdle, Exit1IR, ShiftDR} \<Longrightarrow> \<exists>p. jtag_get_tms_seq st ShiftDR = Inr p"
  "st \<notin> {TestLogicReset, RunTestIdle, Exit1IR, ShiftDR} \<Longrightarrow> jtag_get_tms_seq st ShiftDR = Inl AssertionFailed"
  by (auto simp: jtag_get_tms_seq_def)

lemma access_ir_faults:
  assumes "command m = 0xC6"
  shows "body_word m 12 = Inl e \<Longrightarrow> jtagd_dispatch E D m j s = Inl e"
    and "body_word m 12 = Inr instruction \<Longrightarrow> jtag_get_tms_seq (state s) ShiftIR = Inl e \<Longrightarrow> jtagd_dispatch E D m j s = Inl e"
  using assms by (simp_all add: jtagd_dispatch_def jtagd_access_ir_def jtag_tms_seq_to_def)

lemma access_dr_waits:
  assumes "command m = 0xC8"
    and "body_word m 12 = Inr length_dr" "body_word m 20 = Inr write_length" "body_word m 28 = Inr read_length"
    and "length (fifos j FIFO_MIN) < unat write_length div 8"
  shows "jtagd_dispatch E D m j s = Inr (False, j, s)"
  using assms by (simp add: jtagd_dispatch_def jtagd_access_dr_def pop_fifo_def unat_div)

lemma access_dr_stuck:
  assumes "command m = 0xC8"
    and "body_word m 12 = Inr length_dr" "body_word m 20 = Inr write_length" "body_word m 28 = Inr read_length"
    and "unat write_length div 8 \<le> length (fifos j FIFO_MIN)" "unat write_length div 8 \<le> BUFFER_SIZE"
    and "jtag_get_tms_seq (state s) ShiftDR = Inl e"
  shows "jtagd_dispatch E D m j s = Inl e"
  using assms by (simp add: jtagd_dispatch_def jtagd_access_dr_def dr_pop(2) jtag_tms_seq_to_def)

section \<open>Samples\<close>

definition sample_chain_key :: "Message" where
  "sample_chain_key = \<lparr>command = 0xA5, body = []\<rparr>"

definition sample_ir :: "byte list \<Rightarrow> Message" where
  "sample_ir ins = \<lparr>command = 0xC6, body = replicate 12 0 @ ins\<rparr>"

definition sample_dr :: "Message" where
  "sample_dr = \<lparr>command = 0xC8, body = replicate 12 0 @ [0, 0, 0, 9] @ replicate 4 0 @ [0, 0, 0, 16] @ replicate 4 0 @ [0, 0, 0, 9]\<rparr>"

definition jtagd_running :: jtagd_state where
  "jtagd_running = jtagd_start\<lparr>send_buffer_size := 2, fifos := (\<lambda>_. [])(FIFO_MIN := [6, 6, 6])\<rparr>"

lemma jtagd_running_idle: "jtagd_idle jtagd_running"
proof -
  have "replicate 2 (0 :: byte) = [0, 0]" by (simp add: numeral_2_eq_2)
  then have "take 2 (send_buffer jtagd_running) = [0, 0]"
    by (simp add: jtagd_running_def jtagd_start_def BUFFER_SIZE_def min_def)
  then have "filled jtagd_running [0, 0]"
    by (simp add: filled_def jtagd_running_def jtagd_start_def flip: numeral_2_eq_2)
  then show ?thesis by (auto simp: jtagd_idle_def jtagd_running_def jtagd_start_def)
qed

lemma mpsse_reply_view:
  assumes "drives mpsse_inv (\<lambda>_. True) mpsse_wire s cyc t"
  shows "mpsse_inv (t\<lparr>net_out := n, world := u\<rparr>)" "tracks mpsse_wire (t\<lparr>net_out := n, world := u\<rparr>)"
    "mpsse_wire (t\<lparr>net_out := n, world := u\<rparr>) = mpsse_wire s @ cyc"
proof -
  have v: "mpsse_inv (t\<lparr>net_out := n, world := u\<rparr>) = mpsse_inv t" "mpsse_wire (t\<lparr>net_out := n, world := u\<rparr>) = mpsse_wire t"
    using wire_driver.view [OF mpsse_wires, of "t\<lparr>net_out := n, world := u\<rparr>" t] by simp_all
  then show "mpsse_inv (t\<lparr>net_out := n, world := u\<rparr>)" "tracks mpsse_wire (t\<lparr>net_out := n, world := u\<rparr>)"
    using drivesD(1,3) [OF assms] by (simp_all add: tracks_def)
  show "mpsse_wire (t\<lparr>net_out := n, world := u\<rparr>) = mpsse_wire s @ cyc"
    unfolding v using assms by (simp add: drives_def)
qed

lemma sample_ir_body: "body_word (sample_ir [0, 0, 0, 6]) 12 = Inr 6" "command (sample_ir ins) = 0xC6"
proof -
  show "body_word (sample_ir [0, 0, 0, 6]) 12 = Inr 6" by code_simp
qed (simp add: sample_ir_def)

lemma mpsse_started:
  "mpsse_inv (mpsse_start ())" "tracks mpsse_wire (mpsse_start ())" "state (mpsse_start ()) = TestLogicReset"
  "net_out (mpsse_start ()) = []" "mpsse_wire (mpsse_start ()) = []"
  using mpsse_start_inv [of "()"]
  by (simp_all add: tracks_def mpsse_start_def process_start_def common_state.defs)

section \<open>Properties\<close>

text \<open>
  \<open>READ_CHAIN\<close> on the MPSSE driver. From any state of the driver the chain is probed without a
  fault, and the client is sent exactly two packets: on channel 0 a response with the tag, the
  number of devices and the size of the second packet, and on channel 4 one record of 28 bytes
  per identification code found; at most seven, so that neither packet overflows the fill level.
\<close>

lemma jtagd_read_chain_mpsse:
  assumes "mpsse_live E" "sock_accepts E" "mpsse_inv s" "tracks mpsse_wire s" "jtagd_idle j" "command m = 0xA5"
  shows "\<exists>ids k t. jtagd_dispatch E (mpsse_driver E) m j s = Inr (True, k, t) \<and>
     net_out t = net_out s @ chain_reply ids \<and> devices k = ids \<and> length ids \<le> 7 \<and>
     mpsse_inv t \<and> tracks mpsse_wire t \<and> jtagd_idle k \<and> state t = (if ids = [] then Exit1DR else TestLogicReset)"
proof -
  from jtag_driver.read_chain_drives [OF mpsse_is_driver assms(1-3) TrueI assms(4,5)] obtain ids k t u cyc where
    t: "jtagd_read_chain E (mpsse_driver E) j s = Inr (True, k, t\<lparr>net_out := net_out s @ chain_reply ids, world := u\<rparr>)"
      "drives mpsse_inv (\<lambda>_. True) mpsse_wire s cyc t" "jtagd_idle k" "devices k = ids" "length ids \<le> 7"
      "state t = (if ids = [] then Exit1DR else TestLogicReset)" by blast
  let ?t = "t\<lparr>net_out := net_out s @ chain_reply ids, world := u\<rparr>"
  from mpsse_reply_view [OF t(2)] t(1,3-6) assms(6) show ?thesis
    by (intro exI [of _ ids] exI [of _ k] exI [of _ ?t]) (simp add: jtagd_dispatch_def)
qed

text \<open>
  Access to the instruction register on the MPSSE driver. From a state from which the table leads to
  Shift-IR, the TAP is taken there, exactly ten bits of the instruction are shifted, least
  significant first and TMS raised with the last, the TAP is left in Exit1-IR, and the client
  gets one response with the four bytes read back.
\<close>

lemma jtagd_access_ir_mpsse:
  assumes "mpsse_live E" "sock_accepts E" "mpsse_inv s" "tracks mpsse_wire s" "jtagd_idle j" "command m = 0xC6"
    and "jtag_get_tms_seq (state s) ShiftIR = Inr p" "body_word m 12 = Inr instruction"
  shows "\<exists>x k t path. jtagd_dispatch E (mpsse_driver E) m j s = Inr (True, k, t) \<and>
     net_out t = net_out s @ jtagd_frame 0 (response 0 (be32_bytes x)) \<and>
     mpsse_wire t = mpsse_wire s @ path @ scan_cycles (le32_bytes instruction) 10 True True \<and>
     run_tap (state s) (tms_bits path) = ShiftIR \<and> state t = Exit1IR \<and> mpsse_inv t \<and> tracks mpsse_wire t \<and>
     jtagd_idle k"
proof -
  from jtag_driver.access_ir_drives [OF mpsse_is_driver assms(1-3) TrueI assms(4,5,7,8)] obtain x k t u path where
    t: "jtagd_access_ir E (mpsse_driver E) m j s =
       Inr (True, k, t\<lparr>net_out := net_out s @ jtagd_frame 0 (response 0 (be32_bytes x)), world := u\<rparr>)"
      "drives mpsse_inv (\<lambda>_. True) mpsse_wire s (path @ scan_cycles (le32_bytes instruction) 10 True True) t"
      "run_tap (state s) (tms_bits path) = ShiftIR" "state t = Exit1IR" "jtagd_idle k" by blast
  let ?t = "t\<lparr>net_out := net_out s @ jtagd_frame 0 (response 0 (be32_bytes x)), world := u\<rparr>"
  from mpsse_reply_view [OF t(2)] t(1,3-) assms(6) show ?thesis
    by (intro exI [of _ x] exI [of _ k] exI [of _ ?t] exI [of _ path]) (simp add: jtagd_dispatch_def)
qed

text \<open>
  Access to the data register on the MPSSE driver. With enough elements in the fifo, the TAP is taken
  to Shift-DR, \<open>length_dr\<close> bits are shifted, and the client gets an empty response and then, when
  it asked for data, one packet on channel 4 with \<open>read_length\<close> bits rounded up to bytes. The bits
  that are shifted out are the first \<open>write_length / 8\<close> bytes of the memory of the fifo, whose
  elements take four bytes each, while as many elements are removed.
\<close>

lemma jtagd_access_dr_mpsse:
  assumes "mpsse_live E" "sock_accepts E" "mpsse_inv s" "tracks mpsse_wire s" "jtagd_idle j" "command m = 0xC8"
    and "jtag_get_tms_seq (state s) ShiftDR = Inr p"
    and "body_word m 12 = Inr length_dr" "body_word m 20 = Inr write_length" "body_word m 28 = Inr read_length"
    and "unat write_length div 8 \<le> length (fifos j FIFO_MIN)" "unat write_length div 8 \<le> BUFFER_SIZE"
    and "0 < length_dr" "unat length_dr \<le> SCAN_LIMIT" "unat read_length \<le> 2024"
  shows "\<exists>data k t path. jtagd_dispatch E (mpsse_driver E) m j s = Inr (True, k, t) \<and>
     net_out t = net_out s @ dr_reply data \<and> length data = (unat read_length + 7) div 8 \<and>
     mpsse_wire t = mpsse_wire s @ path @
       scan_cycles (dr_data j (unat write_length div 8)) (unat length_dr) True True \<and>
     run_tap (state s) (tms_bits path) = ShiftDR \<and> state t = Exit1DR \<and> mpsse_inv t \<and> tracks mpsse_wire t \<and>
     fifos k FIFO_MIN = drop (unat write_length div 8) (fifos j FIFO_MIN)"
proof -
  from jtag_driver.access_dr_drives [OF mpsse_is_driver assms(1-3) TrueI assms(4,5,7-15)] obtain data k t u path where
    t: "jtagd_access_dr E (mpsse_driver E) m j s = Inr (True, k, t\<lparr>net_out := net_out s @ dr_reply data, world := u\<rparr>)"
      "drives mpsse_inv (\<lambda>_. True) mpsse_wire s
         (path @ scan_cycles (dr_data j (unat write_length div 8)) (unat length_dr) True True) t"
      "run_tap (state s) (tms_bits path) = ShiftDR" "state t = Exit1DR" "length data = (unat read_length + 7) div 8"
      "fifos k = (fifos j)(FIFO_MIN := drop (unat write_length div 8) (fifos j FIFO_MIN))" by blast
  let ?t = "t\<lparr>net_out := net_out s @ dr_reply data, world := u\<rparr>"
  from mpsse_reply_view [OF t(2)] t(1,3-) assms(6) show ?thesis
    by (intro exI [of _ data] exI [of _ k] exI [of _ ?t] exI [of _ path]) (simp add: jtagd_dispatch_def)
qed

text \<open>
  C33: the instruction register cannot be accessed twice in a row. The first access leaves the TAP in
  Exit1-IR, from which the table has no way to Shift-IR, and the second fails the assertion: two
  such messages without another command between them end the server.
\<close>

theorem jtagd_second_access_aborts:
  assumes "mpsse_live E" "sock_accepts E" "mpsse_inv s" "tracks mpsse_wire s" "jtagd_idle j"
    and "jtag_get_tms_seq (state s) ShiftIR = Inr p"
    and "command m = 0xC6" "body_word m 12 = Inr instruction" "command m' = 0xC6" "body_word m' 12 = Inr instruction'"
  shows "jtagd_handle E (mpsse_driver E) (m # m' # ms) j s = Inl AssertionFailed"
proof -
  from jtag_driver.access_ir_drives [OF mpsse_is_driver assms(1-3) TrueI assms(4-6,8)] obtain k t where
    "jtagd_access_ir E (mpsse_driver E) m j s = Inr (True, k, t)" "state t = Exit1IR" by fastforce
  with access_ir_stuck [of t m' instruction' E "mpsse_driver E" k] assms(7,9,10) show ?thesis
    by (simp add: jtagd_dispatch_def)
qed

theorem jtagd_second_access_aborts_witness:
  "jtagd_handle (client_ext []) (mpsse_driver (client_ext [])) [sample_ir [0, 0, 0, 6], sample_ir [0, 0, 0, 6]]
     jtagd_running (mpsse_start ()) = Inl AssertionFailed"
proof -
  have "jtag_get_tms_seq (state (mpsse_start ())) ShiftIR = Inr (0x06, 5)" by (simp add: mpsse_started(3) tms_path_facts)
  from jtagd_second_access_aborts [OF client_ext_facts(1,3) mpsse_started(1,2) jtagd_running_idle this
      sample_ir_body(2,1) sample_ir_body(2,1)] show ?thesis .
qed

end
