(* ===== verification/Server_Main.thy ===== *)
theory Server_Main
  imports Xvc_Drivers Vpi_Drivers Jtagd_Drivers
begin

text \<open>
  src/main.cpp: the options, the start of the adapter and of one server, and the loop that lets
  the server work until the process is asked to stop. \<open>getopt\<close> is a library: the model starts from the
  option letters and arguments it delivers. The speed display is not modelled.
\<close>

section \<open>Options\<close>

datatype Protocol = VPI | RBB | XVC | JTAGD

record settings =
  cfg :: config
  proto :: Protocol
  blaster :: bool
  debug :: bool
  usb_vid_pid_used :: bool
  usb_bus_dev_used :: bool

definition settings_start :: settings where
  "settings_start = \<lparr>cfg = \<lparr>ftdi_vid = 0x0403, ftdi_pid = 0x6011, ftdi_channel = 1, adapter_type = Adapter_Xilinx,
       freq_mhz = 15, use_bus_addr = False, usb_bus_addr = 1, usb_dev_addr = 1\<rparr>,
     proto = VPI, blaster = False, debug = False, usb_vid_pid_used = False, usb_bus_dev_used = False\<rparr>"

text \<open>
  The conversions of \<open>sscanf\<close>: white space, a sign, for hexadecimal an optional prefix, and then
  digits as far as they go; without a digit nothing is stored (\<open>None\<close>). Numbers are read as 64 bit
  values, as \<open>strtoul\<close> does, and cut to the width of the variable.
\<close>

definition digit :: "nat \<Rightarrow> char \<Rightarrow> nat option" where
  "digit base c =
     (let n = of_char c :: nat;
          v = (if 48 \<le> n \<and> n \<le> 57 then n - 48 else if 97 \<le> n \<and> n \<le> 102 then n - 87
               else if 65 \<le> n \<and> n \<le> 70 then n - 55 else 255) in
      if v < base then Some v else None)"

fun scan_digits :: "nat \<Rightarrow> string \<Rightarrow> nat \<Rightarrow> nat" where
  "scan_digits base [] v = v"
| "scan_digits base (c # cs) v = (case digit base c of None \<Rightarrow> v | Some d \<Rightarrow> scan_digits base cs (v * base + d))"

definition scan_unsigned :: "nat \<Rightarrow> string \<Rightarrow> 64 word option" where
  "scan_unsigned base str =
     (let s1 = dropWhile (\<lambda>c. of_char c \<in> {9, 10, 11, 12, 13, 32 :: nat}) str;
          neg = (take 1 s1 = ''-''); s2 = (if take 1 s1 = ''-'' \<or> take 1 s1 = ''+'' then drop 1 s1 else s1);
          s3 = (if base = 16 \<and> (take 2 s2 = ''0x'' \<or> take 2 s2 = ''0X'') then drop 2 s2 else s2) in
      case s3 of
        [] \<Rightarrow> None
      | c # cs \<Rightarrow>
          if digit base c = None then None
          else let v = scan_digits base s3 0 in
            Some (if 2 ^ 64 \<le> v then -1 else if neg then - of_nat v else of_nat v))"

text \<open>A converted value replaces the old one; otherwise the variable keeps it.\<close>

definition scan_int :: "string \<Rightarrow> int \<Rightarrow> int" where
  "scan_int str old = (case scan_unsigned 16 str of None \<Rightarrow> old | Some v \<Rightarrow> sint (ucast v :: 32 word))"

definition scan_byte :: "string \<Rightarrow> byte \<Rightarrow> byte" where
  "scan_byte str old = (case scan_unsigned 10 str of None \<Rightarrow> old | Some v \<Rightarrow> ucast v)"

definition scan_word :: "string \<Rightarrow> 64 word \<Rightarrow> 64 word" where
  "scan_word str old = (case scan_unsigned 10 str of None \<Rightarrow> old | Some v \<Rightarrow> v)"

text \<open>One option; \<open>None\<close> is the usage message and the exit with code 1.\<close>

definition main_option :: "char \<times> string \<Rightarrow> settings \<Rightarrow> settings option" where
  "main_option ov st =
     (case ov of (opt, optarg) \<Rightarrow>
      if opt = CHR ''d'' then Some (st\<lparr>debug := True\<rparr>)
      else if opt = CHR ''v'' then Some (st\<lparr>proto := VPI\<rparr>)
      else if opt = CHR ''r'' then Some (st\<lparr>proto := RBB\<rparr>)
      else if opt = CHR ''x'' then Some (st\<lparr>proto := XVC\<rparr>)
      else if opt = CHR ''j'' then Some (st\<lparr>proto := JTAGD\<rparr>)
      else if opt = CHR ''a'' then
        Some (if optarg = ''Xilinx'' then st\<lparr>cfg := (cfg st)\<lparr>adapter_type := Adapter_Xilinx\<rparr>\<rparr>
          else if optarg = ''hs2'' then st\<lparr>cfg := (cfg st)\<lparr>ftdi_pid := 0x6014, adapter_type := Adapter_DigilentHS2\<rparr>\<rparr>
          else if optarg = ''hs3'' then st\<lparr>cfg := (cfg st)\<lparr>ftdi_pid := 0x6014, adapter_type := Adapter_DigilentHS3\<rparr>\<rparr>
          else st)
      else if opt = CHR ''b'' then Some (st\<lparr>blaster := True\<rparr>)
      else if opt = CHR ''c'' then
        (let n = of_char (hd (optarg @ [CHR 0x00])) :: nat in
         Some (if 65 \<le> n \<and> n \<le> 68 then st\<lparr>cfg := (cfg st)\<lparr>ftdi_channel := n - 65 + 1\<rparr>\<rparr> else st))
      else if opt = CHR ''V'' then
        Some (st\<lparr>usb_vid_pid_used := True, cfg := (cfg st)\<lparr>ftdi_vid := scan_int optarg (ftdi_vid (cfg st))\<rparr>\<rparr>)
      else if opt = CHR ''p'' then
        Some (st\<lparr>usb_vid_pid_used := True, cfg := (cfg st)\<lparr>ftdi_pid := scan_int optarg (ftdi_pid (cfg st))\<rparr>\<rparr>)
      else if opt = CHR ''B'' then
        Some (st\<lparr>usb_bus_dev_used := True,
                 cfg := (cfg st)\<lparr>use_bus_addr := True, usb_bus_addr := scan_byte optarg (usb_bus_addr (cfg st))\<rparr>\<rparr>)
      else if opt = CHR ''D'' then
        Some (st\<lparr>usb_bus_dev_used := True,
                 cfg := (cfg st)\<lparr>use_bus_addr := True, usb_dev_addr := scan_byte optarg (usb_dev_addr (cfg st))\<rparr>\<rparr>)
      else if opt = CHR ''f'' then Some (st\<lparr>cfg := (cfg st)\<lparr>freq_mhz := scan_word optarg (freq_mhz (cfg st))\<rparr>\<rparr>)
      else None)"

fun main_options :: "(char \<times> string) list \<Rightarrow> settings \<Rightarrow> settings option" where
  "main_options [] st = Some st"
| "main_options (ov # opts) st = (case main_option ov st of None \<Rightarrow> None | Some st \<Rightarrow> main_options opts st)"

section \<open>The servers\<close>

record servers =
  vpi :: vpi_state
  xvc :: xvc_arrays
  jtagd :: jtagd_state

definition servers_start :: servers where
  "servers_start = \<lparr>vpi = vpi_start, xvc = xvc_start, jtagd = jtagd_start\<rparr>"

definition main_listen :: "'w ext \<Rightarrow> Protocol \<Rightarrow> ('w, 'z) common_state_scheme \<Rightarrow> bool \<times> ('w, 'z) common_state_scheme" where
  "main_listen E p s =
     (case p of RBB \<Rightarrow> jtag_rbb_init E s | VPI \<Rightarrow> jtag_vpi_init E s | XVC \<Rightarrow> jtag_xvc_init E s | JTAGD \<Rightarrow> jtag_jtagd_init E s)"

definition main_tick :: "'w ext \<Rightarrow> ('w, 'z) jtag \<Rightarrow> Protocol \<Rightarrow> servers \<Rightarrow> ('w, 'z) common_state_scheme
    \<Rightarrow> (servers \<times> ('w, 'z) common_state_scheme) result" where
  "main_tick E D p srv s =
     (case p of
        RBB \<Rightarrow> bindR (jtag_rbb_tick E D s) (\<lambda>s. Inr (srv, s))
      | VPI \<Rightarrow> bindR (jtag_vpi_tick E D (vpi srv) s) (\<lambda>(v, s). Inr (srv\<lparr>vpi := v\<rparr>, s))
      | XVC \<Rightarrow> bindR (jtag_xvc_tick E D (xvc srv) s) (\<lambda>(a, s). Inr (srv\<lparr>xvc := a\<rparr>, s))
      | JTAGD \<Rightarrow> bindR (jtag_jtagd_tick E D (jtagd srv) s) (\<lambda>(j, s). Inr (srv\<lparr>jtagd := j\<rparr>, s)))"

text \<open>\<open>while (!stop)\<close>: the signal arrives after \<open>n\<close> rounds.\<close>

fun main_loop :: "'w ext \<Rightarrow> ('w, 'z) jtag \<Rightarrow> Protocol \<Rightarrow> nat \<Rightarrow> servers \<Rightarrow> ('w, 'z) common_state_scheme
    \<Rightarrow> (servers \<times> ('w, 'z) common_state_scheme) result" where
  "main_loop E D p 0 srv s = Inr (srv, s)"
| "main_loop E D p (Suc n) srv s = bindR (main_tick E D p srv s) (\<lambda>(srv, s). main_loop E D p n srv s)"

text \<open>
  The rest of \<open>main\<close>: the exit code and the state at the end. The result of starting the server is
  not looked at.
\<close>

definition main_serve :: "'w ext \<Rightarrow> ('w, 'z) jtag \<Rightarrow> settings \<Rightarrow> nat \<Rightarrow> ('w, 'z) common_state_scheme
    \<Rightarrow> (nat \<times> ('w, 'z) common_state_scheme) result" where
  "main_serve E D st n s =
     (if usb_vid_pid_used st \<and> usb_bus_dev_used st then Inr (1, s)
      else
        bindR (adapter_init D (cfg st) s) (\<lambda>(ok, s).
        if \<not> ok then Inr (1, s)
        else
          let s = snd (main_listen E (proto st) s) in
          bindR (main_loop E D (proto st) n servers_start s) (\<lambda>(_, s). Inr (0, s))))"

text \<open>The whole process, on the driver that the options choose.\<close>

definition main_process :: "'w ext \<Rightarrow> (char \<times> string) list \<Rightarrow> nat \<Rightarrow> 'w
    \<Rightarrow> (nat \<times> 'w mpsse_state + nat \<times> 'w blaster_state) result" where
  "main_process E opts n w =
     (case main_options opts settings_start of
        None \<Rightarrow> Inr (Inl (1, mpsse_start w))
      | Some st \<Rightarrow>
          if blaster st then bindR (main_serve E (usb_blaster_driver E) st n (blaster_start w)) (\<lambda>r. Inr (Inr r))
          else bindR (main_serve E (mpsse_driver E) st n (mpsse_start w)) (\<lambda>r. Inr (Inl r)))"

section \<open>The remote bitbang server for any number of rounds\<close>

lemma main_loop_last:
  "main_loop E D p (Suc n) srv s = bindR (main_loop E D p n srv s) (\<lambda>(srv, s). main_tick E D p srv s)"
proof (induction n arbitrary: srv s)
  case 0
  show ?case by (cases "main_tick E D p srv s") auto
next
  case (Suc n)
  show ?case
  proof (cases "main_tick E D p srv s")
    case (Inl e)
    then show ?thesis by simp
  next
    case (Inr x)
    with Suc.IH show ?thesis by (cases x) simp
  qed
qed

text \<open>
  \<open>rbb_refused E s\<close>: in the state \<open>s\<close> the next read from the client gives a chunk that fails the
  assertions of the server.
\<close>

definition rbb_refused :: "'w ext \<Rightarrow> ('w, 'z) common_state_scheme \<Rightarrow> bool" where
  "rbb_refused E s \<longleftrightarrow> 0 \<le> client_fd s \<and>
     (case fst (call_read E BUFFER_SIZE s) of
        Some cmds \<Rightarrow> cmds \<noteq> [] \<and> \<not> rbb_chunk_ok E cmds (state s)
      | None \<Rightarrow> False)"

text \<open>\<open>sockets_only s t\<close>: nothing but the sockets and the receive buffer has changed.\<close>

definition sockets_only :: "('w \<Rightarrow> 'p) \<Rightarrow> ('w, 'z) common_state_scheme \<Rightarrow> ('w, 'z) common_state_scheme \<Rightarrow> bool" where
  "sockets_only port s t \<longleftrightarrow> port (world t) = port (world s) \<and> usb_out t = usb_out s \<and> common_state.more t = common_state.more s \<and> state t = state s \<and>
     net_out t = net_out s"

lemma sockets_only_refl: "sockets_only port s s"
  by (simp add: sockets_only_def)

lemma sockets_only_trans: "sockets_only port s t \<Longrightarrow> sockets_only port t u \<Longrightarrow> sockets_only port s u"
  by (simp add: sockets_only_def)

lemma sockets_only_fd [simp]:
  "sockets_only port s (t\<lparr>client_fd := x\<rparr>) = sockets_only port s t"
  "sockets_only port s (t\<lparr>listen_fd := x\<rparr>) = sockets_only port s t"
  "sockets_only port (s\<lparr>client_fd := x\<rparr>) t = sockets_only port s t"
  "sockets_only port (s\<lparr>listen_fd := x\<rparr>) t = sockets_only port s t"
  by (simp_all add: sockets_only_def)

lemma socket_calls_frame:
  assumes "sockets_keep E port"
  shows "call_sock E op s = (r, t) \<Longrightarrow> sockets_only port s t" "call_read E n s = (q, t) \<Longrightarrow> sockets_only port s t"
  using socket_calls_keep(3) [OF assms, of op s] socket_calls_keep(2) [OF assms, of n s]
  by (auto simp: sockets_only_def call_sock_def call_read_def split: prod.splits)

lemma setup_tcp_server_frame:
  assumes "sockets_keep E port"
  shows "setup_tcp_server E p s = (ok, t) \<Longrightarrow> sockets_only port s t"
proof -
  assume a: "setup_tcp_server E p s = (ok, t)"
  obtain fd a1 where 1: "call_sock E Sock_socket s = (fd, a1)" by fastforce
  obtain x a2 where 2: "call_sock E (Sock_nonblock fd) (a1\<lparr>listen_fd := fd\<rparr>) = (x, a2)" by fastforce
  obtain y a3 where 3: "call_sock E (Sock_reuseaddr fd) a2 = (y, a3)" by fastforce
  obtain z a4 where 4: "call_sock E (Sock_bind fd p) a3 = (z, a4)" by fastforce
  obtain v a5 where 5: "call_sock E (Sock_listen fd) a4 = (v, a5)" by fastforce
  note f = socket_calls_frame(1) [OF assms 1] socket_calls_frame(1) [OF assms 2] socket_calls_frame(1) [OF assms 3]
    socket_calls_frame(1) [OF assms 4] socket_calls_frame(1) [OF assms 5]
  have "t = a1\<lparr>listen_fd := fd\<rparr> \<or> t = a3 \<or> t = a4 \<or> t = a5"
    using a by (auto simp: setup_tcp_server_def Let_def 1 2 3 4 5 split: if_splits)
  moreover have "sockets_only port s a3" "sockets_only port s a4" "sockets_only port s a5"
    using f by (simp_all add: sockets_only_def)
  ultimately show ?thesis using f(1) by auto
qed

lemma try_accept_frame:
  assumes "sockets_keep E port"
  shows "try_accept E s = (ok, t) \<Longrightarrow> sockets_only port s t"
proof -
  assume a: "try_accept E s = (ok, t)"
  obtain r a1 where 1: "call_sock E (Sock_select (listen_fd s)) s = (r, a1)" by fastforce
  obtain fd a2 where 2: "call_sock E (Sock_accept (listen_fd a1)) a1 = (fd, a2)" by fastforce
  obtain x a3 where 3: "call_sock E (Sock_nodelay fd) (a2\<lparr>client_fd := fd\<rparr>) = (x, a3)" by fastforce
  note f = socket_calls_frame(1) [OF assms 1] socket_calls_frame(1) [OF assms 2] socket_calls_frame(1) [OF assms 3]
  have "t = a1 \<or> t = a3 \<or> t = a2\<lparr>client_fd := fd\<rparr>"
    using a by (auto simp: try_accept_def Let_def 1 2 3 split: if_splits)
  then show ?thesis using f by (auto intro: sockets_only_trans)
qed

lemma main_listen_frame:
  assumes "sockets_keep E port"
  shows "sockets_only port s (snd (main_listen E p s))"
proof -
  have "sockets_only port s (snd (setup_tcp_server E n s))" for n
    by (rule setup_tcp_server_frame [OF assms, of n s "fst (setup_tcp_server E n s)"]) simp
  then show ?thesis
    by (cases p) (simp_all add: main_listen_def jtag_rbb_init_def jtag_vpi_init_def jtag_xvc_init_def jtag_jtagd_init_def)
qed

context jtag_driver
begin

lemma serving_view:
  assumes "sockets_only port s t" "drv_inv s" "can_send s" "tracks wire s"
  shows "drv_inv t \<and> can_send t \<and> tracks wire t"
  using view [of t s] assms by (simp add: sockets_only_def tracks_def)

text \<open>A round without a request accepts a client, or drops the one it has.\<close>

lemma rbb_quiet_round:
  assumes keep: "sockets_keep E port"
    and none: "client_fd s < 0 \<or> (\<exists>s1. call_read E BUFFER_SIZE s = (None, s1) \<or> call_read E BUFFER_SIZE s = (Some [], s1))"
  shows "\<exists>t. jtag_rbb_tick E D s = Inr t \<and> sockets_only port s t"
proof (cases "0 \<le> client_fd s")
  case False
  obtain ok t where "try_accept E s = (ok, t)" by fastforce
  with False try_accept_frame [OF keep] show ?thesis by (auto simp: jtag_rbb_tick_def)
next
  case True
  with none obtain r s1 where c: "call_read E BUFFER_SIZE s = (r, s1)" "r = None \<or> r = Some []" by auto
  obtain x s2 where d: "call_sock E (Sock_close (client_fd s1)) s1 = (x, s2)" by fastforce
  from socket_calls_frame(2) [OF keep c(1)] socket_calls_frame(1) [OF keep d] have "sockets_only port s (s2\<lparr>client_fd := -1\<rparr>)"
    by (auto intro: sockets_only_trans)
  moreover have "jtag_rbb_tick E D s = Inr (s2\<lparr>client_fd := -1\<rparr>)"
    using True c(2) by (auto simp: jtag_rbb_tick_def c(1) d)
  ultimately show ?thesis by blast
qed

lemma rbb_round:
  assumes "live" "drv_inv s" "can_send s" "tracks wire s" and keep: "sockets_keep E port"
  shows "if rbb_refused E s then jtag_rbb_tick E D s = Inl AssertionFailed
     else \<exists>t. jtag_rbb_tick E D s = Inr t \<and> drv_inv t \<and> can_send t \<and> tracks wire t"
proof (cases "client_fd s < 0 \<or> (\<exists>s1. call_read E BUFFER_SIZE s = (None, s1) \<or> call_read E BUFFER_SIZE s = (Some [], s1))")
  case True
  then have "\<not> rbb_refused E s" by (auto simp: rbb_refused_def)
  with rbb_quiet_round [OF keep True] serving_view [OF _ assms(2-4)] show ?thesis by auto
next
  case False
  obtain r s1 where c: "call_read E BUFFER_SIZE s = (r, s1)" by fastforce
  with False have "r \<noteq> None" "r \<noteq> Some []" "0 \<le> client_fd s" by auto
  then obtain cmds where cmds: "r = Some cmds" "cmds \<noteq> []" by (cases r) auto
  note spec = rbb_tick_spec [OF assms(1,2,3,4) \<open>0 \<le> client_fd s\<close> c [unfolded cmds(1)] cmds(2) keep]
  have refused: "rbb_refused E s \<longleftrightarrow> \<not> rbb_chunk_ok E cmds (state s)"
    using \<open>0 \<le> client_fd s\<close> c cmds by (simp add: rbb_refused_def)
  show ?thesis
  proof (cases "rbb_chunk_ok E cmds (state s)")
    case False
    with spec refused show ?thesis by simp
  next
    case True
    with spec obtain t where t: "jtag_rbb_tick E D s = Inr t" "replays drv_inv can_send wire s (rbb_cycles cmds) t"
      by auto
    from t(2) have "drv_inv t \<and> can_send t \<and> tracks wire t" by (simp add: replays_def)
    with t(1) True refused show ?thesis by simp
  qed
qed

lemma rbb_rounds:
  assumes "live" "drv_inv s" "can_send s" "tracks wire s" and keep: "sockets_keep E port"
  shows "if \<exists>k<n. \<exists>srv' t. main_loop E D RBB k srv s = Inr (srv', t) \<and> rbb_refused E t
     then main_loop E D RBB n srv s = Inl AssertionFailed
     else \<exists>t. main_loop E D RBB n srv s = Inr (srv, t) \<and> drv_inv t \<and> can_send t \<and> tracks wire t"
proof (induction n)
  case 0
  show ?case using assms by simp
next
  case (Suc n)
  show ?case
  proof (cases "\<exists>k<n. \<exists>srv' t. main_loop E D RBB k srv s = Inr (srv', t) \<and> rbb_refused E t")
    case True
    with Suc.IH have "main_loop E D RBB (Suc n) srv s = Inl AssertionFailed" by (simp only: main_loop_last) simp
    moreover from True have "\<exists>k<Suc n. \<exists>srv' t. main_loop E D RBB k srv s = Inr (srv', t) \<and> rbb_refused E t"
      by (meson less_SucI)
    ultimately show ?thesis by simp
  next
    case False
    with Suc.IH obtain t where t: "main_loop E D RBB n srv s = Inr (srv, t)" "drv_inv t" "can_send t" "tracks wire t" by auto
    have loop: "main_loop E D RBB (Suc n) srv s = bindR (jtag_rbb_tick E D t) (\<lambda>t. Inr (srv, t))"
      by (simp only: main_loop_last t(1)) (simp add: main_tick_def)
    have "(\<exists>k<Suc n. \<exists>srv' t. main_loop E D RBB k srv s = Inr (srv', t) \<and> rbb_refused E t) \<longleftrightarrow> rbb_refused E t"
      using False t(1) by (auto simp: less_Suc_eq)
    with rbb_round [OF assms(1) t(2-4) keep] loop show ?thesis by (auto split: if_splits)
  qed
qed

end

end
