(* ===== verification/Jtagd_Shape.thy ===== *)
theory Jtagd_Shape
  imports Jtagd
begin

text \<open>
  What every tick of the jtagd server (src/jtagd.cpp) keeps of its state, whatever the client, the
  adapter and the sockets do: the send buffer has its size, no response is open, and a message
  that was left in the queue is an access to the data register that waits for its fifo.
\<close>

definition closed :: "jtagd_state \<Rightarrow> bool" where
  "closed j \<longleftrightarrow> length (send_buffer j) = BUFFER_SIZE \<and> last_response j = -1"

definition waiting :: "Message list \<Rightarrow> bool" where
  "waiting ms \<longleftrightarrow> ms = [] \<or> command (hd ms) = 0xC8"

definition jtagd_inv :: "jtagd_state \<Rightarrow> bool" where
  "jtagd_inv j \<longleftrightarrow> closed j \<and> waiting (messages j)"

lemma closed_update [simp]:
  "closed (j\<lparr>messages := ms\<rparr>) = closed j" "closed (j\<lparr>devices := ds\<rparr>) = closed j" "closed (j\<lparr>fifos := fs\<rparr>) = closed j"
  "closed (j\<lparr>send_buffer_size := n\<rparr>) = closed j"
  by (simp_all add: closed_def)

lemma jtagd_start_inv: "jtagd_inv jtagd_start"
  by (simp add: jtagd_inv_def closed_def waiting_def jtagd_start_def)

section \<open>Additions\<close>

text \<open>An addition changes only the contents and the fill level.\<close>

definition steady :: "(jtagd_state \<Rightarrow> jtagd_state result) \<Rightarrow> bool" where
  "steady f \<longleftrightarrow> (\<forall>j k. f j = Inr k \<longrightarrow> length (send_buffer k) = length (send_buffer j) \<and> last_response k = last_response j)"

named_theorems steady_intros

lemma steadyD: "steady f \<Longrightarrow> f j = Inr k \<Longrightarrow> length (send_buffer k) = length (send_buffer j) \<and> last_response k = last_response j"
  by (simp add: steady_def)

lemma steady_put [steady_intros]: "steady (put_bytes d)"
  by (auto simp: steady_def put_bytes_def split: if_splits)

lemma steady_then:
  assumes "steady f" "steady g"
  shows "steady (\<lambda>j. bindR (f j) g)"
proof (unfold steady_def, intro allI impI)
  fix j k assume "bindR (f j) g = Inr k"
  then obtain i where "f j = Inr i" "g i = Inr k" by (cases "f j") auto
  with assms show "length (send_buffer k) = length (send_buffer j) \<and> last_response k = last_response j"
    by (simp add: steady_def)
qed

lemma steady_guard: "steady f \<Longrightarrow> (\<And>j k. g j = Inr k \<Longrightarrow> f j = Inr k) \<Longrightarrow> steady g"
  unfolding steady_def by blast

lemma steady_int [steady_intros]: "steady (add_int v)"
  by (rule steady_guard [OF steady_put]) (simp add: add_int_def split: if_splits)

lemma steady_string [steady_intros]: "steady (add_string d)"
  by (rule steady_guard [OF steady_then [OF steady_put steady_put]]) (simp add: add_string_def split: if_splits)

lemma steady_array [steady_intros]: "steady (add_array d n)"
  by (rule steady_guard [OF steady_put]) (simp add: add_array_def split: if_splits)

lemma steady_emit [steady_intros]: "list_all steady fs \<Longrightarrow> steady (emit fs)"
proof (induction fs)
  case Nil
  then show ?case by (simp add: steady_def)
next
  case (Cons f fs)
  have "emit (f # fs) = (\<lambda>j. bindR (f j) (emit fs))" by (rule ext) simp
  with Cons show ?case using steady_then [of f "emit fs"] by simp
qed

lemma steady_closed: "steady f \<Longrightarrow> f j = Inr k \<Longrightarrow> closed j \<Longrightarrow> closed k"
  by (auto simp: steady_def closed_def)

section \<open>Responses and packets\<close>

lemma add_response_length: "add_response r j = Inr k \<Longrightarrow> length (send_buffer k) = length (send_buffer j)"
proof -
  assume a: "add_response r j = Inr k"
  let ?j = "j\<lparr>last_response := uint (send_buffer_size j)\<rparr>"
  have "steady (\<lambda>j. bindR (put_bytes [r] j) (\<lambda>j. bindR (put_bytes [0] j) (\<lambda>j. bindR (put_bytes [0] j) (put_bytes [0]))))"
    by (intro steady_then steady_put)
  moreover from a have "bindR (put_bytes [r] ?j) (\<lambda>j. bindR (put_bytes [0] j) (\<lambda>j. bindR (put_bytes [0] j) (put_bytes [0]))) = Inr k"
    by (simp add: add_response_def split: if_splits)
  ultimately have "length (send_buffer k) = length (send_buffer ?j)" by (blast dest: steadyD)
  then show ?thesis by simp
qed

lemma end_response_closes: "end_response j = Inr k \<Longrightarrow> length (send_buffer k) = length (send_buffer j) \<and> last_response k = -1"
  by (auto simp: end_response_def Let_def split: if_splits)

lemma emit_snoc: "emit (fs @ [f]) j = bindR (emit fs j) f"
proof (induction fs arbitrary: j)
  case Nil
  then show ?case by (cases "f j") simp_all
next
  case (Cons g fs)
  then show ?case by (cases "g j") simp_all
qed

lemma response_closed:
  assumes "emit (add_response r # fs @ [end_response]) j = Inr k" "list_all steady fs" "closed j"
  shows "closed k"
proof -
  from assms(1) obtain a where a: "add_response r j = Inr a" "emit (fs @ [end_response]) a = Inr k"
    by (cases "add_response r j") simp_all
  from a(2) obtain b where b: "emit fs a = Inr b" "end_response b = Inr k"
    by (cases "emit fs a") (simp_all add: emit_snoc)
  from add_response_length [OF a(1)] steadyD [OF steady_emit [OF assms(2)] b(1)] end_response_closes [OF b(2)] assms(3)
  show ?thesis by (simp add: closed_def)
qed

lemma do_send_closed: "do_send E mux j s = (k, t) \<Longrightarrow> closed j \<Longrightarrow> closed k"
  by (auto simp: do_send_def fill_header_def closed_def Let_def)

section \<open>Handlers\<close>

text \<open>
  \<open>leaves c r\<close>: the result of a handler, if there is one, has a closed state, and the message is done
  with unless \<open>c\<close>. The rules follow the structure of the handlers.
\<close>

definition leaves :: "bool \<Rightarrow> ('w, 'z) handled \<Rightarrow> bool" where
  "leaves c r \<longleftrightarrow> (\<forall>b k t. r = Inr (b, k, t) \<longrightarrow> closed k \<and> (b \<or> c))"

lemma leaves_Inr: "closed k \<Longrightarrow> b \<or> c \<Longrightarrow> leaves c (Inr (b, k, t))"
  by (simp add: leaves_def)

lemma leaves_Inl: "leaves c (Inl e)"
  by (simp add: leaves_def)

lemma leaves_bind: "(\<And>x. m = Inr x \<Longrightarrow> leaves c (f x)) \<Longrightarrow> leaves c (bindR m f)"
  by (cases m) (simp_all add: leaves_def)

lemma leaves_pair: "(\<And>x y. p = (x, y) \<Longrightarrow> leaves c (f x y)) \<Longrightarrow> leaves c (case p of (x, y) \<Rightarrow> f x y)"
  by (cases p) simp

lemma leaves_if: "(b \<Longrightarrow> leaves c x) \<Longrightarrow> (\<not> b \<Longrightarrow> leaves c y) \<Longrightarrow> leaves c (if b then x else y)"
  by simp

lemma leaves_send:
  "closed j \<Longrightarrow> (\<And>k t. closed k \<Longrightarrow> leaves c (f k t)) \<Longrightarrow> leaves c (case do_send E mux j s of (k, t) \<Rightarrow> f k t)"
  by (rule leaves_pair) (blast dest: do_send_closed)

lemma leaves_steady:
  "steady g \<Longrightarrow> closed j \<Longrightarrow> (\<And>k. closed k \<Longrightarrow> leaves c (f k)) \<Longrightarrow> leaves c (bindR (g j) f)"
  by (rule leaves_bind) (blast dest: steady_closed)

text \<open>A whole response: opened first, closed last, with additions between.\<close>

definition whole :: "(jtagd_state \<Rightarrow> jtagd_state result) list \<Rightarrow> bool" where
  "whole fs \<longleftrightarrow> (\<exists>r gs. fs = add_response r # gs @ [end_response] \<and> list_all steady gs)"

lemma wholeI: "list_all steady gs \<Longrightarrow> fs = add_response r # gs @ [end_response] \<Longrightarrow> whole fs"
  by (auto simp: whole_def)

lemma leaves_response:
  "whole fs \<Longrightarrow> closed j \<Longrightarrow> (\<And>k. closed k \<Longrightarrow> leaves c (f k)) \<Longrightarrow> leaves c (bindR (emit fs j) f)"
  by (rule leaves_bind) (auto simp: whole_def simp del: emit.simps dest: response_closed)

lemma leaves_answer: "whole fs \<Longrightarrow> closed j \<Longrightarrow> leaves c (answer fs j s)"
  unfolding answer_def by (rule leaves_response) (auto intro: leaves_Inr)

lemma leaves_answer_send: "whole fs \<Longrightarrow> closed j \<Longrightarrow> leaves c (answer_send E fs j s)"
  unfolding answer_send_def by (intro leaves_response leaves_send) (auto intro: leaves_Inr)

lemma whole_ack: "whole jtagd_ack" "whole [add_response r, end_response]"
  by (rule wholeI [of "[]"]; simp add: jtagd_ack_def)+

lemma whole_int: "whole [add_response r, add_int v, end_response]"
  by (rule wholeI [of "[add_int v]"]) (simp_all add: steady_intros)

lemma hardware_leaves:
  assumes "closed j"
  shows "leaves c (jtagd_get_hardware E j s)"
proof -
  have w: "whole [add_response 0, add_int 1, add_int v, end_response]" for v
    by (rule wholeI [of "[add_int 1, add_int v]"]) (simp_all add: steady_intros)
  have st: "steady (emit [add_int 1, add_string (ascii ''hw0''), add_string (ascii ''port0''), add_int 1,
      add_string (ascii ''device0''), add_int 0x0800])"
    by (rule steady_emit) (simp add: steady_intros)
  show ?thesis unfolding jtagd_get_hardware_def Let_def
    by (intro leaves_response [OF w assms] leaves_send leaves_steady [OF st] leaves_Inr; simp)
qed

lemma read_chain_leaves:
  assumes "closed j"
  shows "leaves c (jtagd_read_chain E D j s)"
proof -
  have w: "whole [add_response 0, add_int 1, add_int v, add_int u, end_response]" for u v
    by (rule wholeI [of "[add_int 1, add_int v, add_int u]"]) (simp_all add: steady_intros)
  have "list_all steady (jtagd_device x)" for x by (simp add: jtagd_device_def steady_intros)
  then have st: "steady (emit (concat (map jtagd_device xs)))" for xs
    by (intro steady_emit) (auto simp: list_all_iff)
  have d: "closed (j\<lparr>devices := xs\<rparr>)" for xs using assms by simp
  show ?thesis unfolding jtagd_read_chain_def Let_def
    by (rule leaves_bind, rule leaves_pair, rule leaves_response [OF w d], rule leaves_send, assumption,
        rule leaves_steady [OF st], assumption, rule leaves_send, assumption, rule leaves_Inr, assumption, simp)
qed

lemma open_device_leaves:
  assumes "closed j"
  shows "leaves c (jtagd_open_device j s)"
proof (cases "devices j")
  case Nil
  have "devices k = devices j" if "add_response 0 j = Inr k" for k
    using that by (auto simp: add_response_def put_bytes_def result_iff split: if_splits)
  with Nil show ?thesis unfolding jtagd_open_device_def by (auto intro!: leaves_bind leaves_Inl)
next
  case (Cons d ds)
  have "devices k = devices j" if "add_response 0 j = Inr k" for k
    using that by (auto simp: add_response_def put_bytes_def result_iff split: if_splits)
  then have "jtagd_open_device j s = answer [add_response 0, add_int d, end_response] j s"
    unfolding jtagd_open_device_def using Cons by (cases "add_response 0 j") (simp_all add: answer_def)
  then show ?thesis using leaves_answer [OF whole_int assms] by simp
qed

lemma access_ir_leaves: "closed j \<Longrightarrow> leaves c (jtagd_access_ir E D m j s)"
  unfolding jtagd_access_ir_def
  by (intro leaves_bind leaves_pair leaves_answer_send [OF whole_int]; simp)

lemma run_test_idle_leaves: "closed j \<Longrightarrow> leaves c (jtagd_run_test_idle E D j s)"
  unfolding jtagd_run_test_idle_def
  by (intro leaves_bind leaves_pair leaves_answer_send [OF whole_ack(1)]; simp)

lemma pop_fifo_closed: "pop_fifo buf n j = Inr (ok, out, k) \<Longrightarrow> closed j \<Longrightarrow> closed k"
  by (auto simp: pop_fifo_def split: if_splits)

lemma access_dr_leaves:
  assumes "closed j"
  shows "leaves True (jtagd_access_dr E D m j s)"
  unfolding jtagd_access_dr_def
  by (rule leaves_bind, rule leaves_bind, rule leaves_bind, rule leaves_bind, rule leaves_pair, rule leaves_pair,
      rule leaves_if, rule leaves_Inr, rule pop_fifo_closed [OF _ assms], simp, simp, rule leaves_bind, rule leaves_pair,
      rule leaves_bind, rule leaves_pair, rule leaves_pair, rule leaves_response [OF whole_ack(2)],
      rule pop_fifo_closed [OF _ assms], simp, rule leaves_send, assumption, rule leaves_if,
      rule leaves_steady [OF steady_array], assumption, rule leaves_send, assumption, (rule leaves_Inr, assumption, simp)+)

lemma dispatch_leaves:
  assumes "closed j"
  shows "leaves (command m = 0xC8) (jtagd_dispatch E D m j s)"
proof -
  have w: "whole [add_response 0, add_string (ascii ''1.0''), add_int 0, add_string (ascii ''jtagd''), end_response]"
      "whole [add_response 0, add_int 1, add_int 0, add_int 0, end_response]"
    by (rule wholeI [of "[add_string (ascii ''1.0''), add_int 0, add_string (ascii ''jtagd'')]"]; simp add: steady_intros)
      (rule wholeI [of "[add_int 1, add_int 0, add_int 0]"]; simp add: steady_intros)
  show ?thesis
  proof (cases "command m = 0xC8")
    case True
    then have "jtagd_dispatch E D m j s = jtagd_access_dr E D m j s" by (simp add: jtagd_dispatch_def)
    with access_dr_leaves [OF assms] True show ?thesis by simp
  next
    case False
    show ?thesis unfolding jtagd_dispatch_def jtagd_get_version_info_def jtagd_get_defined_devices_def
      by (intro leaves_if hardware_leaves read_chain_leaves open_device_leaves access_ir_leaves run_test_idle_leaves
          leaves_answer_send leaves_answer w whole_ack whole_int assms) (use False in simp)
  qed
qed

lemma handle_inv:
  assumes "jtagd_handle E D ms j s = Inr (k, t)" "closed j"
  shows "jtagd_inv k"
  using assms
proof (induction ms arbitrary: j s)
  case Nil
  then show ?case by (auto simp: jtagd_inv_def waiting_def)
next
  case (Cons m ms)
  from Cons.prems(1) obtain b i u where
    i: "jtagd_dispatch E D m j s = Inr (b, i, u)"
      "(if b then jtagd_handle E D ms i u else Inr (i\<lparr>messages := m # ms\<rparr>, u)) = Inr (k, t)"
    by (auto simp: result_iff)
  from dispatch_leaves [OF Cons.prems(2), of m E D s] i(1) have c: "closed i" "b \<or> command m = 0xC8"
    by (simp_all add: leaves_def)
  show ?case
  proof (cases b)
    case True
    with i(2) Cons.IH [of i u] c(1) show ?thesis by simp
  next
    case False
    with i(2) c show ?thesis by (auto simp: jtagd_inv_def waiting_def)
  qed
qed

section \<open>A tick\<close>

lemma bindR_InrE: "bindR m f = Inr y \<Longrightarrow> (\<And>x. m = Inr x \<Longrightarrow> f x = Inr y \<Longrightarrow> P) \<Longrightarrow> P"
  by (cases m) simp_all

lemma packets_closed: "jtagd_packets s j = Inr (k, t) \<Longrightarrow> closed j \<Longrightarrow> closed k"
proof (induction s j rule: jtagd_packets.induct)
  case (1 s j)
  let ?h = "buffer_bytes s (buffer_begin s) 2"
  show ?case
  proof (cases "buffer_begin s + 2 \<le> buffer_end s")
    case False
    with "1.prems" show ?thesis by (simp add: jtagd_packets.simps [of s j])
  next
    case True
    with "1.prems"(1) obtain h where h: "?h = Inr h" by (cases ?h) (simp_all add: jtagd_packets.simps [of s j])
    let ?w = "push_bit 8 (ucast (h ! 0)) + ucast (h ! 1) :: 16 word"
    let ?mux = "unat (drop_bit 12 ?w)" and ?len = "unat (?w AND 0xFFF) + 1"
    show ?thesis
    proof (cases "buffer_begin s + 2 + ?len \<le> buffer_end s")
      case False
      with "1.prems" True h show ?thesis by (simp add: jtagd_packets.simps [of s j] Let_def)
    next
      case len: True
      with "1.prems"(1) True h obtain i where i: "jtagd_packet (s\<lparr>buffer_begin := buffer_begin s + 2\<rparr>) ?mux ?len j = Inr i"
          "jtagd_packets (s\<lparr>buffer_begin := buffer_begin s + 2 + ?len\<rparr>) i = Inr (k, t)"
        by (auto simp: jtagd_packets.simps [of s j] Let_def result_iff)
      have "closed i" using i(1) "1.prems"(2) by (auto simp: jtagd_packet_def result_iff split: if_splits)
      with "1.IH" [OF True h refl refl refl len, of i] i(1,2) show ?thesis by simp
    qed
  qed
qed

lemma do_send_inv: "do_send E mux j s = (k, t) \<Longrightarrow> jtagd_inv j \<Longrightarrow> jtagd_inv k"
  using do_send_closed [of E mux j s k t] by (auto simp: jtagd_inv_def do_send_def fill_header_def Let_def)

lemma hello_inv:
  assumes "jtagd_hello E j s = Inr (k, t)" "closed j" "messages j = []"
  shows "jtagd_inv k"
proof -
  let ?fs = "[add_string (ascii (''JTAG Server'' @ [CHR 0x0D, CHR 0x0A])), add_int 13, add_int 0]"
  have m: "messages i = messages l" if "put_bytes d l = Inr i" for d l i using that by (auto simp: put_bytes_def split: if_splits)
  from assms(1) obtain i where i: "emit ?fs j = Inr i" "do_send E 0 i s = (k, t)"
    by (auto simp: jtagd_hello_def result_iff simp del: emit.simps)
  have "messages i = []"
    using i(1) assms(3) by (auto simp: result_iff add_string_def add_int_def dest!: m split: if_splits)
  moreover have "closed i" by (rule steady_closed [OF steady_emit i(1) assms(2)]) (simp add: steady_intros)
  ultimately have "jtagd_inv i" by (simp add: jtagd_inv_def waiting_def)
  with i(2) show ?thesis by (rule do_send_inv)
qed

lemma tick_inv:
  assumes "jtag_jtagd_tick E D j s = Inr (k, t)" "jtagd_inv j"
  shows "jtagd_inv k"
proof (cases "0 \<le> client_fd s")
  case False
  obtain ok a where a: "try_accept E s = (ok, a)" by fastforce
  let ?j = "j\<lparr>send_buffer_size := 2, messages := []\<rparr>"
  have c: "closed ?j" "messages ?j = []" using assms(2) by (simp_all add: jtagd_inv_def)
  have "(if ok then jtagd_hello E ?j a else Inr (?j, a)) = Inr (k, t)"
    using assms(1) False a by (simp add: jtag_jtagd_tick_def Let_def)
  with hello_inv [OF _ c] c show ?thesis by (cases ok) (auto simp: jtagd_inv_def waiting_def)
next
  case True
  let ?j = "j\<lparr>send_buffer_size := 2\<rparr>"
  have j: "jtagd_inv ?j" "closed ?j" using assms(2) by (simp_all add: jtagd_inv_def)
  from assms(1) True obtain ok r where r: "read_socket E s = Inr (ok, r)"
    by (auto simp: jtag_jtagd_tick_def Let_def result_iff)
  show ?thesis
  proof (cases ok)
    case False
    with assms(1) \<open>0 \<le> client_fd s\<close> r j(1) show ?thesis by (simp add: jtag_jtagd_tick_def Let_def)
  next
    case True
    with assms(1) \<open>0 \<le> client_fd s\<close> r have "bindR (jtagd_packets r ?j) (\<lambda>(j, s).
        bindR (jtagd_handle E D (messages j) j s) (\<lambda>(j, s).
        if 2 < unat (send_buffer_size j) then Inr (do_send E 0 j s) else Inr (j, s))) = Inr (k, t)"
      by (simp add: jtag_jtagd_tick_def Let_def)
    then obtain x where x: "jtagd_packets r ?j = Inr x"
        "(case x of (j, s) \<Rightarrow> bindR (jtagd_handle E D (messages j) j s) (\<lambda>(j, s).
          if 2 < unat (send_buffer_size j) then Inr (do_send E 0 j s) else Inr (j, s))) = Inr (k, t)"
      by (rule bindR_InrE)
    obtain i u where "x = (i, u)" by fastforce
    with x have i: "jtagd_packets r ?j = Inr (i, u)"
        "bindR (jtagd_handle E D (messages i) i u) (\<lambda>(j, s).
          if 2 < unat (send_buffer_size j) then Inr (do_send E 0 j s) else Inr (j, s)) = Inr (k, t)" by simp_all
    from i(2) obtain y where y: "jtagd_handle E D (messages i) i u = Inr y"
        "(case y of (j, s) \<Rightarrow> if 2 < unat (send_buffer_size j) then Inr (do_send E 0 j s) else Inr (j, s)) =
          (Inr (k, t) :: (jtagd_state \<times> _) result)"
      by (rule bindR_InrE)
    obtain l v where lv: "y = (l, v)" by fastforce
    from handle_inv [OF y(1) [unfolded lv] packets_closed [OF i(1) j(2)]] have l: "jtagd_inv l" .
    show ?thesis
    proof (cases "2 < unat (send_buffer_size l)")
      case True
      with y(2) lv have "do_send E 0 l v = (k, t)" by simp
      from do_send_inv [OF this l] show ?thesis .
    next
      case False
      with y(2) lv l show ?thesis by simp
    qed
  qed
qed

end
