(* ===== verification/Sessions.thy ===== *)
theory Sessions
  imports Server_Main Jtagd_Shape
begin

text \<open>
  The program over any number of rounds of the loop of \<open>main\<close> (src/main.cpp): what holds whatever
  the client does, and what is bound to happen.
\<close>

section \<open>Options\<close>

lemma main_option_flags:
  "main_option ov st = Some st' \<Longrightarrow>
     (usb_vid_pid_used st' \<longleftrightarrow> usb_vid_pid_used st \<or> fst ov \<in> {CHR ''V'', CHR ''p''}) \<and>
     (usb_bus_dev_used st' \<longleftrightarrow> usb_bus_dev_used st \<or> fst ov \<in> {CHR ''B'', CHR ''D''})"
  by (cases ov) (auto simp: main_option_def Let_def split: if_splits)

lemma main_options_flags:
  "main_options opts st = Some st' \<Longrightarrow>
     (usb_vid_pid_used st' \<longleftrightarrow> usb_vid_pid_used st \<or> set (map fst opts) \<inter> {CHR ''V'', CHR ''p''} \<noteq> {}) \<and>
     (usb_bus_dev_used st' \<longleftrightarrow> usb_bus_dev_used st \<or> set (map fst opts) \<inter> {CHR ''B'', CHR ''D''} \<noteq> {})"
proof (induction opts arbitrary: st)
  case Nil
  then show ?case by simp
next
  case (Cons ov opts)
  then obtain st1 where s1: "main_option ov st = Some st1" "main_options opts st1 = Some st'"
    by (auto split: option.splits)
  have ins: "set (map fst (ov # opts)) \<inter> X \<noteq> {} \<longleftrightarrow> fst ov \<in> X \<or> set (map fst opts) \<inter> X \<noteq> {}" for X by auto
  show ?case unfolding ins using main_option_flags [OF s1(1)] Cons.IH [OF s1(2)] by blast
qed

lemma main_option_letters:
  "main_option ov st = None \<longleftrightarrow> fst ov \<notin> set ''dvrxjabcVpBDf''"
  by (cases ov) (auto simp: main_option_def Let_def)

lemma main_options_letters:
  "main_options opts st = None \<longleftrightarrow> (\<exists>ov \<in> set opts. fst ov \<notin> set ''dvrxjabcVpBDf'')"
proof (induction opts arbitrary: st)
  case Nil
  then show ?case by simp
next
  case (Cons ov opts)
  show ?case
    using main_option_letters [of ov st] Cons.IH by (cases "main_option ov st") auto
qed

section \<open>Collecting a jtag_vpi command\<close>

text \<open>A peer that answers every read with at least one byte.\<close>

definition keeps_sending :: "'w ext \<Rightarrow> bool" where
  "keeps_sending E \<longleftrightarrow> (\<forall>fd n w. \<exists>bs w'. sock_read E fd n w = (Some bs, w') \<and> bs \<noteq> [])"

lemma keeps_sending_read:
  assumes "keeps_sending E" "0 < n"
  shows "\<exists>bs w. call_read E n s = (Some bs, s\<lparr>world := w\<rparr>) \<and> bs \<noteq> []"
proof -
  from assms(1) obtain bs w where "sock_read E (client_fd s) n (world s) = (Some bs, w)" "bs \<noteq> []"
    unfolding keeps_sending_def by blast
  then show ?thesis using assms(2)
    by (intro exI [of _ "take n bs"] exI [of _ w]) (simp add: call_read_def)
qed

lemma vpi_collects:
  assumes "keeps_sending E" "vpi_holds (vpi srv) got" "0 \<le> client_fd s"
  shows "\<exists>n srv' t raw u. n + length got < VPI_SIZE \<and> main_loop E D VPI n srv s = Inr (srv', t) \<and>
     length raw = VPI_SIZE \<and> take (length got) raw = got \<and> client_fd u = client_fd s \<and> sockets_only (\<lambda>_. ()) s u \<and>
     jtag_vpi_tick E D (vpi srv') t = vpi_command E D (vpi_full raw) u"
  using assms(2,3)
proof (induction "VPI_SIZE - length got" arbitrary: srv got s rule: less_induct)
  case less
  have lt: "length got < VPI_SIZE" using less.prems(1) by (simp add: vpi_holds_def)
  then have "0 < VPI_SIZE - length got" by simp
  from keeps_sending_read [OF assms(1) this, of s] obtain bs w where
    r: "call_read E (VPI_SIZE - length got) s = (Some bs, s\<lparr>world := w\<rparr>)" "bs \<noteq> []" by blast
  from vpi_tick_collects [OF less.prems r, of D] show ?case
  proof (elim disjE exE conjE)
    assume full: "length (got @ bs) = VPI_SIZE"
      "jtag_vpi_tick E D (vpi srv) s = vpi_command E D (vpi_full (got @ bs)) (s\<lparr>world := w\<rparr>)"
    then show ?thesis using lt
      by (intro exI [of _ 0] exI [of _ srv] exI [of _ s] exI [of _ "got @ bs"] exI [of _ "s\<lparr>world := w\<rparr>"])
        (simp add: sockets_only_def)
  next
    fix v' assume part: "length (got @ bs) < VPI_SIZE" "jtag_vpi_tick E D (vpi srv) s = Inr (v', s\<lparr>world := w\<rparr>)"
      "vpi_holds v' (got @ bs)"
    have "VPI_SIZE - length (got @ bs) < VPI_SIZE - length got"
      using r(2) lt by (intro diff_less_mono2) simp_all
    from less.hyps [OF this, of "srv\<lparr>vpi := v'\<rparr>" "s\<lparr>world := w\<rparr>"] part(3) less.prems(2) obtain n srv' t raw u where
      n: "n + length (got @ bs) < VPI_SIZE" "main_loop E D VPI n (srv\<lparr>vpi := v'\<rparr>) (s\<lparr>world := w\<rparr>) = Inr (srv', t)"
        "length raw = VPI_SIZE" "take (length (got @ bs)) raw = got @ bs" "client_fd u = client_fd s"
        "sockets_only (\<lambda>_. ()) (s\<lparr>world := w\<rparr>) u" "jtag_vpi_tick E D (vpi srv') t = vpi_command E D (vpi_full raw) u"
      by auto
    have "main_loop E D VPI (Suc n) srv s = Inr (srv', t)" by (simp add: main_tick_def part(2) n(2))
    moreover have "Suc n + length got < VPI_SIZE" using n(1) r(2) by (cases bs) simp_all
    moreover have "take (length got) raw = got"
      using arg_cong [OF n(4), of "take (length got)"] by (simp add: min_def)
    moreover have "sockets_only (\<lambda>_. ()) s u" using n(6) by (simp add: sockets_only_def)
    ultimately show ?thesis using n(3,5,7) by blast
  qed
qed

section \<open>Any number of rounds of the jtagd server\<close>

lemma jtagd_rounds:
  "main_loop E D JTAGD n srv s = Inr (srv', t) \<Longrightarrow> jtagd_inv (jtagd srv) \<Longrightarrow> jtagd_inv (jtagd srv')"
proof (induction n arbitrary: srv s)
  case 0
  then show ?case by simp
next
  case (Suc n)
  then obtain j u where j: "jtag_jtagd_tick E D (jtagd srv) s = Inr (j, u)"
      "main_loop E D JTAGD n (srv\<lparr>jtagd := j\<rparr>) u = Inr (srv', t)"
    by (auto simp: main_tick_def result_iff)
  with tick_inv [OF j(1) Suc.prems(2)] Suc.IH [OF j(2)] show ?case by simp
qed

lemma drv_init_mpsse: "drv_init (mpsse_driver E) = mpsse_init E"
  by (simp add: mpsse_driver_def)

section \<open>The remote bitbang program on an adapter that works\<close>

lemma main_rbb_start:
  assumes "usb_writes_accepted E" "ftdi_control_works E"
  shows "\<exists>l. (\<forall>n. main_process E [(CHR ''r'', '''')] n w =
       bindR (main_loop E (mpsse_driver E) RBB n servers_start l) (\<lambda>(_, s). Inr (Inl (0, s)))) \<and>
     mpsse_inv l \<and> tracks mpsse_wire l \<and> state l = TestLogicReset \<and>
     (\<exists>a. client_fd a < 0 \<and> l = snd (jtag_rbb_init E a))"
proof -
  let ?st = "settings_start\<lparr>proto := RBB\<rparr>"
  have st: "main_options [(CHR ''r'', '''')] settings_start = Some ?st" "cfg ?st = cfg settings_start"
      "\<not> blaster ?st" "\<not> usb_vid_pid_used ?st" "freq_mhz (cfg ?st) = 15"
    by (simp_all add: main_option_def settings_start_def)
  have "tck_divisor (freq_mhz (cfg ?st)) = tck_divisor 15" by (simp only: st(5))
  moreover obtain d where "tck_divisor 15 = Inr d" using tck_divisor_eq [of 15] by (auto simp: word_gt_0)
  ultimately have div: "tck_divisor (freq_mhz (cfg ?st)) = Inr d" by simp
  from mpsse_init_works [OF assms(2,1) div, of "mpsse_start w"] obtain a where
    a: "mpsse_init E (cfg ?st) (mpsse_start w) = Inr (True, a)" by blast
  from mpsse_init_ready [OF a] have inv: "mpsse_inv a" "tracks mpsse_wire a" "mpsse_wire a = []" "same_host (mpsse_start w) a"
    by simp_all
  have fd: "client_fd a < 0" using inv(4) by (simp add: same_host_def mpsse_start_def process_start_def common_state.defs)
  let ?l = "snd (jtag_rbb_init E a)"
  have only: "sockets_only (\<lambda>_. ()) a ?l"
    using main_listen_frame [OF sockets_keep_unit, of a E RBB] by (simp add: main_listen_def)
  from jtag_driver.serving_view [OF mpsse_is_driver only inv(1) TrueI inv(2)]
  have l: "mpsse_inv ?l" "tracks mpsse_wire ?l" by simp_all
  have "state a = TestLogicReset" using inv(2,3) by (simp add: tracks_def)
  then have "state ?l = TestLogicReset" using only by (simp add: sockets_only_def)
  moreover have "main_process E [(CHR ''r'', '''')] n w =
      bindR (main_loop E (mpsse_driver E) RBB n servers_start ?l) (\<lambda>(_, s). Inr (Inl (0, s)))" for n
    using st a
    by (cases "main_loop E (mpsse_driver E) RBB n servers_start ?l")
      (auto simp: main_process_def main_serve_def main_listen_def adapter_init_def drv_init_mpsse)
  ultimately show ?thesis using l fd by blast
qed

text \<open>A client that connects at once, sends \<open>cmds\<close> whenever it is read from, and takes no answer.\<close>

definition peer_ext :: "byte list \<Rightarrow> unit ext" where
  "peer_ext cmds = (zeros_ext 4096)\<lparr>
     sock_control := \<lambda>op w. (case op of Sock_select _ \<Rightarrow> 1 | Sock_accept _ \<Rightarrow> 4 | _ \<Rightarrow> 0, w),
     sock_read := \<lambda>fd n w. (Some cmds, w), sock_write := \<lambda>fd bs w. (None, w)\<rparr>"

lemma peer_ext_facts:
  "mpsse_live (peer_ext cmds)" "usb_writes_accepted (peer_ext cmds)" "ftdi_control_works (peer_ext cmds)"
  by (auto simp: peer_ext_def mpsse_live_def usb_writes_accepted_def usb_reads_answered_def ftdi_control_works_def zeros_ext_def)

lemma peer_sockets:
  "snd (call_sock (peer_ext cmds) op s) = s\<lparr>world := ()\<rparr>"
  "fst (call_sock (peer_ext cmds) op s) = (case op of Sock_select _ \<Rightarrow> 1 | Sock_accept _ \<Rightarrow> 4 | _ \<Rightarrow> 0)"
  "call_read (peer_ext cmds) n s = (Some (take n cmds), s\<lparr>world := ()\<rparr>)"
  by (simp_all add: call_sock_def call_read_def peer_ext_def)

lemma peer_calls:
  "call_sock (peer_ext cmds) op s = (case op of Sock_select _ \<Rightarrow> 1 | Sock_accept _ \<Rightarrow> 4 | _ \<Rightarrow> 0, s\<lparr>world := ()\<rparr>)"
  using peer_sockets(1,2) [of cmds op s] by (cases "call_sock (peer_ext cmds) op s") simp

lemma peer_refused:
  assumes "cmds \<noteq> []" "length cmds \<le> BUFFER_SIZE"
  shows "(\<exists>k<2. \<exists>t. main_process (peer_ext cmds) [(CHR ''r'', '''')] k () = Inr (Inl (0, t)) \<and> rbb_refused (peer_ext cmds) t)
    \<longleftrightarrow> \<not> rbb_chunk_ok (peer_ext cmds) cmds TestLogicReset"
proof -
  let ?E = "peer_ext cmds"
  from main_rbb_start [OF peer_ext_facts(2,3), of cmds "()"] obtain l a where
    l: "\<And>n. main_process ?E [(CHR ''r'', '''')] n () =
       bindR (main_loop ?E (mpsse_driver ?E) RBB n servers_start l) (\<lambda>(_, s). Inr (Inl (0, s)))"
      "state l = TestLogicReset" "client_fd a < 0" "l = snd (jtag_rbb_init ?E a)" by blast
  have fd: "client_fd l < 0" using l(3,4) by (simp add: jtag_rbb_init_def setup_tcp_server_def peer_calls Let_def)
  let ?t = "l\<lparr>world := (), client_fd := 4\<rparr>"
  have one: "jtag_rbb_tick ?E (mpsse_driver ?E) l = Inr ?t"
    using fd by (simp add: jtag_rbb_tick_def try_accept_def peer_calls Let_def)
  have "main_process ?E [(CHR ''r'', '''')] 0 () = Inr (Inl (0, l))"
    "main_process ?E [(CHR ''r'', '''')] 1 () = Inr (Inl (0, ?t))"
    by (simp_all add: l(1) main_tick_def one)
  moreover have "\<not> rbb_refused ?E l" "rbb_refused ?E ?t \<longleftrightarrow> \<not> rbb_chunk_ok ?E cmds TestLogicReset"
    using fd l(2) assms by (simp_all add: rbb_refused_def peer_sockets)
  ultimately show ?thesis by (auto simp: less_2_cases_iff)
qed

section \<open>Properties\<close>

text \<open>
  C3: the program with \<open>-r\<close>, from its start to its end, on an MPSSE adapter that opens and whose USB transfers
  work (every write takes bytes, every read in the end gives some). Whatever the client and the
  sockets do (connect or not, stop, leave in the middle of an answer), after any number of
  rounds: the process has failed an assertion exactly when in an earlier round it was sent a
  chunk that the checks of the remote bitbang server refuse; otherwise it leaves with code 0, its
  software state in agreement with the cycles on the wire and the driver invariant intact.
  No other fault is possible.
\<close>

theorem main_rbb_session:
  assumes "mpsse_live E" "ftdi_control_works E"
  shows "if \<exists>k<n. \<exists>t. main_process E [(CHR ''r'', '''')] k w = Inr (Inl (0, t)) \<and> rbb_refused E t
    then main_process E [(CHR ''r'', '''')] n w = Inl AssertionFailed
    else \<exists>t. main_process E [(CHR ''r'', '''')] n w = Inr (Inl (0, t)) \<and> mpsse_inv t \<and> tracks mpsse_wire t"
proof -
  have "usb_writes_accepted E" using assms(1) by (simp add: mpsse_live_def)
  from main_rbb_start [OF this assms(2), of w] obtain l where
    l: "\<And>n. main_process E [(CHR ''r'', '''')] n w =
       bindR (main_loop E (mpsse_driver E) RBB n servers_start l) (\<lambda>(_, s). Inr (Inl (0, s)))"
      "mpsse_inv l" "tracks mpsse_wire l" by blast
  have "main_process E [(CHR ''r'', '''')] k w = Inr (Inl (0, t)) \<longleftrightarrow>
      (\<exists>srv. main_loop E (mpsse_driver E) RBB k servers_start l = Inr (srv, t))" for k t
    unfolding l(1) by (auto simp: result_iff)
  with jtag_driver.rbb_rounds [OF mpsse_is_driver assms(1) l(2) TrueI l(3) sockets_keep_unit, where n = n and srv = servers_start and E = E]
  show ?thesis unfolding l(1) [of n] by (auto split: if_splits)
qed

theorem main_rbb_session_witness:
  "(\<exists>t. main_process (peer_ext sample_rbb) [(CHR ''r'', '''')] 2 () = Inr (Inl (0, t)) \<and> mpsse_inv t) \<and>
   main_process (peer_ext [0x52]) [(CHR ''r'', '''')] 2 () = Inl AssertionFailed"
proof -
  have ne: "sample_rbb \<noteq> []" "length sample_rbb \<le> BUFFER_SIZE" "length [0x52 :: byte] \<le> BUFFER_SIZE"
    by (simp_all add: sample_rbb_def BUFFER_SIZE_def)
  have "rbb_requests [0x52] = 1" "rbb_cycles [0x52] = []" by code_simp+
  with rbb_read_needs_shift [OF ne(3), of TestLogicReset "peer_ext [0x52]"]
  have "\<not> rbb_chunk_ok (peer_ext [0x52]) [0x52] TestLogicReset" by simp
  with main_rbb_session [OF peer_ext_facts(1,3), of 2 sample_rbb "()"] peer_refused [OF ne(1,2)] sample_rbb_ok [of "peer_ext sample_rbb"]
    main_rbb_session [OF peer_ext_facts(1,3), of 2 "[0x52]" "()"] peer_refused [OF _ ne(3)]
  show ?thesis by (auto split: if_splits)
qed

text \<open>
  C17: a jtag_vpi command is bound to be executed. While the client keeps sending, however few bytes at a
  time, the command that has been begun is complete before as many rounds have passed as it lacks
  bytes, and the next tick executes it; until then nothing happens to the adapter.
\<close>

theorem vpi_command_executed:
  assumes "keeps_sending E" "vpi_holds (vpi srv) got" "0 \<le> client_fd s"
  shows "\<exists>n srv' t raw u. n + length got < VPI_SIZE \<and> main_loop E D VPI n srv s = Inr (srv', t) \<and>
     length raw = VPI_SIZE \<and> take (length got) raw = got \<and> client_fd u = client_fd s \<and> sockets_only (\<lambda>_. ()) s u \<and>
     main_tick E D VPI srv' t = bindR (vpi_command E D (vpi_full raw) u) (\<lambda>(v, s). Inr (srv'\<lparr>vpi := v\<rparr>, s))"
proof -
  from vpi_collects [OF assms, of D] obtain n srv' t raw u where
    n: "n + length got < VPI_SIZE" "main_loop E D VPI n srv s = Inr (srv', t)" "length raw = VPI_SIZE"
      "take (length got) raw = got" "client_fd u = client_fd s" "sockets_only (\<lambda>_. ()) s u"
      "jtag_vpi_tick E D (vpi srv') t = vpi_command E D (vpi_full raw) u" by blast
  have "main_tick E D VPI srv' t = bindR (vpi_command E D (vpi_full raw) u) (\<lambda>(v, s). Inr (srv'\<lparr>vpi := v\<rparr>, s))"
    unfolding main_tick_def Protocol.case n(7) ..
  with n(1-6) show ?thesis by blast
qed

theorem vpi_command_executed_witness:
  "\<exists>n srv' t raw u. n < VPI_SIZE \<and> length raw = VPI_SIZE \<and>
     main_loop (client_ext [7]) (mpsse_driver (client_ext [7])) VPI n servers_start ((mpsse_start ())\<lparr>client_fd := 4\<rparr>) = Inr (srv', t) \<and>
     main_tick (client_ext [7]) (mpsse_driver (client_ext [7])) VPI srv' t =
       bindR (vpi_command (client_ext [7]) (mpsse_driver (client_ext [7])) (vpi_full raw) u) (\<lambda>(v, s). Inr (srv'\<lparr>vpi := v\<rparr>, s))"
proof -
  have "keeps_sending (client_ext [7])" by (auto simp: keeps_sending_def client_ext_def)
  moreover have "vpi_holds (vpi servers_start) []" using vpi_start_holds by (simp add: servers_start_def)
  note vpi_command_executed [OF calculation this mpsse_client_start(4), of "mpsse_driver (client_ext [7])"]
  then show ?thesis by (elim exE conjE) (simp only: list.size add_0_right, intro exI conjI; assumption)
qed

text \<open>
  C18: the shape of the state of the jtagd server. After any number of rounds from the start, whatever the
  clients, the adapter and the sockets do, the send buffer has its 4096 bytes, no response is
  open (so that \<open>add_response\<close> never fails its assertion), and messages are queued only behind an
  access to the data register whose fifo data has not arrived.
\<close>

theorem jtagd_state_shape:
  assumes "main_loop E D JTAGD n servers_start s = Inr (srv, t)"
  shows "length (send_buffer (jtagd srv)) = BUFFER_SIZE \<and> last_response (jtagd srv) = -1 \<and>
     (messages (jtagd srv) = [] \<or> command (hd (messages (jtagd srv))) = 0xC8)"
  using jtagd_rounds [OF assms] jtagd_start_inv
  by (simp add: servers_start_def jtagd_inv_def closed_def waiting_def)

theorem jtagd_state_shape_witness:
  "\<exists>srv t. main_loop (zeros_ext 1) (mpsse_driver (zeros_ext 1)) JTAGD 2 servers_start (mpsse_start ()) = Inr (srv, t) \<and>
     last_response (jtagd srv) = -1"
proof -
  let ?E = "zeros_ext 1" and ?s = "mpsse_start ()"
  have fd: "client_fd ?s < 0" by (simp add: mpsse_start_def process_start_def common_state.defs)
  have "try_accept ?E u = (False, u\<lparr>world := ()\<rparr>)" for u :: "unit mpsse_state"
    by (simp add: try_accept_def call_sock_def zeros_ext_def)
  then obtain srv t where r: "main_loop ?E (mpsse_driver ?E) JTAGD 2 servers_start ?s = Inr (srv, t)"
    using fd by (simp add: numeral_2_eq_2 main_tick_def jtag_jtagd_tick_def Let_def)
  with jtagd_state_shape [OF r] show ?thesis by blast
qed

text \<open>
  C40: options that are refused. When some option letter is not one of \<open>d v r x j a b c V p B D f\<close>, wherever it stands
  and whatever else is given, or when the adapter is given both by vendor or product and by bus
  or device address, the process leaves with code 1 and neither the adapter nor a socket has
  been touched. When neither is the case the options are accepted.
\<close>

theorem main_refuses_options:
  shows "if (\<exists>ov \<in> set opts. fst ov \<notin> set ''dvrxjabcVpBDf'') \<or>
      set (map fst opts) \<inter> {CHR ''V'', CHR ''p''} \<noteq> {} \<and> set (map fst opts) \<inter> {CHR ''B'', CHR ''D''} \<noteq> {}
    then main_process E opts n w = Inr (Inl (1, mpsse_start w)) \<or> main_process E opts n w = Inr (Inr (1, blaster_start w))
    else \<exists>st. main_options opts settings_start = Some st \<and> \<not> (usb_vid_pid_used st \<and> usb_bus_dev_used st)"
proof (cases "main_options opts settings_start")
  case None
  with main_options_letters [of opts settings_start] show ?thesis by (auto simp: main_process_def)
next
  case (Some st)
  with main_options_letters [of opts settings_start] have "\<not> (\<exists>ov \<in> set opts. fst ov \<notin> set ''dvrxjabcVpBDf'')" by simp
  with main_options_flags [OF Some] Some show ?thesis
    by (auto simp: main_process_def main_serve_def settings_start_def)
qed

theorem main_refuses_options_witness:
  "(main_process (zeros_ext 1) [(CHR ''r'', ''''), (CHR ''q'', ''''), (CHR ''b'', '''')] 5 () = Inr (Inl (1, mpsse_start ())) \<or>
    main_process (zeros_ext 1) [(CHR ''r'', ''''), (CHR ''q'', ''''), (CHR ''b'', '''')] 5 () = Inr (Inr (1, blaster_start ()))) \<and>
   (main_process (zeros_ext 1) [(CHR ''V'', ''09fb''), (CHR ''B'', ''3'')] 5 () = Inr (Inl (1, mpsse_start ())) \<or>
    main_process (zeros_ext 1) [(CHR ''V'', ''09fb''), (CHR ''B'', ''3'')] 5 () = Inr (Inr (1, blaster_start ()))) \<and>
   main_options [(CHR ''r'', ''''), (CHR ''f'', ''10'')] settings_start \<noteq> None"
proof (intro conjI)
  show "main_options [(CHR ''r'', ''''), (CHR ''f'', ''10'')] settings_start \<noteq> None"
    using main_refuses_options [of "[(CHR ''r'', ''''), (CHR ''f'', ''10'')]" "zeros_ext 1" 5 "()"]
    by (simp del: main_options.simps) blast
qed (use main_refuses_options [of "[(CHR ''r'', ''''), (CHR ''q'', ''''), (CHR ''b'', '''')]" "zeros_ext 1" 5 "()"]
    main_refuses_options [of "[(CHR ''V'', ''09fb''), (CHR ''B'', ''3'')]" "zeros_ext 1" 5 "()"] in \<open>simp_all del: main_options.simps\<close>)

end
