(* ===== verification/Chip.thy ===== *)
theory Chip
  imports Driver
begin

text \<open>
  What the models of an adapter with a JTAG target behind it share: how the bytes an operation
  of a driver writes reach the adapter, the USB side of the world, and the TDO levels of a target
  in a list of cycles.
\<close>

section \<open>Writing to the adapter\<close>

text \<open>The bytes of a transfer the adapter has taken.\<close>

definition accepted :: "nat option \<Rightarrow> byte list \<Rightarrow> byte list" where
  "accepted r data = (case r of None \<Rightarrow> [] | Some k \<Rightarrow> take k data)"

text \<open>The transfers an operation of the driver makes, one after the other.\<close>

inductive usb_writes :: "'w ext \<Rightarrow> byte list \<Rightarrow> 'w \<Rightarrow> byte list \<Rightarrow> 'w \<Rightarrow> bool" for E where
  usb_done: "usb_writes E u w u w"
| usb_write: "ftdi_write_data E data w = (r, w1) \<Longrightarrow> usb_writes E (u @ accepted r data) w1 v w2 \<Longrightarrow>
    usb_writes E u w v w2"

definition written :: "'w ext \<Rightarrow> ('w, 'z) common_state_scheme \<Rightarrow> ('w, 'z) common_state_scheme \<Rightarrow> bool" where
  "written E s t \<longleftrightarrow> usb_writes E (usb_out s) (world s) (usb_out t) (world t)"

lemma written_refl: "usb_out t = usb_out s \<Longrightarrow> world t = world s \<Longrightarrow> written E s t"
  by (simp add: written_def usb_done)

lemma usb_writes_trans: "usb_writes E u w v x \<Longrightarrow> usb_writes E v x y z \<Longrightarrow> usb_writes E u w y z"
  by (induction rule: usb_writes.induct) (auto intro: usb_write)

lemma written_trans: "written E s t \<Longrightarrow> written E t u \<Longrightarrow> written E s u"
  unfolding written_def by (rule usb_writes_trans)

lemma call_write_written: "call_ftdi_write E data s = (r, t) \<Longrightarrow> written E s t"
  by (auto simp: call_ftdi_write_def written_def accepted_def min_def intro: usb_done
      intro!: usb_write [of E data "world s" "fst (ftdi_write_data E data (world s))" "world t"]
      split: prod.splits option.splits)

lemma write_loop_written: "ftdi_write_loop E n data k s = (ok, t) \<Longrightarrow> written E s t"
proof (induction n arbitrary: k s)
  case 0
  then show ?case by (simp add: written_refl)
next
  case (Suc n)
  obtain r a where c: "call_ftdi_write E (drop k data) s = (r, a)" by fastforce
  from Suc c call_write_written [OF c] show ?case
    by (auto simp: written_refl intro: written_trans split: if_splits option.splits)
qed

lemma write_retry_written: "ftdi_write_retry E data s = (ok, t) \<Longrightarrow> written E s t"
  by (auto simp: ftdi_write_retry_def dest: write_loop_written)

section \<open>The USB side of the world\<close>

text \<open>What the adapter has taken, and what it has queued for the host.\<close>

definition usb_port :: "('w \<Rightarrow> byte list) \<Rightarrow> ('w \<Rightarrow> byte list) \<Rightarrow> 'w \<Rightarrow> byte list \<times> byte list" where
  "usb_port taken queue w = (taken w, queue w)"

section \<open>A target in a list of cycles\<close>

text \<open>The TDO levels in the cycles \<open>cyc\<close> that follow \<open>w\<close>.\<close>

definition shown_in :: "target \<Rightarrow> cycle list \<Rightarrow> cycle list \<Rightarrow> bool list" where
  "shown_in f w cyc = tdo_bits f (history w) (tap_view (run_tap TestLogicReset (tms_bits w)) cyc)"

lemma length_shown_in [simp]: "length (shown_in f w cyc) = length cyc"
  by (simp add: shown_in_def)

lemma shown_in_append: "shown_in f w (xs @ ys) = shown_in f w xs @ shown_in f (w @ xs) ys"
  by (simp add: shown_in_def tap_view_append tdo_bits_append)

lemma shown_in_Nil [simp]: "shown_in f w [] = []"
  by (simp add: shown_in_def tdo_bits_def)

lemma shown_in_single [simp]: "shown_in f w [c] = [f (history w)]"
  by (simp add: shown_in_def tdo_bits_def)

end
