(* ===== verification/Mpsse_Target.thy ===== *)
theory Mpsse_Target
  imports Mpsse_Read Chip
begin

text \<open>
  The MPSSE driver with a chip and a JTAG target at the other end of the USB cable. The chip
  executes the commands of the bytes it has taken (\<open>executed\<close>) and queues, for every cycle with a
  capture, the TDO level of the target; the target is any function from what its TAP controller
  has seen to a TDO level. \<open>mpsse_chip\<close> states this of the environment. The theory holds what the
  operations of the driver do in this environment; the contract they keep is in \<open>Mpsse_Pipeline\<close>.
\<close>

section \<open>What the chip has executed\<close>

text \<open>The complete commands at the front of a byte stream; an incomplete one waits for its rest.\<close>

function executed :: "byte list \<Rightarrow> mpsse_cmd list" where
  "executed bs = (case parse_cmd bs of None \<Rightarrow> [] | Some (c, r) \<Rightarrow> c # executed r)"
  by pat_completeness auto
termination
  by (relation "measure length") (auto dest: parse_cmd_length)

declare executed.simps [simp del]

lemma executed_append: "\<exists>ds. executed (xs @ ys) = executed xs @ ds"
proof (induction xs rule: executed.induct)
  case (1 xs)
  show ?case
  proof (cases "parse_cmd xs")
    case None
    then show ?thesis by (simp add: executed.simps [of xs])
  next
    case (Some p)
    obtain c r where p: "p = (c, r)" by fastforce
    with Some have c: "parse_cmd xs = Some (c, r)" by simp
    from "1.IH" [OF c refl] obtain ds where "executed (r @ ys) = executed r @ ds" by blast
    with c parse_cmd_append [OF c, of ys] show ?thesis
      by (simp add: executed.simps [of xs] executed.simps [of "xs @ ys"])
  qed
qed

lemma executed_decode: "decode bs = Some cs \<Longrightarrow> executed bs = cs"
proof (induction bs arbitrary: cs rule: decode.induct)
  case (1 bs)
  show ?case
  proof (cases "bs = []")
    case True
    with "1.prems" show ?thesis by (simp add: executed.simps [of "[]"])
  next
    case False
    with "1.prems" obtain c r cs' where p: "parse_cmd bs = Some (c, r)" "decode r = Some cs'" "cs = c # cs'"
      by (auto simp: decode.simps [of bs] split: option.splits)
    with "1.IH" [OF False p(1) refl p(2)] show ?thesis by (simp add: executed.simps [of bs])
  qed
qed

text \<open>The TDO levels captured in the cycles \<open>cyc\<close> that follow \<open>w\<close>.\<close>

fun captured :: "target \<Rightarrow> cycle list \<Rightarrow> cycle list \<Rightarrow> bool list" where
  "captured f w [] = []"
| "captured f w (c # cs) = (if cyc_cap c then [f (history w)] else []) @ captured f (w @ [c]) cs"

lemma captured_append: "captured f w (xs @ ys) = captured f w xs @ captured f (w @ xs) ys"
  by (induction xs arbitrary: w) simp_all

lemma captured_none: "\<forall>c \<in> set cs. \<not> cyc_cap c \<Longrightarrow> captured f w cs = []"
  by (induction cs arbitrary: w) simp_all

lemma captured_all:
  "\<forall>c \<in> set cs. cyc_cap c \<Longrightarrow>
     captured f w cs = tdo_bits f (history w) (tap_view (run_tap TestLogicReset (tms_bits w)) cs)"
proof (induction cs arbitrary: w)
  case Nil
  then show ?case by (simp add: tdo_bits_def)
next
  case (Cons c cs)
  have "tdo_bits f h (x # v) = f h # tdo_bits f (h @ [x]) v" for h x v
    using tdo_bits_append [of f h "[x]" v] by (simp add: tdo_bits_def)
  with Cons.IH [of "w @ [c]"] Cons.prems show ?case by (simp add: tap_view_append)
qed

text \<open>The captures of the commands \<open>ds\<close> after the commands \<open>cs\<close>.\<close>

definition cmd_tdo :: "target \<Rightarrow> mpsse_cmd list \<Rightarrow> mpsse_cmd list \<Rightarrow> bool list" where
  "cmd_tdo f cs ds = captured f (run_cmds True cs) (run_cmds (level_after True cs) ds)"

lemma cmd_tdo_append: "cmd_tdo f cs (ds @ es) = cmd_tdo f cs ds @ cmd_tdo f (cs @ ds) es"
  by (simp add: cmd_tdo_def run_cmds_append captured_append)

fun silent :: "mpsse_cmd \<Rightarrow> bool" where
  "silent (ClockTms n d rd) = (\<not> rd)"
| "silent (ShiftBytes ds rd) = (\<not> rd)"
| "silent (ShiftBits n d rd) = (\<not> rd)"
| "silent _ = True"

lemma silent_tdo: "list_all silent ds \<Longrightarrow> cmd_tdo f cs ds = []"
proof -
  have "silent c \<Longrightarrow> \<forall>x \<in> set (cmd_cycles l c). \<not> cyc_cap x" for c l by (cases c) auto
  then have "list_all silent ds \<Longrightarrow> \<forall>c \<in> set (run_cmds l ds). \<not> cyc_cap c" for l
    by (induction ds arbitrary: l) auto
  then show "list_all silent ds \<Longrightarrow> cmd_tdo f cs ds = []" by (simp add: cmd_tdo_def captured_none)
qed

lemma answers_append:
  "answers cs t r \<Longrightarrow> answers ds u q \<Longrightarrow> answers (cs @ ds) (t @ u) (r @ q)"
proof (induction cs t r rule: answers.induct)
  case (2 ds' cs t r)
  have "\<forall>i < 8 * length ds'. bit_at (r @ q) i = (t @ u) ! i"
    using "2.prems"(1) by (auto simp: bit_at_append nth_append)
  with 2 show ?case by simp
qed (auto simp: nth_append)

lemma answers_silent: "list_all silent ps \<Longrightarrow> answers (ps @ cs) t r = answers cs t r"
proof (induction ps)
  case Nil
  then show ?case by simp
next
  case (Cons p ps)
  then show ?case by (cases p) simp_all
qed

lemma answers_silent_end: "list_all silent ps \<Longrightarrow> answers (cs @ ps) t r = answers cs t r"
proof (induction cs t r rule: answers.induct)
  case (1 tdo reply)
  then show ?case using answers_silent [of ps "[]"] by simp
qed simp_all

section \<open>The environment\<close>

text \<open>
  \<open>taken\<close> are the bytes the chip has taken, \<open>queue\<close> those it has queued and the host not yet read.
\<close>

definition newly :: "byte list \<Rightarrow> byte list \<Rightarrow> mpsse_cmd list" where
  "newly u v = drop (length (executed u)) (executed (u @ v))"

lemma executed_newly: "executed (u @ v) = executed u @ newly u v"
  using executed_append [of u v] by (auto simp: newly_def)

definition mpsse_chip :: "'w ext \<Rightarrow> target \<Rightarrow> ('w \<Rightarrow> byte list) \<Rightarrow> ('w \<Rightarrow> byte list) \<Rightarrow> bool" where
  "mpsse_chip E f taken queue \<longleftrightarrow> ftdi_fifo E queue \<and>
     (\<forall>n w. taken (snd (ftdi_read_data E n w)) = taken w) \<and>
     (\<forall>data w r w'. ftdi_write_data E data w = (r, w') \<longrightarrow>
        taken w' = taken w @ accepted r data \<and>
        (\<exists>reply. queue w' = queue w @ reply \<and>
           answers (newly (taken w) (accepted r data))
             (cmd_tdo f (executed (taken w)) (newly (taken w) (accepted r data))) reply))"

text \<open>
  The invariant of the writes: the chip has taken what the log says, and its queue holds the
  answers to all commands from the \<open>m\<close>-th on.
\<close>

definition since :: "target \<Rightarrow> nat \<Rightarrow> byte list \<Rightarrow> byte list \<Rightarrow> bool" where
  "since f m u q \<longleftrightarrow> m \<le> length (executed u) \<and>
     answers (drop m (executed u)) (cmd_tdo f (take m (executed u)) (drop m (executed u))) q"

lemma usb_writes_since:
  assumes "mpsse_chip E f taken queue"
  shows "usb_writes E u w v x \<Longrightarrow> taken w = u \<Longrightarrow> since f m u (queue w) \<Longrightarrow>
     taken x = v \<and> since f m v (queue x) \<and> (\<exists>bs. v = u @ bs)"
proof (induction rule: usb_writes.induct)
  case (usb_done u w)
  then show ?case by simp
next
  case (usb_write data w r w1 u v w2)
  let ?n = "newly u (accepted r data)"
  from assms usb_write.hyps(1) usb_write.prems(1) obtain reply where
    w1: "taken w1 = u @ accepted r data" "queue w1 = queue w @ reply" "answers ?n (cmd_tdo f (executed u) ?n) reply"
    unfolding mpsse_chip_def by metis
  have m: "m \<le> length (executed u)" using usb_write.prems(2) by (simp add: since_def)
  have "answers (drop m (executed u) @ ?n)
      (cmd_tdo f (take m (executed u)) (drop m (executed u)) @ cmd_tdo f (executed u) ?n) (queue w @ reply)"
    using usb_write.prems(2) w1(3) by (intro answers_append) (simp_all add: since_def)
  then have "since f m (u @ accepted r data) (queue w1)"
    using m cmd_tdo_append [of f "take m (executed u)" "drop m (executed u)" ?n] w1(2)
    by (simp add: since_def executed_newly)
  from usb_write.IH [OF w1(1) this] show ?case by auto
qed

lemma usb_writes_taken:
  assumes "mpsse_chip E f taken queue"
  shows "usb_writes E u w v x \<Longrightarrow> taken w = u \<Longrightarrow> taken x = v"
proof (induction rule: usb_writes.induct)
  case (usb_write data w r w1 u v w2)
  with assms show ?case unfolding mpsse_chip_def by metis
qed

section \<open>The operations only write\<close>

lemma written_pos [simp]:
  "written E s (t\<lparr>mpsse_buffer_pos := p\<rparr>) = written E s t" "written E s (t\<lparr>mpsse_buffer := b\<rparr>) = written E s t"
  "written E s (t\<lparr>state := x\<rparr>) = written E s t" "written E (s\<lparr>state := x\<rparr>) t = written E s t"
  by (simp_all add: written_def)

lemma flush_written: "mpsse_buffer_flush E s = (ok, t) \<Longrightarrow> written E s t"
  by (auto simp: mpsse_buffer_flush_def written_refl dest: write_retry_written split: if_splits prod.splits)

lemma ensure_written: "mpsse_buffer_ensure_space E n s = (ok, t) \<Longrightarrow> written E s t"
  by (auto simp: mpsse_buffer_ensure_space_def written_refl dest: flush_written split: if_splits)

lemma append_written:
  "mpsse_buffer_append_byte b s = Inr t \<Longrightarrow> written E s t"
  "mpsse_buffer_append data n s = Inr t \<Longrightarrow> written E s t"
  by (auto simp: mpsse_buffer_append_byte_def mpsse_buffer_append_def written_refl split: if_splits)

lemma append_all_written: "append_all bs s = Inr t \<Longrightarrow> written E s t"
proof (induction bs arbitrary: s)
  case Nil
  then show ?case by (simp add: written_refl)
next
  case (Cons b bs)
  then show ?case by (auto simp: result_iff intro: written_trans append_written(1))
qed

lemmas write_steps = flush_written ensure_written append_written append_all_written

lemma tms_loop_written: "mpsse_tms_loop E data n i k s = Inr (ok, t) \<Longrightarrow> written E s t"
proof (induction k arbitrary: i s)
  case 0
  then show ?case by (simp add: written_refl)
next
  case (Suc k)
  obtain ok1 a where e: "mpsse_buffer_ensure_space E 3 s = (ok1, a)" by fastforce
  from Suc e show ?case
    by (auto simp: Let_def check_then_def result_iff simp del: append_all.simps split: if_splits
        intro: ensure_written written_trans [OF ensure_written [OF e]] written_trans [OF append_all_written])
qed

lemma packet_written:
  assumes "check_then (Inr (mpsse_buffer_ensure_space E n s)) f = Inr (ok, t)"
    and "\<And>a ok t. f a = Inr (ok, t) \<Longrightarrow> written E a t"
  shows "written E s t"
proof -
  obtain b a where e: "mpsse_buffer_ensure_space E n s = (b, a)" by fastforce
  with assms ensure_written [OF e] show ?thesis by (cases b) (auto intro: written_trans)
qed

lemma check_written:
  assumes "check_then m f = Inr (ok, t)" "\<And>ok a. m = Inr (ok, a) \<Longrightarrow> written E s a"
    and "\<And>a ok t. f a = Inr (ok, t) \<Longrightarrow> written E a t"
  shows "written E s t"
proof (cases m)
  case (Inl e)
  with assms(1) show ?thesis by simp
next
  case (Inr p)
  obtain b a where p: "p = (b, a)" by fastforce
  with Inr assms(1,3) assms(2) [of b a] show ?thesis by (cases b) (auto intro: written_trans)
qed

lemma appends_written:
  "bindR (append_all bs a) (\<lambda>s. Inr (True, s)) = Inr (ok, t) \<Longrightarrow> written E a t"
  "bindR (append_all bs a) (\<lambda>s. bindR (mpsse_buffer_append data n s) (\<lambda>s. Inr (True, s))) = Inr (ok, t) \<Longrightarrow> written E a t"
  by (auto simp: result_iff simp del: append_all.simps intro: append_all_written
      intro: written_trans [OF append_all_written append_written(2)])

lemma send_parts_written:
  "mpsse_send_bytes E data n rf s = Inr (ok, t) \<Longrightarrow> written E s t"
  "mpsse_send_bits E data n rf s = Inr (ok, t) \<Longrightarrow> written E s t"
  "mpsse_send_last E data n flip rf s = Inr (ok, t) \<Longrightarrow> written E s t"
proof -
  show "written E s t" if "mpsse_send_bytes E data n rf s = Inr (ok, t)"
    using that by (auto simp: mpsse_send_bytes_def written_refl simp del: append_all.simps split: if_splits
        elim!: packet_written intro: appends_written(2))
  show "written E s t" if "mpsse_send_bits E data n rf s = Inr (ok, t)"
    using that by (auto simp: mpsse_send_bits_def written_refl simp del: append_all.simps split: if_splits
        elim!: packet_written intro: appends_written(1))
  have "written E (s\<lparr>state := x\<rparr>) t" if
    "check_then (Inr (mpsse_buffer_ensure_space E 3 (s\<lparr>state := x\<rparr>)))
       (\<lambda>s. bindR (append_all bs s) (\<lambda>s. Inr (True, s))) = Inr (ok, t)" for x bs
    by (rule packet_written [OF that appends_written(1)])
  then show "written E s t" if "mpsse_send_last E data n flip rf s = Inr (ok, t)"
    using that by (auto simp: mpsse_send_last_def Let_def written_refl bindR_Inr_iff simp del: append_all.simps
        split: if_splits)
qed

lemma tms_seq_written: "mpsse_jtag_tms_seq E data n s = Inr (ok, t) \<Longrightarrow> written E s t"
  by (auto simp: mpsse_jtag_tms_seq_def dest: tms_loop_written)

lemma scan_send_written:
  assumes "mpsse_jtag_scan_chain_send E data n flip rd s = Inr (ok, t)"
  shows "written E s t"
  using assms unfolding mpsse_jtag_scan_chain_send_def Let_def
  by (elim check_written) (auto elim: check_written intro: send_parts_written)

lemma recv_flush_written:
  assumes "mpsse_recv_flush E s = Inr (ok, t)"
  shows "written E s t"
proof (cases "mpsse_buffer_is_empty s")
  case True
  with assms show ?thesis by (simp add: mpsse_recv_flush_def written_refl)
next
  case False
  then have "check_then (Inr (mpsse_buffer_ensure_space E 1 s)) (\<lambda>s.
        bindR (mpsse_buffer_append_byte SEND_IMMEDIATE s) (\<lambda>s. Inr (mpsse_buffer_flush E s))) = Inr (ok, t)"
    using assms by (simp add: mpsse_recv_flush_def)
  then show ?thesis
    by (rule packet_written) (auto simp: bindR_Inr_iff intro: written_trans [OF append_written(1) flush_written])
qed

section \<open>The receive path only reads\<close>

lemma call_read_keeps:
  "mpsse_chip E f taken queue \<Longrightarrow> call_ftdi_read E n s = (r, t) \<Longrightarrow> taken (world t) = taken (world s)"
  unfolding mpsse_chip_def by (auto simp: call_ftdi_read_def split: prod.splits) (metis snd_conv)

lemma read_loop_keeps:
  assumes "mpsse_chip E f taken queue"
  shows "mpsse_read_loop E polls len got s = Inr (ok, bs, t) \<Longrightarrow> taken (world t) = taken (world s)"
proof (induction polls arbitrary: got s)
  case 0
  then show ?case by (simp split: if_splits)
next
  case (Suc polls)
  obtain r a where c: "call_ftdi_read E (len - length got) s = (r, a)" by fastforce
  from Suc c call_read_keeps [OF assms c] show ?case by (fastforce split: if_splits option.splits)
qed

lemma last_loop_keeps:
  assumes "mpsse_chip E f taken queue"
  shows "mpsse_last_loop E polls s = Inr (b, t) \<Longrightarrow> taken (world t) = taken (world s)"
proof (induction polls arbitrary: s)
  case 0
  then show ?case by simp
next
  case (Suc polls)
  obtain r a where c: "call_ftdi_read E 1 s = (r, a)" by fastforce
  from Suc c call_read_keeps [OF assms c] show ?case by (fastforce split: option.splits list.splits)
qed

lemma recv_keeps:
  assumes chip: "mpsse_chip E f taken queue" and flush: "mpsse_recv_flush E s = Inr (True, t)"
    and recv: "mpsse_jtag_scan_chain_recv E buf n flip s = Inr (ok, buf', u)"
  shows "taken (world u) = taken (world t)"
proof -
  have last: "mpsse_recv_last E b n flip v = Inr (ok, buf', u) \<Longrightarrow> taken (world u) = taken (world v)" for b v
    by (auto simp: mpsse_recv_last_def bindR_Inr_iff dest: last_loop_keeps [OF chip] split: if_splits)
  from recv show ?thesis
    unfolding mpsse_jtag_scan_chain_recv_def flush
    by (auto simp: Let_def bindR_Inr_iff dest!: read_loop_keeps [OF chip] last split: if_splits)
qed

section \<open>The contract with a target\<close>

text \<open>
  \<open>chip_inv\<close>: the driver invariant, and the chip has taken what was written.
\<close>

definition chip_inv :: "'w ext \<Rightarrow> target \<Rightarrow> ('w \<Rightarrow> byte list) \<Rightarrow> ('w \<Rightarrow> byte list) \<Rightarrow> ('w, 'z) mpsse_state_scheme \<Rightarrow> bool" where
  "chip_inv E f taken queue s \<longleftrightarrow> mpsse_inv s \<and> mpsse_chip E f taken queue \<and> taken (world s) = usb_out s"

lemma mpsse_inv_decode: "mpsse_inv s \<Longrightarrow> \<exists>cs. decode (stream s) = Some cs \<and> mpsse_wire s = run_cmds True cs"
  by (auto simp: mpsse_inv_def mpsse_wire_def split: option.splits)

lemma silent_cmds: "list_all silent (tms_cmds data n)" "list_all silent (scan_cmds data n flip False)"
  by (simp_all add: tms_cmds_def scan_cmds_def Let_def list_all_iff)

lemma chip_tms_sends:
  assumes "chip_inv E f taken queue s" "n \<le> 8 * length data"
  shows "\<exists>ok t. mpsse_jtag_tms_seq E data n s = Inr (ok, t) \<and> same_host s t \<and> state t = state s \<and>
     (usb_writes_accepted E \<longrightarrow> ok) \<and> written E s t \<and>
     (ok \<longrightarrow> chip_inv E f taken queue t \<and>
        (\<forall>cs. decode (stream s) = Some cs \<longrightarrow> decode (stream t) = Some (cs @ tms_cmds data n)) \<and>
        (\<exists>cyc. mpsse_wire t = mpsse_wire s @ cyc \<and> tms_bits cyc = bits_of data n \<and> (\<forall>c \<in> set cyc. \<not> cyc_cap c)))"
proof -
  have inv: "mpsse_inv s" "mpsse_chip E f taken queue" "taken (world s) = usb_out s"
    using assms(1) by (simp_all add: chip_inv_def)
  from mpsse_tms_seq_sends [OF mpsse_inv_safe [OF inv(1)] assms(2), of E] obtain ok t where
    t: "mpsse_jtag_tms_seq E data n s = Inr (ok, t)" "usb_writes_accepted E \<longrightarrow> ok"
      "ok \<longrightarrow> emits s (concat (map (tms_packet data n) [0..<(n + 7) div 8])) t"
    unfolding sends_def by blast
  from mpsse_tms_contract [OF inv(1) assms(2), of E] t(1) have
    c: "same_host s t" "state t = state s"
      "ok \<longrightarrow> mpsse_inv t \<and> (\<exists>cyc. mpsse_wire t = mpsse_wire s @ cyc \<and> tms_bits cyc = bits_of data n \<and>
        (\<forall>c \<in> set cyc. \<not> cyc_cap c))" by auto
  note w = tms_seq_written [OF t(1)]
  have "chip_inv E f taken queue t" if ok
    using c(3) that inv usb_writes_taken [OF inv(2) w [unfolded written_def] inv(3)] by (simp add: chip_inv_def)
  moreover have "decode (stream t) = Some (cs @ tms_cmds data n)" if ok "decode (stream s) = Some cs" for cs
    using t(3) that(1) decode_append_Some [OF that(2) decode_tms_seq] by (simp add: emits_def)
  ultimately show ?thesis using t(1,2) c w by blast
qed

text \<open>The levels captured by the commands of a scan are those of the target in its cycles.\<close>

lemma scan_tdo:
  assumes "mpsse_inv s" "decode (stream s) = Some cs" "tms_low (mpsse_wire s)" "0 < n" "n \<le> 8 * length data"
  shows "cmd_tdo f cs (scan_cmds data n flip True) = tdo_bits f (history (mpsse_wire s))
      (tap_view (run_tap TestLogicReset (tms_bits (mpsse_wire s))) (scan_cycles data n flip True))"
proof -
  have w: "mpsse_wire s = run_cmds True cs" using assms(2) by (simp add: mpsse_wire_def)
  have "level_after True cs = False" using assms(1-3) w by (auto simp: mpsse_inv_def tms_low_def)
  then have "cmd_tdo f cs (scan_cmds data n flip True) = captured f (mpsse_wire s) (scan_cycles data n flip True)"
    using scan_cmds_cycles [OF assms(4,5), of flip True] by (simp add: cmd_tdo_def w)
  then show ?thesis by (simp add: captured_all scan_cycles_cap)
qed

lemma chip_send:
  assumes "chip_inv E f taken queue s" "tms_low (mpsse_wire s)"
    and n: "0 < n" "n \<le> 8 * length data" "n \<le> SCAN_LIMIT"
  shows "\<exists>ok t. mpsse_jtag_scan_chain_send E data n flip rd s = Inr (ok, t) \<and> same_host s t \<and>
     (usb_writes_accepted E \<longrightarrow> ok) \<and> written E s t \<and>
     (ok \<longrightarrow> chip_inv E f taken queue t \<and> state t = (if flip then next_state (state s) True else state s) \<and>
        stream t = stream s @ scan_bytes data n flip rd \<and>
        mpsse_wire t = mpsse_wire s @ scan_cycles data n flip rd)"
proof -
  have inv: "mpsse_inv s" "mpsse_chip E f taken queue" "taken (world s) = usb_out s"
    using assms(1) by (simp_all add: chip_inv_def)
  from mpsse_scan_send_spec [OF mpsse_inv_safe [OF inv(1)] n, of E flip rd] obtain ok t where
    t: "mpsse_jtag_scan_chain_send E data n flip rd s = Inr (ok, t)" "usb_writes_accepted E \<longrightarrow> ok"
      "ok \<longrightarrow> stream t = stream s @ scan_bytes data n flip rd" by blast
  from mpsse_send_contract [OF inv(1) assms(2) n, of E flip rd] t(1) have
    c: "same_host s t" "ok \<longrightarrow> mpsse_inv t \<and> state t = (if flip then next_state (state s) True else state s) \<and>
        mpsse_wire t = mpsse_wire s @ scan_cycles data n flip rd" by auto
  note w = scan_send_written [OF t(1)]
  have "chip_inv E f taken queue t" if ok
    using c(2) that inv usb_writes_taken [OF inv(2) w [unfolded written_def] inv(3)] by (simp add: chip_inv_def)
  with t c w show ?thesis by blast
qed

text \<open>Before results are read, everything buffered is sent.\<close>

lemma mpsse_flush_pos:
  assumes "mpsse_safe s" "mpsse_recv_flush E s = Inr (True, t)"
  shows "usb_out t = stream t" "stream t = stream s \<or> stream t = stream s @ [SEND_IMMEDIATE]" "quiet s t" "state t = state s"
proof -
  from mpsse_recv_flush_spec [OF assms(1), of E] assms(2) have
    "mpsse_buffer_pos t = 0" "stream t = stream s \<or> stream t = stream s @ [SEND_IMMEDIATE]" "quiet s t" "state t = state s"
    by auto
  then show "usb_out t = stream t" "stream t = stream s \<or> stream t = stream s @ [SEND_IMMEDIATE]" "quiet s t"
    "state t = state s" by (simp_all add: stream_def pending_def)
qed

lemma mpsse_view_stream:
  fixes s t :: "('w, 'z) mpsse_state_scheme"
  assumes "usb_out t = usb_out s" "common_state.more t = common_state.more s"
  shows "stream t = stream s"
proof -
  have "mpsse_buffer t = mpsse_buffer s" "mpsse_buffer_pos t = mpsse_buffer_pos s"
    using assms(2) by (cases s; cases t; simp)+
  then show ?thesis using assms(1) by (simp add: stream_def pending_def)
qed

end
