(* ===== verification/Mpsse_Pipeline.thy ===== *)
theory Mpsse_Pipeline
  imports Mpsse_Target
begin

text \<open>
  Several captured scans under way at once, as the virtual cable server leaves them: the MPSSE
  driver with a chip and a target keeps the contract of a driver that queues, and every result
  that is collected holds the TDO levels the target showed when its scan was executed. With
  nothing else under way it is the driver the other servers use (\<open>chip_driver\<close>).
\<close>

section \<open>Taking the answers apart\<close>

fun capture_count :: "mpsse_cmd list \<Rightarrow> nat" where
  "capture_count [] = 0"
| "capture_count (ShiftBytes ds True # cs) = 8 * length ds + capture_count cs"
| "capture_count (ShiftBits n d True # cs) = n + capture_count cs"
| "capture_count (ClockTms n d True # cs) = n + capture_count cs"
| "capture_count (_ # cs) = capture_count cs"

lemma length_captured: "length (captured f w cyc) = length (filter cyc_cap cyc)"
  by (induction cyc arbitrary: w) simp_all

lemma length_cmd_tdo: "length (cmd_tdo f cs ds) = capture_count ds"
proof -
  have "length (filter cyc_cap (run_cmds l ds)) = capture_count ds" for l
    by (induction ds arbitrary: l rule: capture_count.induct) (simp_all add: comp_def)
  then show ?thesis by (simp add: cmd_tdo_def length_captured)
qed

lemma answers_split:
  "answers (xs @ ys) (t @ u) r \<Longrightarrow> length t = capture_count xs \<Longrightarrow>
     \<exists>r1 r2. r = r1 @ r2 \<and> answers xs t r1 \<and> answers ys u r2"
proof (induction xs t r rule: answers.induct)
  case (1 t r)
  then show ?case by simp
next
  case (2 ds xs t r)
  then have l: "length ds \<le> length r" "8 * length ds \<le> length t" "\<forall>i < 8 * length ds. bit_at r i = (t @ u) ! i"
    by simp_all
  from 2 l(2) have "answers (xs @ ys) (drop (8 * length ds) t @ u) (drop (length ds) r)"
    "length (drop (8 * length ds) t) = capture_count xs" by simp_all
  from "2.IH" [OF this] obtain r1 r2 where
    r: "drop (length ds) r = r1 @ r2" "answers xs (drop (8 * length ds) t) r1" "answers ys u r2" by blast
  let ?h = "take (length ds) r"
  have "r = (?h @ r1) @ r2" using r(1) append_take_drop_id [of "length ds" r] by simp
  moreover have "length ?h = length ds" using l(1) by simp
  moreover have "bit_at (?h @ r1) i = t ! i" if "i < 8 * length ds" for i
    using l that by (simp add: bit_at_append bit_at_take nth_append)
  ultimately show ?case using l(2) r(2,3) by (intro exI [of _ "?h @ r1"] exI [of _ r2]) simp
next
  case (3 n d xs t r)
  then have l: "r \<noteq> []" "n \<le> length t" "\<forall>j < min 8 n. bit (hd r) (8 - n + j) = (t @ u) ! j" by simp_all
  from 3 l(2) have "answers (xs @ ys) (drop n t @ u) (tl r)" "length (drop n t) = capture_count xs" by simp_all
  from "3.IH" [OF this] obtain r1 r2 where r: "tl r = r1 @ r2" "answers xs (drop n t) r1" "answers ys u r2" by blast
  have "r = (hd r # r1) @ r2" using l(1) r(1) by (cases r) simp_all
  then show ?case using l(2,3) r(2,3) by (intro exI [of _ "hd r # r1"] exI [of _ r2]) (simp add: nth_append)
next
  case (4 n d xs t r)
  then have l: "r \<noteq> []" "n \<le> length t" "\<forall>j < min 8 n. bit (hd r) (8 - n + j) = (t @ u) ! j" by simp_all
  from 4 l(2) have "answers (xs @ ys) (drop n t @ u) (tl r)" "length (drop n t) = capture_count xs" by simp_all
  from "4.IH" [OF this] obtain r1 r2 where r: "tl r = r1 @ r2" "answers xs (drop n t) r1" "answers ys u r2" by blast
  have "r = (hd r # r1) @ r2" using l(1) r(1) by (cases r) simp_all
  then show ?case using l(2,3) r(2,3) by (intro exI [of _ "hd r # r1"] exI [of _ r2]) (simp add: nth_append)
qed simp_all

section \<open>What is under way\<close>

text \<open>
  \<open>outstanding f cs q ds\<close>: after the commands \<open>cs\<close>, the commands \<open>ds\<close> are the scans \<open>q\<close> in order, with
  commands between them that capture nothing. The chip has queued the answers to the part of
  \<open>ds\<close> that it has executed.
\<close>

fun outstanding :: "target \<Rightarrow> mpsse_cmd list \<Rightarrow> owed list \<Rightarrow> mpsse_cmd list \<Rightarrow> bool" where
  "outstanding f cs [] ds \<longleftrightarrow> list_all silent ds"
| "outstanding f cs ((n, flip, bits) # q) ds \<longleftrightarrow> (\<exists>ps data es. ds = ps @ scan_cmds data n flip True @ es \<and>
     list_all silent ps \<and> n \<le> 8 * length data \<and> bits = cmd_tdo f (cs @ ps) (scan_cmds data n flip True) \<and>
     outstanding f (cs @ ps @ scan_cmds data n flip True) q es)"

lemma outstanding_silent: "outstanding f cs q ds \<Longrightarrow> list_all silent es \<Longrightarrow> outstanding f cs q (ds @ es)"
proof (induction q arbitrary: cs ds)
  case Nil
  then show ?case by simp
next
  case (Cons x q)
  obtain n flip bits where x: "x = (n, flip, bits)" by (cases x) auto
  with Cons.prems(1) obtain ps data rs where
    d: "ds = ps @ scan_cmds data n flip True @ rs" "list_all silent ps" "n \<le> 8 * length data"
      "bits = cmd_tdo f (cs @ ps) (scan_cmds data n flip True)" "outstanding f (cs @ ps @ scan_cmds data n flip True) q rs"
    by auto
  from Cons.IH [OF d(5) Cons.prems(2)] d(1-4) show ?case unfolding x
    by (simp only: outstanding.simps) (intro exI [of _ ps] exI [of _ data] exI [of _ "rs @ es"], simp)
qed

lemma outstanding_scan:
  "outstanding f cs q ds \<Longrightarrow> n \<le> 8 * length data \<Longrightarrow>
     outstanding f cs (q @ [(n, flip, cmd_tdo f (cs @ ds) (scan_cmds data n flip True))]) (ds @ scan_cmds data n flip True)"
proof (induction q arbitrary: cs ds)
  case Nil
  then show ?case
    by (simp only: outstanding.simps append_Nil) (intro exI [of _ ds] exI [of _ data] exI [of _ "[]"], simp)
next
  case (Cons x q)
  obtain k flip' bits where x: "x = (k, flip', bits)" by (cases x) auto
  with Cons.prems(1) obtain ps d rs where
    d: "ds = ps @ scan_cmds d k flip' True @ rs" "list_all silent ps" "k \<le> 8 * length d"
      "bits = cmd_tdo f (cs @ ps) (scan_cmds d k flip' True)" "outstanding f (cs @ ps @ scan_cmds d k flip' True) q rs"
    by auto
  from Cons.IH [OF d(5) Cons.prems(2)] d(1-4) show ?case unfolding x
    by (simp only: outstanding.simps append_Cons)
      (intro exI [of _ ps] exI [of _ d] exI [of _ "rs @ scan_cmds data n flip True"], simp)
qed

definition chip_owes :: "target \<Rightarrow> ('w \<Rightarrow> byte list) \<Rightarrow> owed list \<Rightarrow> ('w, 'z) mpsse_state_scheme \<Rightarrow> bool" where
  "chip_owes f queue q s \<longleftrightarrow> (\<exists>cs m. decode (stream s) = Some cs \<and> since f m (usb_out s) (queue (world s)) \<and>
     outstanding f (take m cs) q (drop m cs))"

lemma executed_prefix:
  assumes "decode (stream s) = Some cs"
  shows "length (executed (usb_out s)) \<le> length cs"
  using executed_append [of "usb_out s" "pending s"] executed_decode [OF assms] by (auto simp: stream_def)

text \<open>Writing more commands.\<close>

lemma chip_owes_grows:
  assumes "chip_inv E f taken queue s" "chip_owes f queue q s" "written E s t"
    and "decode (stream s) = Some cs"
  shows "\<exists>m. m \<le> length cs \<and> since f m (usb_out t) (queue (world t)) \<and> taken (world t) = usb_out t \<and>
     outstanding f (take m cs) q (drop m cs)"
proof -
  from assms(2,4) obtain m where m: "since f m (usb_out s) (queue (world s))" "outstanding f (take m cs) q (drop m cs)"
    by (auto simp: chip_owes_def)
  from assms(1) have s: "mpsse_chip E f taken queue" "taken (world s) = usb_out s" by (simp_all add: chip_inv_def)
  have "m \<le> length cs" using m(1) executed_prefix [OF assms(4)] by (simp add: since_def)
  with usb_writes_since [OF s(1) assms(3) [unfolded written_def] s(2) m(1)] m(2) show ?thesis by blast
qed

lemma chip_owes_silent:
  assumes "chip_inv E f taken queue s" "chip_owes f queue q s" "written E s t"
    and "decode (stream s) = Some cs" "decode (stream t) = Some (cs @ new)" "list_all silent new"
  shows "chip_owes f queue q t"
proof -
  from chip_owes_grows [OF assms(1-4)] obtain m where
    m: "m \<le> length cs" "since f m (usb_out t) (queue (world t))" "outstanding f (take m cs) q (drop m cs)" by blast
  have "outstanding f (take m (cs @ new)) q (drop m (cs @ new))"
    using outstanding_silent [OF m(3) assms(6)] m(1) by simp
  with m(2) assms(5) show ?thesis unfolding chip_owes_def by blast
qed

section \<open>The operations\<close>

lemma chip_queue_tms:
  assumes "chip_inv E f taken queue s" "n \<le> 8 * length data"
  shows "\<exists>ok t. mpsse_jtag_tms_seq E data n s = Inr (ok, t) \<and> same_host s t \<and> state t = state s \<and>
     (usb_writes_accepted E \<longrightarrow> ok) \<and>
     (ok \<longrightarrow> chip_inv E f taken queue t \<and> (chip_owes f queue q s \<longrightarrow> chip_owes f queue q t) \<and>
        (\<exists>cyc. mpsse_wire t = mpsse_wire s @ cyc \<and> tms_bits cyc = bits_of data n \<and> (\<forall>c \<in> set cyc. \<not> cyc_cap c)))"
proof -
  from chip_tms_sends [OF assms] obtain ok t where
    t: "mpsse_jtag_tms_seq E data n s = Inr (ok, t)" "same_host s t" "state t = state s" "usb_writes_accepted E \<longrightarrow> ok"
      "written E s t" "ok \<longrightarrow> chip_inv E f taken queue t"
      "ok \<longrightarrow> (\<forall>cs. decode (stream s) = Some cs \<longrightarrow> decode (stream t) = Some (cs @ tms_cmds data n))"
      "ok \<longrightarrow> (\<exists>cyc. mpsse_wire t = mpsse_wire s @ cyc \<and> tms_bits cyc = bits_of data n \<and> (\<forall>c \<in> set cyc. \<not> cyc_cap c))"
    by blast
  have "chip_owes f queue q t" if ok and owes: "chip_owes f queue q s"
  proof -
    obtain cs where cs: "decode (stream s) = Some cs" using owes by (auto simp: chip_owes_def)
    with t(7) \<open>ok\<close> have "decode (stream t) = Some (cs @ tms_cmds data n)" by blast
    from chip_owes_silent [OF assms(1) owes t(5) cs this silent_cmds(1)] show ?thesis .
  qed
  with t show ?thesis by blast
qed

lemma chip_queue_send:
  assumes "chip_inv E f taken queue s" "chip_owes f queue q s" "tms_low (mpsse_wire s)"
    and n: "0 < n" "n \<le> 8 * length data" "n \<le> SCAN_LIMIT"
  shows "\<exists>ok t. mpsse_jtag_scan_chain_send E data n flip rd s = Inr (ok, t) \<and> same_host s t \<and>
     (usb_writes_accepted E \<longrightarrow> ok) \<and>
     (ok \<longrightarrow> chip_inv E f taken queue t \<and> state t = (if flip then next_state (state s) True else state s) \<and>
        mpsse_wire t = mpsse_wire s @ scan_cycles data n flip rd \<and>
        chip_owes f queue (q @ (if rd then [(n, flip, tdo_bits f (history (mpsse_wire s))
          (tap_view (run_tap TestLogicReset (tms_bits (mpsse_wire s))) (scan_cycles data n flip True)))] else [])) t)"
proof -
  from chip_send [OF assms(1,3) n, of flip rd] obtain ok t where
    t: "mpsse_jtag_scan_chain_send E data n flip rd s = Inr (ok, t)" "same_host s t" "usb_writes_accepted E \<longrightarrow> ok"
      "written E s t" "ok \<longrightarrow> chip_inv E f taken queue t \<and> state t = (if flip then next_state (state s) True else state s) \<and>
        mpsse_wire t = mpsse_wire s @ scan_cycles data n flip rd" "ok \<longrightarrow> stream t = stream s @ scan_bytes data n flip rd"
    by blast
  obtain cs where cs: "decode (stream s) = Some cs" using assms(2) by (auto simp: chip_owes_def)
  have "mpsse_inv s" using assms(1) by (simp add: chip_inv_def)
  note tdo = scan_tdo [OF this cs assms(3) n(1,2), of f flip]
  have dec: "decode (stream t) = Some (cs @ scan_cmds data n flip rd)" if ok
    using decode_append_Some [OF cs decode_scan_bytes [OF n, of flip rd]] t(6) that by simp
  from chip_owes_grows [OF assms(1,2) t(4) cs] obtain m where
    m: "m \<le> length cs" "since f m (usb_out t) (queue (world t))" "outstanding f (take m cs) q (drop m cs)" by blast
  have "chip_owes f queue (q @ [(n, flip, cmd_tdo f cs (scan_cmds data n flip True))]) t" if ok rd
  proof -
    have "outstanding f (take m (cs @ scan_cmds data n flip True))
        (q @ [(n, flip, cmd_tdo f cs (scan_cmds data n flip True))]) (drop m (cs @ scan_cmds data n flip True))"
      using outstanding_scan [OF m(3) n(2), of flip] m(1) by simp
    with m(2) dec that show ?thesis unfolding chip_owes_def by auto
  qed
  moreover have "chip_owes f queue q t" if ok "\<not> rd"
    using chip_owes_silent [OF assms(1,2) t(4) cs dec] silent_cmds(2) [of data n flip] that by simp
  ultimately show ?thesis using t(1-3,5) unfolding tdo by (intro exI [of _ ok] exI [of _ t]) auto
qed

lemma chip_queue_recv:
  assumes inv: "chip_inv E f taken queue s" and owes: "chip_owes f queue ((n, flip, bits) # q) s"
    and n: "0 < n" "n \<le> SCAN_LIMIT" "n \<le> 8 * length buf" and live: "usb_writes_accepted E" "4096 \<le> ext_polls E"
  shows "\<exists>buf' u. mpsse_jtag_scan_chain_recv E buf n flip s = Inr (True, buf', u) \<and> same_host s u \<and>
     state u = state s \<and> chip_inv E f taken queue u \<and> chip_owes f queue q u \<and> mpsse_wire u = mpsse_wire s \<and>
     length buf' = length buf \<and> (last_bit_free buf n flip \<longrightarrow> bits_of buf' n = bits)"
proof -
  have chip: "mpsse_chip E f taken queue" "ftdi_fifo E queue" using inv by (simp_all add: chip_inv_def mpsse_chip_def)
  have it: "mpsse_inv s" "mpsse_safe s" using inv mpsse_inv_safe [of s] by (simp_all add: chip_inv_def)
  from mpsse_recv_flush_spec [OF it(2), of E] live(1) obtain a where flush: "mpsse_recv_flush E s = Inr (True, a)" by auto
  note a = mpsse_flush_pos [OF it(2) flush]
  obtain cs where cs: "decode (stream s) = Some cs" using owes by (auto simp: chip_owes_def)
  obtain x where x: "decode (stream a) = Some (cs @ x)" "list_all silent x"
    using a(2) cs decode_append_Some [OF cs decode_send_immediate] by fastforce
  from chip_owes_grows [OF inv owes recv_flush_written [OF flush] cs] obtain m where
    m: "m \<le> length cs" "since f m (usb_out a) (queue (world a))" "taken (world a) = usb_out a"
      "outstanding f (take m cs) ((n, flip, bits) # q) (drop m cs)" by blast
  from m(4) obtain ps data es where
    d: "drop m cs = ps @ scan_cmds data n flip True @ es" "list_all silent ps" "n \<le> 8 * length data"
      "bits = cmd_tdo f (take m cs @ ps) (scan_cmds data n flip True)"
      "outstanding f (take m cs @ ps @ scan_cmds data n flip True) q es" by auto
  let ?scan = "scan_cmds data n flip True" and ?b = "take m cs"
  let ?m = "m + length ps + length ?scan"
  let ?rest = "cmd_tdo f (?b @ ps @ ?scan) (es @ x)"
  have ex: "executed (usb_out a) = cs @ x" using executed_decode [OF x(1)] a(1) by simp
  have csd: "cs = ?b @ ps @ ?scan @ es" using d(1) append_take_drop_id [of m cs] by simp
  have lb: "length ?b = m" using m(1) by simp
  have all: "answers (drop m (cs @ x)) (cmd_tdo f (take m (cs @ x)) (drop m (cs @ x))) (queue (world a))"
    using m(2) unfolding since_def ex by blast
  have at_m: "drop m (cs @ x) = ps @ ?scan @ (es @ x)" "take m (cs @ x) = ?b" using d(1) m(1) by simp_all
  have tdo: "cmd_tdo f ?b (ps @ ?scan @ (es @ x)) = bits @ ?rest"
    by (simp only: cmd_tdo_append silent_tdo [OF d(2)] d(4) append_Nil append_assoc)
  have "answers (?scan @ (es @ x)) (bits @ ?rest) (queue (world a))"
    using all by (simp only: at_m tdo answers_silent [OF d(2)])
  moreover have "length bits = capture_count ?scan" by (simp add: d(4) length_cmd_tdo)
  ultimately obtain r1 r2 where
    r: "queue (world a) = r1 @ r2" "answers ?scan bits r1" "answers (es @ x) ?rest r2" using answers_split by blast
  from mpsse_recv_answer [OF chip(2) live(2) n(1) d(3) n(3,2) flush r(1,2)] obtain buf' v where
    "mpsse_jtag_scan_chain_recv E buf n flip s = Inr (True, buf', a\<lparr>world := v\<rparr>) \<and>
     ((flip \<and> (n - 1) mod 8 = 0 \<longrightarrow> \<not> bit_at buf (n - 1)) \<longrightarrow> bits_of buf' n = bits) \<and>
     queue v = r2 \<and> length buf' = length buf" by (elim exE)
  then have recv: "mpsse_jtag_scan_chain_recv E buf n flip s = Inr (True, buf', a\<lparr>world := v\<rparr>)" "queue v = r2"
      "length buf' = length buf" "last_bit_free buf n flip \<longrightarrow> bits_of buf' n = bits" by (simp_all add: last_bit_free_def)
  have tk: "taken v = usb_out a" using recv_keeps [OF chip(1) flush recv(1)] m(3) by simp
  have inv_a: "mpsse_inv a \<and> mpsse_wire a = mpsse_wire s"
  proof (cases "stream a = stream s")
    case True
    with stream_grows [OF it(1) quiet_safe [OF a(3)], of "[]" "[]"] show ?thesis by simp
  next
    case False
    with a(2) stream_grows [OF it(1) quiet_safe [OF a(3)] _ decode_send_immediate] show ?thesis by auto
  qed
  let ?u = "a\<lparr>world := v\<rparr>"
  have view: "mpsse_inv ?u = mpsse_inv a" "mpsse_wire ?u = mpsse_wire a" "stream ?u = stream a" "usb_out ?u = usb_out a"
    using mpsse_view [of ?u a] by simp_all
  have "length cs = length (?b @ ps @ ?scan @ es)" using arg_cong [OF csd, of length] .
  then have len: "?m \<le> length (cs @ x)" using lb by simp
  have cut: "take ?m (cs @ x) = ?b @ ps @ ?scan" "drop ?m (cs @ x) = es @ x"
    using lb by (subst csd, simp)+
  have "since f ?m (usb_out ?u) (queue (world ?u))"
    using r(3) len unfolding since_def view ex cut by (simp add: recv(2))
  moreover have "outstanding f (take ?m (cs @ x)) q (drop ?m (cs @ x))"
    unfolding cut by (rule outstanding_silent [OF d(5) x(2)])
  ultimately have "chip_owes f queue q ?u" using x(1) view(3) unfolding chip_owes_def by metis
  moreover have "chip_inv E f taken queue ?u" using inv_a view tk chip(1) by (simp add: chip_inv_def)
  moreover have "same_host s ?u" using a(3) by (simp add: quiet_def same_host_def)
  ultimately show ?thesis using recv inv_a view a(4)
    by (intro exI [of _ buf'] exI [of _ ?u]) auto
qed

text \<open>Clocking without data and a change of the clock send commands that capture nothing.\<close>

lemma direct_written: "Inr (ftdi_write_retry E bs s) = Inr (ok, t) \<Longrightarrow> written E s t"
  by (simp add: write_retry_written)

lemma clock_written:
  assumes "mpsse_jtag_clock_tck E count s = Inr (ok, t)"
  shows "written E s t"
  using assms unfolding mpsse_jtag_clock_tck_def
  by (rule check_written)
    (auto simp: Let_def written_refl dest: flush_written split: if_splits
      elim!: check_written intro: direct_written)

lemma set_tck_written:
  assumes "mpsse_set_tck_freq E freq s = Inr (ok, t)"
  shows "written E s t"
  using assms unfolding mpsse_set_tck_freq_def
  by (rule check_written) (auto simp: result_iff dest: flush_written intro: direct_written)

text \<open>An operation that sends silent commands, over the contract of \<open>mpsse_inv\<close>.\<close>

lemma chip_queue_sends:
  assumes inv: "chip_inv E f taken queue s" and owes: "chip_owes f queue q s"
    and sends: "sends E op s bs" and op: "op s = Inr (ok, t)" "written E s t"
    and silent: "decode bs = Some new" "list_all silent new" and keep: "ok \<longrightarrow> mpsse_inv t"
  shows "(usb_writes_accepted E \<longrightarrow> ok) \<and> (ok \<longrightarrow> chip_inv E f taken queue t \<and> chip_owes f queue q t)"
proof -
  have chip: "mpsse_chip E f taken queue" "taken (world s) = usb_out s" using inv by (simp_all add: chip_inv_def)
  have s: "usb_writes_accepted E \<longrightarrow> ok" "ok \<longrightarrow> emits s bs t" using sends op(1) by (auto simp: sends_def)
  have "chip_inv E f taken queue t" if ok
    using keep that chip usb_writes_taken [OF chip(1) op(2) [unfolded written_def] chip(2)] by (simp add: chip_inv_def)
  moreover have "chip_owes f queue q t" if ok
  proof -
    obtain cs where cs: "decode (stream s) = Some cs" using owes by (auto simp: chip_owes_def)
    have "decode (stream t) = Some (cs @ new)"
      using s(2) that decode_append_Some [OF cs silent(1)] by (simp add: emits_def)
    from chip_owes_silent [OF inv owes op(2) cs this silent(2)] show ?thesis .
  qed
  ultimately show ?thesis using s(1) by blast
qed

lemma chip_queue_clock:
  assumes inv: "chip_inv E f taken queue s" and owes: "chip_owes f queue q s" and ne: "mpsse_wire s \<noteq> []"
    and count: "count \<le> CLOCK_LIMIT"
  shows "\<exists>ok t. mpsse_jtag_clock_tck E count s = Inr (ok, t) \<and> same_host s t \<and> state t = state s \<and>
     (usb_writes_accepted E \<longrightarrow> ok) \<and>
     (ok \<longrightarrow> chip_inv E f taken queue t \<and> chip_owes f queue q t \<and>
        mpsse_wire t = mpsse_wire s @ replicate count (Cycle (cyc_tms (last (mpsse_wire s))) None False))"
proof -
  have i: "mpsse_inv s" using inv by (simp add: chip_inv_def)
  from mpsse_clock_contract [OF i ne count, of E] obtain ok t where
    t: "mpsse_jtag_clock_tck E count s = Inr (ok, t)" "same_host s t" "state t = state s"
      "ok \<longrightarrow> mpsse_inv t \<and> mpsse_wire t = mpsse_wire s @ replicate count (Cycle (cyc_tms (last (mpsse_wire s))) None False)"
    by blast
  have sil: "list_all silent (clock_cmds count)" by (simp add: clock_cmds_def)
  have keep: "ok \<longrightarrow> mpsse_inv t" using t(4) by blast
  from chip_queue_sends [OF inv owes mpsse_clock_sends [OF mpsse_inv_safe [OF i]] t(1) clock_written [OF t(1)]
      decode_clock_bytes [OF count] sil keep] t
  show ?thesis by blast
qed

lemma chip_queue_freq:
  assumes inv: "chip_inv E f taken queue s" and owes: "chip_owes f queue q s" and freq: "0 < freq" "freq \<le> 1000"
  shows "\<exists>ok t. mpsse_set_tck_freq E freq s = Inr (ok, t) \<and> same_host s t \<and> state t = state s \<and>
     (usb_writes_accepted E \<longrightarrow> ok) \<and>
     (ok \<longrightarrow> chip_inv E f taken queue t \<and> chip_owes f queue q t \<and> mpsse_wire t = mpsse_wire s)"
proof -
  have i: "mpsse_inv s" using inv by (simp add: chip_inv_def)
  from mpsse_set_tck_contract [OF i freq, of E] obtain ok t where
    t: "mpsse_set_tck_freq E freq s = Inr (ok, t)" "same_host s t" "state t = state s"
      "ok \<longrightarrow> mpsse_inv t \<and> mpsse_wire t = mpsse_wire s" by blast
  have "unat freq \<le> 1000" using freq(2) by (simp add: word_le_nat_alt)
  then have "unat freq \<le> 2 ^ 64 - 30" by simp
  with tck_divisor_eq [OF freq(1)] obtain d where d: "tck_divisor freq = Inr d" by blast
  have sil: "list_all silent [Divisor (of_int d) 0, DisableDiv5]" by simp
  have keep: "ok \<longrightarrow> mpsse_inv t" using t(4) by blast
  from chip_queue_sends [OF inv owes mpsse_set_tck_sends [OF mpsse_inv_safe [OF i] d] t(1) set_tck_written [OF t(1)]
      decode_divisor sil keep] t
  show ?thesis by blast
qed

interpretation chip_queue: pipelined_driver "mpsse_driver E" "chip_inv E f taken queue" "chip_owes f queue" mpsse_wire
    "usb_writes_accepted E \<and> 4096 \<le> ext_polls E" "usb_port taken queue" "Some f"
  for E :: "'w ext" and f taken queue
proof (intro pipelined_driver.intro, goal_cases)
  case (1 q)
  show ?case
  proof (unfold_locales, goal_cases)
    case (1 t s)
    then have "stream t = stream s" using mpsse_view_stream by blast
    then show ?case using mpsse_view [OF 1(1,2)] 1(1,3) by (simp add: chip_inv_def chip_owes_def usb_port_def)
  next
    case (2 s n data)
    with chip_queue_tms [of E f taken queue s n data q] show ?case by (auto simp: mpsse_driver_def)
  qed
next
  case (2 s q n data flip rd)
  with chip_queue_send [of E f taken queue s q n data flip rd] show ?case by (auto simp: mpsse_driver_def)
next
  case (3 s q count)
  with chip_queue_clock [of E f taken queue s q count] show ?case by (auto simp: mpsse_driver_def)
next
  case (4 s n flip bits q buf)
  with chip_queue_recv [of E f taken queue s n flip bits q buf] show ?case by (auto simp: mpsse_driver_def)
next
  case (5 s q freq)
  with chip_queue_freq [of E f taken queue s q freq] show ?case by (auto simp: mpsse_driver_def)
qed

text \<open>\<open>chip_idle\<close>: every answer has been read, and no command that is still buffered captures anything.\<close>

definition chip_idle :: "('w \<Rightarrow> byte list) \<Rightarrow> ('w, 'z) mpsse_state_scheme \<Rightarrow> bool" where
  "chip_idle queue s \<longleftrightarrow> queue (world s) = [] \<and>
     (\<exists>ps. decode (stream s) = Some (executed (usb_out s) @ ps) \<and> list_all silent ps)"

lemma chip_owes_none: "chip_owes f queue [] s \<longleftrightarrow> chip_idle queue s"
proof
  assume "chip_owes f queue [] s"
  then obtain cs m where
    c: "decode (stream s) = Some cs" "since f m (usb_out s) (queue (world s))" "list_all silent (drop m cs)"
    by (auto simp: chip_owes_def)
  obtain ds where ds: "cs = executed (usb_out s) @ ds"
    using executed_append [of "usb_out s" "pending s"] executed_decode [OF c(1)] by (auto simp: stream_def)
  have m: "m \<le> length (executed (usb_out s))" using c(2) by (simp add: since_def)
  then have sil: "list_all silent (drop m (executed (usb_out s)))" "list_all silent ds" using c(3) by (simp_all add: ds)
  have "queue (world s) = []" using c(2) answers_silent [OF sil(1), of "[]"] by (simp add: since_def)
  with c(1) ds sil(2) show "chip_idle queue s" by (auto simp: chip_idle_def)
next
  assume "chip_idle queue s"
  then obtain ps where p: "queue (world s) = []" "decode (stream s) = Some (executed (usb_out s) @ ps)" "list_all silent ps"
    by (auto simp: chip_idle_def)
  have "since f (length (executed (usb_out s))) (usb_out s) (queue (world s))"
    by (simp add: since_def p(1) cmd_tdo_def)
  with p(2,3) show "chip_owes f queue [] s"
    unfolding chip_owes_def by (intro exI [of _ "executed (usb_out s) @ ps"] exI [of _ "length (executed (usb_out s))"]) simp
qed

lemma chip_owes_Nil: "chip_owes f queue [] = chip_idle queue"
  by (rule ext) (rule chip_owes_none)

lemma chip_driver:
  "jtag_driver (mpsse_driver E) (chip_inv E f taken queue) (chip_idle queue) mpsse_wire
     (usb_writes_accepted E \<and> 4096 \<le> ext_polls E) (usb_port taken queue) (Some f)"
  using chip_queue.single.jtag_driver_axioms [of E f taken queue] by (simp only: chip_owes_Nil)

end
