(* ===== verification/Targets.thy ===== *)
theory Targets
  imports Servers Mpsse_Pipeline
begin

text \<open>
  The program with a JTAG target: the servers on the MPSSE driver, the chip and the target behind
  it. What a client is told is what the target answered.
\<close>

section \<open>A chip that can be run\<close>

text \<open>
  \<open>target_ext f cmds\<close>: an adapter with an MPSSE chip and the target \<open>f\<close>, and a client that sends
  \<open>cmds\<close>. The world is what the chip has taken and what it has queued.
\<close>

fun reply_bytes :: "mpsse_cmd list \<Rightarrow> bool list \<Rightarrow> byte list" where
  "reply_bytes [] tdo = []"
| "reply_bytes (ShiftBytes ds True # cs) tdo =
     map (\<lambda>i. packed (take 8 (drop (8 * i) tdo))) [0..<length ds] @ reply_bytes cs (drop (8 * length ds) tdo)"
| "reply_bytes (ShiftBits n d True # cs) tdo = packed (replicate (8 - n) False @ take n tdo) # reply_bytes cs (drop n tdo)"
| "reply_bytes (ClockTms n d True # cs) tdo = packed (replicate (8 - n) False @ take n tdo) # reply_bytes cs (drop n tdo)"
| "reply_bytes (_ # cs) tdo = reply_bytes cs tdo"

lemma bit_packed_bytes:
  assumes "i < 8 * k" "8 * k \<le> length z"
  shows "bit_at (map (\<lambda>i. packed (take 8 (drop (8 * i) z))) [0..<k] @ r) i = z ! i"
proof -
  define q m where "q = i div 8" and "m = i mod 8"
  have i: "i = 8 * q + m" "m < 8" "q < k" using assms(1) by (simp_all add: q_def m_def div_less_bits)
  then have "8 * q + 8 \<le> length z" using assms(2) by linarith
  then have "m < length z - 8 * q" "8 * q \<le> length z" using i(2) by linarith+
  then show ?thesis using i
    by (simp add: bit_at_def nth_append bit_packed q_def [symmetric] m_def [symmetric])
qed

lemma length_captured_all: "\<forall>c \<in> set cs. cyc_cap c \<Longrightarrow> length (captured f w cs) = length cs"
  by (induction cs arbitrary: w) simp_all

lemma answers_reply_step:
  assumes "answers cs y (reply_bytes cs y)" "length x = (if silent c then 0 else length (cmd_cycles l c))"
  shows "answers (c # cs) (x @ y) (reply_bytes (c # cs) (x @ y))"
proof (cases "silent c")
  case True
  then show ?thesis using assms by (cases c) simp_all
next
  case False
  have low: "bit (packed (replicate (8 - n) False @ take n z)) (8 - n + j) = z ! j" if "j < min 8 n" "n \<le> length z" for j n z
    using that by (auto simp: bit_packed nth_append)
  from False consider ds where "c = ShiftBytes ds True" | n d where "c = ShiftBits n d True" | n d where "c = ClockTms n d True"
    by (cases c) auto
  then show ?thesis
  proof cases
    case 1
    then have l: "length x = 8 * length ds" using assms(2) by simp
    define z where "z = x @ y"
    have "8 * length ds \<le> length z" "drop (8 * length ds) z = y" using l by (simp_all add: z_def)
    then show ?thesis using assms(1) bit_packed_bytes [of _ "length ds" z]
      unfolding 1 z_def [symmetric] by simp
  next
    case 2
    then have l: "length x = n" using assms(2) by simp
    then show ?thesis using assms(1) low [of _ n "x @ y"] unfolding 2 by simp
  next
    case 3
    then have l: "length x = n" using assms(2) by simp
    then show ?thesis using assms(1) low [of _ n "x @ y"] unfolding 3 by simp
  qed
qed

lemma answers_reply: "answers cs (captured f w (run_cmds l cs)) (reply_bytes cs (captured f w (run_cmds l cs)))"
proof (induction cs arbitrary: l w)
  case Nil
  then show ?case by simp
next
  case (Cons c cs)
  have "silent c \<Longrightarrow> captured f w (cmd_cycles l c) = []" by (rule captured_none) (cases c; auto)
  moreover have "\<not> silent c \<Longrightarrow> length (captured f w (cmd_cycles l c)) = length (cmd_cycles l c)"
    by (rule length_captured_all) (cases c; auto)
  ultimately have "length (captured f w (cmd_cycles l c)) = (if silent c then 0 else length (cmd_cycles l c))" by simp
  from answers_reply_step [OF Cons.IH [of "w @ cmd_cycles l c" "cmd_level l c"] this]
  show ?case by (simp only: run_cmds.simps captured_append)
qed

definition target_ext :: "target \<Rightarrow> byte list \<Rightarrow> (byte list \<times> byte list) ext" where
  "target_ext f cmds = \<lparr>
     ftdi_write_data = (\<lambda>bs (u, q). (Some (length bs),
       (u @ bs, q @ reply_bytes (newly u bs) (cmd_tdo f (executed u) (newly u bs))))),
     ftdi_read_data = (\<lambda>n (u, q). (Some (take n q), (u, drop n q))),
     ftdi_control = (\<lambda>op w. (if op = Ftdi_new then 1 else 0, w)),
     sock_write = (\<lambda>fd bs w. (Some (length bs), w)),
     sock_read = (\<lambda>fd n w. (Some cmds, w)),
     sock_control = (\<lambda>op w. (0, w)),
     ext_polls = 4096, ext_stack = (\<lambda>n. [])\<rparr>"

lemma target_ext_facts [simp]:
  "mpsse_chip (target_ext f cmds) f fst snd" "usb_writes_accepted (target_ext f cmds)"
  "ext_polls (target_ext f cmds) = 4096" "sock_accepts (target_ext f cmds)"
  "sockets_keep (target_ext f cmds) (usb_port fst snd)" "ext_stack (target_ext f cmds) = (\<lambda>n. [])"
proof -
  have "answers ds (cmd_tdo f cs ds) (reply_bytes ds (cmd_tdo f cs ds))" for cs ds
    using answers_reply [of ds f "run_cmds True cs" "level_after True cs"] by (simp add: cmd_tdo_def)
  then show "mpsse_chip (target_ext f cmds) f fst snd"
    by (auto simp: mpsse_chip_def ftdi_fifo_def target_ext_def accepted_def)
  show "usb_writes_accepted (target_ext f cmds)" "ext_polls (target_ext f cmds) = 4096" "sock_accepts (target_ext f cmds)"
    "sockets_keep (target_ext f cmds) (usb_port fst snd)" "ext_stack (target_ext f cmds) = (\<lambda>n. [])"
    by (auto simp: usb_writes_accepted_def sock_accepts_def sockets_keep_def target_ext_def)
qed

lemma target_ext_read: "call_read (target_ext f cmds) n s = (Some (take n cmds), s)"
  by (simp add: call_read_def target_ext_def)

section \<open>The driver with a target\<close>

lemma chip_is_driver:
  "jtag_driver (mpsse_driver E) (chip_inv E f taken queue) (chip_idle queue) mpsse_wire
     (usb_writes_accepted E \<and> 4096 \<le> ext_polls E) (usb_port taken queue) (Some f)"
  by (rule chip_driver)

lemma chip_wires:
  "wire_driver (mpsse_driver E) (chip_inv E f taken queue) (chip_idle queue) mpsse_wire
     (usb_writes_accepted E \<and> 4096 \<le> ext_polls E) (usb_port taken queue)"
  by (rule jtag_driver.axioms(1) [OF chip_driver])

text \<open>
  \<open>target_live\<close>: USB and the client connection work, the chip answers for the target \<open>f\<close>, and
  the two sides of the world do not interfere. \<open>attached\<close>: between the operations of a server.
\<close>

definition target_live :: "'w ext \<Rightarrow> target \<Rightarrow> ('w \<Rightarrow> byte list) \<Rightarrow> ('w \<Rightarrow> byte list) \<Rightarrow> bool" where
  "target_live E f taken queue \<longleftrightarrow> mpsse_chip E f taken queue \<and> usb_writes_accepted E \<and> 4096 \<le> ext_polls E \<and>
     sock_accepts E \<and> sockets_keep E (usb_port taken queue)"

definition attached :: "('w \<Rightarrow> byte list) \<Rightarrow> ('w \<Rightarrow> byte list) \<Rightarrow> ('w, 'z) mpsse_state_scheme \<Rightarrow> bool" where
  "attached taken queue s \<longleftrightarrow> mpsse_inv s \<and> taken (world s) = usb_out s \<and> chip_idle queue s \<and> tracks mpsse_wire s"

lemma target_live_parts:
  assumes "target_live E f taken queue"
  shows "usb_writes_accepted E \<and> 4096 \<le> ext_polls E" "sock_accepts E" "sockets_keep E (usb_port taken queue)"
    "mpsse_chip E f taken queue"
  using assms by (simp_all add: target_live_def)

lemma attached_parts:
  assumes "target_live E f taken queue"
  shows "attached taken queue s \<longleftrightarrow> chip_inv E f taken queue s \<and> chip_idle queue s \<and> tracks mpsse_wire s"
  using target_live_parts(4) [OF assms] by (auto simp: attached_def chip_inv_def)

lemma attached_rest:
  "target_live E f taken queue \<Longrightarrow> attached taken queue s \<longleftrightarrow> at_rest (chip_inv E f taken queue) (chip_idle queue) mpsse_wire s"
  by (simp add: attached_parts at_rest_def)

lemma target_ext_live [simp]: "target_live (target_ext f cmds) f fst snd"
  by (simp add: target_live_def)

text \<open>The process as it starts, with a client.\<close>

definition target_start :: "(byte list \<times> byte list) mpsse_state" where
  "target_start = (mpsse_start ([], []))\<lparr>client_fd := 4, buffer_begin := 0\<rparr>"

lemma target_start_fields [simp]:
  "state target_start = TestLogicReset" "client_fd target_start = 4" "net_out target_start = []"
  "usb_out target_start = []" "world target_start = ([], [])" "buffer_inv target_start"
  "buffer_begin target_start = 0" "buffer_end target_start = 0"
  by (simp_all add: target_start_def mpsse_start_def process_start_def common_state.defs buffer_inv_def)

lemma target_start_wire [simp]: "mpsse_wire target_start = []" "mpsse_inv target_start" "stream target_start = []"
proof -
  let ?s = "mpsse_start ([], []) :: (byte list \<times> byte list) mpsse_state"
  have more: "usb_out target_start = usb_out ?s" "common_state.more target_start = common_state.more ?s"
    by (simp_all add: target_start_def mpsse_start_def common_state.defs)
  show "mpsse_wire target_start = []" "mpsse_inv target_start" "stream target_start = []"
    using mpsse_view [OF more] mpsse_view_stream [OF more] mpsse_start_inv [of "([], [])"]
    by (simp_all add: stream_def pending_def)
qed

lemma attached_start: "attached fst snd target_start"
  by (simp add: attached_def chip_idle_def tracks_def executed.simps [of "[]"])

lemma target_read_socket:
  assumes "cmds \<noteq> []" "length cmds \<le> BUFFER_SIZE"
  shows "\<exists>r. read_socket (target_ext f cmds) target_start = Inr (True, r) \<and> unread r = cmds"
proof -
  have c: "compact_buffer target_start = target_start" by (simp add: compact_buffer_def BUFFER_SIZE_def)
  have lb: "length (buffer target_start) = BUFFER_SIZE" using target_start_fields(6) by (simp add: buffer_inv_def)
  have lt: "0 < BUFFER_SIZE" by (simp add: BUFFER_SIZE_def)
  obtain x xs where x: "cmds = x # xs" using assms(1) by (cases cmds) auto
  have "read_socket (target_ext f cmds) target_start =
      Inr (True, target_start\<lparr>buffer := write_at (buffer target_start) 0 cmds, buffer_end := length cmds\<rparr>)"
    using assms(2) lb lt x by (simp add: read_socket_def c target_ext_read Let_def)
  then show ?thesis using assms(2) lb by (auto simp: unread_def write_at_def)
qed

text \<open>A target with a single bit between TDI and TDO: TDO repeats what has just been shifted in.\<close>

definition echo_target :: target where
  "echo_target h = (h \<noteq> [] \<and> snd (last h) = Some True)"

section \<open>Properties\<close>

text \<open>
  C1: the remote bitbang server end to end, on the MPSSE driver with any target \<open>f\<close> behind the
  chip, when USB and the connection to the client work. A tick that receives a chunk of commands
  either fails an assertion (exactly when the code's own checks on the chunk, \<open>rbb_chunk_ok\<close>, do) or
  makes the target's TAP controller see exactly the TMS and TDI values the client clocked and sends
  the client, in order, the TDO levels the target shows in the clock cycles \<open>ps\<close>. As many cycles are
  answered as the chunk has \<open>R\<close> commands, each is a different one that shifts a bit, and every requested
  one that shifts a bit is among them. In a chunk in which every \<open>R\<close> precedes a cycle that shifts a bit,
  no two the same (\<open>rbb_ordinary\<close>), they are exactly the requested ones. (In another chunk that passes the
  checks they need not be: \<open>rbb_double_read\<close> below.)
\<close>

theorem rbb_tick_target:
  assumes "target_live E f taken queue" "attached taken queue s" "0 \<le> client_fd s"
    and "call_read E BUFFER_SIZE s = (Some cmds, s1)" "cmds \<noteq> []"
  shows "if rbb_chunk_ok E cmds (state s)
    then \<exists>t ps. jtag_rbb_tick E (mpsse_driver E) s = Inr t \<and> attached taken queue t \<and>
      history (mpsse_wire t) = history (mpsse_wire s) @ tap_view (state s) (rbb_cycles cmds) \<and>
      net_out t = net_out s @ map (\<lambda>p. if f (history (mpsse_wire s) @ take p (tap_view (state s) (rbb_cycles cmds)))
        then 0x31 else 0x30) ps \<and>
      length ps = rbb_requests cmds \<and> sorted ps \<and> distinct ps \<and> list_all (rbb_shifts (state s) cmds) ps \<and>
      set (filter (rbb_shifts (state s) cmds) (rbb_asked 0 cmds)) \<subseteq> set ps \<and>
      (rbb_ordinary (state s) cmds \<longrightarrow> ps = rbb_asked 0 cmds)
    else jtag_rbb_tick E (mpsse_driver E) s = Inl AssertionFailed"
proof -
  note live = target_live_parts [OF assms(1)] and rest = attached_rest [OF assms(1)]
  from jtag_driver.rbb_tick_shown [OF chip_is_driver live(1) assms(2) [unfolded rest] live(2,3) refl assms(3-5)]
  show ?thesis unfolding rest rbb_digits_def rbb_answers_def .
qed

text \<open>A target that raises TDO after four, and after six, cycles.\<close>

definition sample_target :: target where
  "sample_target h = (length h = 4 \<or> length h = 6)"

lemma sample_rbb_asked:
  "rbb_asked 0 sample_rbb = [4, 5]" "rbb_ordinary TestLogicReset sample_rbb" "length (rbb_cycles sample_rbb) = 6"
  by code_simp+

lemma sample_target_shows:
  "sample_target (take 4 (tap_view st (rbb_cycles sample_rbb)))"
  "\<not> sample_target (take 5 (tap_view st (rbb_cycles sample_rbb)))"
  by (simp_all add: sample_target_def sample_rbb_asked(3))

theorem rbb_tick_target_witness:
  "\<exists>t. jtag_rbb_tick (target_ext sample_target sample_rbb) (mpsse_driver (target_ext sample_target sample_rbb))
       target_start = Inr t \<and> net_out t = [0x31, 0x30] \<and> attached fst snd t"
proof -
  let ?E = "target_ext sample_target sample_rbb" and ?s = target_start
  have st: "0 \<le> client_fd ?s" by simp
  have c: "call_read ?E BUFFER_SIZE ?s = (Some sample_rbb, ?s)"
    by (simp add: target_ext_read sample_rbb_def BUFFER_SIZE_def)
  have ne: "sample_rbb \<noteq> []" by (simp add: sample_rbb_def)
  from rbb_tick_target [OF target_ext_live attached_start st c ne] sample_rbb_ok [of ?E] obtain t ps where
    t: "jtag_rbb_tick ?E (mpsse_driver ?E) ?s = Inr t" "attached fst snd t"
      "net_out t = map (\<lambda>p. if sample_target (take p (tap_view TestLogicReset (rbb_cycles sample_rbb))) then 0x31 else 0x30) ps"
      "rbb_ordinary TestLogicReset sample_rbb \<longrightarrow> ps = rbb_asked 0 sample_rbb" by auto
  from t(4) sample_rbb_asked(1,2) have "ps = [4, 5]" by simp
  with t(1-3) sample_target_shows show ?thesis by auto
qed

text \<open>
  What the assertions of the server do not notice: into Shift-DR, and there three clocks with one
  \<open>R\<close> before the second of them and two before the third. The client asks for the cycles 5, 6 and 6
  and is answered for the cycles 4, 5 and 6.
\<close>

definition double_rbb :: "byte list" where
  "double_rbb = [0x34, 0x36, 0x34, 0x34, 0x34, 0x52, 0x34, 0x52, 0x52, 0x34]"

lemma double_rbb_asked:
  "rbb_asked 0 double_rbb = [5, 6, 6]" "filter (rbb_shifts TestLogicReset double_rbb) [0..<7] = [4, 5, 6]"
  "length (rbb_cycles double_rbb) = 7" "rbb_requests double_rbb = 3"
  by code_simp+

lemma double_rbb_ok: "rbb_chunk_ok E double_rbb TestLogicReset"
proof -
  have "length double_rbb \<le> BUFFER_SIZE" by (simp add: double_rbb_def BUFFER_SIZE_def)
  then show ?thesis by (subst rbb_chunk_ok_small) code_simp+
qed

lemma rbb_double_read:
  assumes "target_live E f taken queue" "attached taken queue s" "0 \<le> client_fd s" "state s = TestLogicReset"
    and "call_read E BUFFER_SIZE s = (Some double_rbb, s1)"
  shows "\<exists>t. jtag_rbb_tick E (mpsse_driver E) s = Inr t \<and>
     net_out t = net_out s @ map (\<lambda>p. if f (history (mpsse_wire s) @ take p (tap_view TestLogicReset (rbb_cycles double_rbb)))
       then 0x31 else 0x30) [4, 5, 6]"
proof -
  note live = target_live_parts [OF assms(1)] and rest = attached_rest [OF assms(1)]
  have ne: "double_rbb \<noteq> []" by (simp add: double_rbb_def)
  from jtag_driver.rbb_tick_shown [OF chip_is_driver live(1) assms(2) [unfolded rest] live(2,3) refl assms(3,5) ne]
    double_rbb_ok [of E] assms(4) obtain t ps where t: "jtag_rbb_tick E (mpsse_driver E) s = Inr t"
      "net_out t = net_out s @ rbb_digits f (history (mpsse_wire s)) (tap_view TestLogicReset (rbb_cycles double_rbb)) ps"
      "rbb_answers TestLogicReset double_rbb ps" by auto
  from t(3) have ps: "length ps = 3" "sorted ps" "distinct ps" "list_all (rbb_shifts TestLogicReset double_rbb) ps"
    by (simp_all add: rbb_answers_def double_rbb_asked)
  have "set ps \<subseteq> set (filter (rbb_shifts TestLogicReset double_rbb) [0..<7])"
    using ps(4) by (auto simp: list_all_iff rbb_shifts_def double_rbb_asked(3))
  then have "set ps \<subseteq> set [4, 5, 6]" unfolding double_rbb_asked(2) .
  moreover have "card (set ps) = card (set [4, 5, 6 :: nat])" using ps(1,3) by (simp add: distinct_card)
  ultimately have "set ps = set [4, 5, 6]" by (intro card_subset_eq) simp_all
  then have "ps = [4, 5, 6]" using ps(2,3) by (intro sorted_distinct_set_unique) simp_all
  with t(1,2) show ?thesis by (auto simp: rbb_digits_def)
qed

end
