(* ===== verification/Xvc_Target.thy ===== *)
theory Xvc_Target
  imports Xvc_Drivers Targets
begin

text \<open>
  The virtual cable server (src/xvc.cpp) with a JTAG target behind the MPSSE chip: several shifts in
  one tick, all their scans under way at once, and every client vector filled from its own scans.
\<close>

lemma chip_queue_driver:
  "pipelined_driver (mpsse_driver E) (chip_inv E f taken queue) (chip_owes f queue) mpsse_wire
     (usb_writes_accepted E \<and> 4096 \<le> ext_polls E) (usb_port taken queue) (Some f)"
  by (rule chip_queue.pipelined_driver_axioms)

text \<open>The MPSSE driver divides by the frequency in MHz.\<close>

lemma chip_zero_frequency:
  assumes "target_live E f taken queue" "chip_inv E f taken queue s"
  shows "adapter_set_tck_freq (mpsse_driver E) 0 s = Inl DivisionByZero"
proof -
  have usb: "usb_writes_accepted E" using target_live_parts(1) [OF assms(1)] by simp
  have "mpsse_safe s" using assms(2) by (simp add: chip_inv_def mpsse_inv_safe)
  from flush_sends [OF this, of E] usb obtain t where "mpsse_buffer_flush E s = (True, t)" by (auto simp: sends_def)
  then have "mpsse_set_tck_freq E 0 s = Inl DivisionByZero" by (simp add: mpsse_set_tck_freq_def tck_divisor_zero)
  then show ?thesis by (simp add: adapter_set_tck_freq_def mpsse_driver_def)
qed

text \<open>
  C2: the virtual cable server end to end, on the MPSSE driver with any target \<open>f\<close> behind the chip, when
  USB and the connection to the client work. A tick that receives something parses the receive buffer into
  commands and never loops for ever. When one of them is a \<open>settck:\<close> with a period of 0 or above
  2000 ns, or a shift whose number of bits wraps around when rounded up to bytes, the first of these
  ends the process with its fault (\<open>xvc_fault\<close>). Otherwise every complete command is executed: the
  target's TAP controller sees exactly the TMS values of all the shifts in order, and their TDI
  values in every cycle that shifts a bit. The client is sent the answers of \<open>getinfo:\<close> and
  \<open>settck:\<close> first and then, for each shift, the vector of exactly the TDO levels the target showed
  in its cycles that shift a bit, with zeros elsewhere, although the scans of all the shifts are sent
  before the first of them is collected; incomplete bytes stay in the buffer.
\<close>

theorem xvc_tick_target:
  assumes "target_live E f taken queue" "attached taken queue s" "arrays_ok a" "0 \<le> client_fd s"
    and "read_socket E s = Inr (True, r)" "buffer_inv s"
  shows "case xvc_first_fault (xvc_script (unread r)) of
      Some e \<Rightarrow> jtag_xvc_tick E (mpsse_driver E) a s = Inl e
    | None \<Rightarrow> \<exists>b t. jtag_xvc_tick E (mpsse_driver E) a s = Inr (b, t) \<and> arrays_ok b \<and> attached taken queue t \<and>
        history (mpsse_wire t) =
          history (mpsse_wire s) @ tap_view (state s) (concat (map xvc_cycles (xvc_script (unread r)))) \<and>
        state t = run_tap (state s) (tms_bits (concat (map xvc_cycles (xvc_script (unread r))))) \<and>
        net_out t = net_out s @ concat (map xvc_now (xvc_script (unread r))) @
          concat (xvc_answers f (history (mpsse_wire s)) (state s) (xvc_script (unread r))) \<and>
        buffer_inv t \<and> unread t = xvc_left (unread r)"
proof -
  note live = target_live_parts [OF assms(1)]
  from assms(2) have s: "chip_inv E f taken queue s" "chip_owes f queue [] s" "tracks mpsse_wire s"
    by (simp_all add: attached_parts [OF assms(1)] chip_owes_none)
  show ?thesis
  proof (cases "xvc_first_fault (xvc_script (unread r))")
    case (Some e)
    from pipelined_driver.xvc_tick_faults [OF chip_queue_driver live(1-3) s assms(3-6) chip_zero_frequency [OF assms(1)] Some]
    show ?thesis unfolding Some by simp
  next
    case None
    then have ok: "list_all xvc_ok (xvc_script (unread r))" by (simp add: xvc_first_fault_ok)
    from pipelined_driver.xvc_tick_spec [OF chip_queue_driver live(1-3) s assms(3-6) ok] obtain b t bs new where
      t: "jtag_xvc_tick E (mpsse_driver E) a s = Inr (b, t)" "arrays_ok b" "chip_inv E f taken queue t" "chip_owes f queue [] t"
        "tracks mpsse_wire t" "mpsse_wire t = mpsse_wire s @ new"
        "tap_view (state s) new = tap_view (state s) (concat (map xvc_cycles (xvc_script (unread r))))"
        "state t = run_tap (state s) (tms_bits (concat (map xvc_cycles (xvc_script (unread r)))))"
        "net_out t = net_out s @ concat (map xvc_now (xvc_script (unread r))) @ concat bs"
        "Some f \<noteq> None \<longrightarrow> bs = xvc_answers (shown_by (Some f)) (history (mpsse_wire s)) (state s) (xvc_script (unread r))"
        "buffer_inv t" "unread t = xvc_left (unread r)" by (elim exE conjE) blast
    have "attached taken queue t" using t(3-5) by (simp add: attached_parts [OF assms(1)] chip_owes_none)
    moreover have "history (mpsse_wire t) =
        history (mpsse_wire s) @ tap_view (state s) (concat (map xvc_cycles (xvc_script (unread r))))"
      using s(3) t(6,7) by (simp add: tap_view_append tracks_def)
    moreover have "bs = xvc_answers f (history (mpsse_wire s)) (state s) (xvc_script (unread r))" using t(10) by simp
    ultimately show ?thesis unfolding None option.case using t(1,2,8,9,11,12)
      by (intro exI [of _ b] exI [of _ t]) (simp only: simp_thms)
  qed
qed

text \<open>Two shifts at once: into Shift-DR and four bits there, then through Pause-DR and five more.\<close>

definition sample_shifts :: "byte list" where
  "sample_shifts = (SHIFT @ [8, 0, 0, 0] @ [0x82] @ [0xB0]) @ (SHIFT @ [8, 0, 0, 0] @ [0x82] @ [0x50])"

text \<open>The same and then a request for a period of 4096 ns.\<close>

definition slow_shifts :: "byte list" where
  "slow_shifts = sample_shifts @ SETTCK @ [0, 0x10, 0, 0]"

theorem xvc_tick_target_witness:
  "(\<exists>b t. jtag_xvc_tick (target_ext echo_target sample_shifts) (mpsse_driver (target_ext echo_target sample_shifts))
       xvc_start target_start = Inr (b, t) \<and> net_out t = [0x60, 0xA0] \<and> state t = Exit1DR \<and> unread t = []) \<and>
   jtag_xvc_tick (target_ext echo_target slow_shifts) (mpsse_driver (target_ext echo_target slow_shifts))
       xvc_start target_start = Inl DivisionByZero"
proof (rule conjI)
  let ?E = "target_ext echo_target sample_shifts" and ?s = target_start
  have len: "sample_shifts \<noteq> []" "length sample_shifts \<le> BUFFER_SIZE"
    by (simp_all add: sample_shifts_def BUFFER_SIZE_def)
  from target_read_socket [OF len, of echo_target] obtain r where
    r: "read_socket ?E ?s = Inr (True, r)" "unread r = sample_shifts" by blast
  have script: "xvc_script sample_shifts = [Xvc_shift 8 [0x82] [0xB0], Xvc_shift 8 [0x82] [0x50]]"
    "xvc_left sample_shifts = []" by code_simp+
  have ok: "xvc_first_fault (xvc_script sample_shifts) = None" unfolding script by simp
  have fd: "0 \<le> client_fd ?s" by simp
  from xvc_tick_target [OF target_ext_live attached_start xvc_start_ok fd r(1) target_start_fields(6)] obtain b t where
    t: "jtag_xvc_tick ?E (mpsse_driver ?E) xvc_start ?s = Inr (b, t)"
      "state t = run_tap TestLogicReset (tms_bits (concat (map xvc_cycles (xvc_script sample_shifts))))"
      "net_out t = concat (map xvc_now (xvc_script sample_shifts)) @
         concat (xvc_answers echo_target [] TestLogicReset (xvc_script sample_shifts))"
      "unread t = []" unfolding r(2) script(2) ok option.case by auto
  have "run_tap TestLogicReset (tms_bits (concat (map xvc_cycles (xvc_script sample_shifts)))) = Exit1DR"
    unfolding script by code_simp
  moreover have "xvc_answers echo_target [] TestLogicReset (xvc_script sample_shifts) = [[0x60], [0xA0]]"
    unfolding script by code_simp
  moreover have "concat (map xvc_now (xvc_script sample_shifts)) = []" unfolding script by simp
  ultimately show "\<exists>b t. jtag_xvc_tick ?E (mpsse_driver ?E) xvc_start ?s = Inr (b, t) \<and> net_out t = [0x60, 0xA0] \<and>
      state t = Exit1DR \<and> unread t = []" using t by (intro exI [of _ b] exI [of _ t]) simp
next
  let ?E = "target_ext echo_target slow_shifts" and ?s = target_start
  have len: "slow_shifts \<noteq> []" "length slow_shifts \<le> BUFFER_SIZE"
    by (simp_all add: slow_shifts_def sample_shifts_def BUFFER_SIZE_def)
  from target_read_socket [OF len, of echo_target] obtain r where
    r: "read_socket ?E ?s = Inr (True, r)" "unread r = slow_shifts" by blast
  have script: "xvc_script slow_shifts = [Xvc_shift 8 [0x82] [0xB0], Xvc_shift 8 [0x82] [0x50], Xvc_settck 0x1000]"
    by code_simp
  have bad: "xvc_first_fault (xvc_script slow_shifts) = Some DivisionByZero" unfolding script by simp
  have fd: "0 \<le> client_fd ?s" by simp
  from xvc_tick_target [OF target_ext_live attached_start xvc_start_ok fd r(1) target_start_fields(6)]
  show "jtag_xvc_tick ?E (mpsse_driver ?E) xvc_start ?s = Inl DivisionByZero" unfolding r(2) bad by simp
qed

end
