(* ===== verification/Xvc_Blaster.thy ===== *)
theory Xvc_Blaster
  imports Xvc_Drivers
begin

text \<open>
  The virtual cable server (src/xvc.cpp) on the USB Blaster driver (src/usb_blaster.cpp): the server
  sends the scans of a tick before it collects the first of them, the driver has room for one.
\<close>

section \<open>The calls of the server on this driver\<close>

lemma blaster_tms_any:
  fixes s :: "('w, 'z) blaster_state_scheme"
  assumes "blaster_live E" "blaster_safe s" "0 < n" "n \<le> 8 * length buf"
  shows "\<exists>t. jtag_tms_seq (usb_blaster_driver E) buf n s = Inr (True, t) \<and> blaster_safe t \<and>
     recv_buffer_len t = recv_buffer_len s"
proof -
  let ?s = "s\<lparr>bits_send := bits_send s + of_nat n, state := run_tap (state s) (bits_of buf n)\<rparr>"
  have call: "jtag_tms_seq (usb_blaster_driver E) buf n s = usb_blaster_jtag_tms_seq E buf n ?s"
    using assms(3,4) by (simp add: jtag_tms_seq_def usb_blaster_driver_def)
  have safe: "blaster_safe ?s" using assms(2) by (simp add: blaster_safe_def)
  from usb_blaster.tms_seq_hands [OF safe TrueI assms(3,4), of E] assms(1) obtain t bs cs where
    t: "usb_blaster_jtag_tms_seq E buf n ?s = Inr (True, t)" "blaster_safe t" "usb_blaster.handed E ?s bs cs 0 t"
    unfolding usb_blaster.hands_def by auto
  with usb_blaster.handed_len [OF safe t(2,3)] call show ?thesis by simp
qed

lemma blaster_send_any:
  fixes s :: "('w, 'z) blaster_state_scheme"
  assumes "blaster_live E" "blaster_safe s" "0 < n" "n \<le> 8 * length buf" "n \<le> SCAN_LIMIT"
  shows "if recv_buffer_len s = 0
    then \<exists>t. jtag_scan_chain_send (usb_blaster_driver E) buf n flip True s = Inr (True, t) \<and> blaster_safe t \<and> 0 < recv_buffer_len t
    else jtag_scan_chain_send (usb_blaster_driver E) buf n flip True s = Inl AssertionFailed"
proof (cases "recv_buffer_len s = 0")
  case False
  then show ?thesis by (simp add: jtag_scan_chain_send_def usb_blaster_driver_def usb_blaster_jtag_scan_chain_send_def Let_def)
next
  case True
  let ?s = "s\<lparr>bits_send := bits_send s + of_nat n\<rparr>"
  have s: "blaster_safe ?s" "recv_buffer_len ?s = 0" using assms(2) True by (simp_all add: blaster_safe_def)
  from usb_blaster.scan_send_hands [OF s(1) TrueI s(2) assms(3-5), of E flip True] assms(1) obtain t where
    t: "usb_blaster_jtag_scan_chain_send E buf n flip True ?s = Inr (True, t)" "blaster_safe t"
      "usb_blaster.handed E ?s (blaster_scan_bytes buf n flip True) (blaster_scan_cmds buf n flip True) (got_count n flip True) t"
    by auto
  have "n = bulk_bits n flip + (if flip then 1 else 0)" using assms(3) by (simp add: bulk_bits_def)
  then have "0 < got_count n flip True" using assms(3) div_mult_mod_eq [of "bulk_bits n flip" 8]
    by (auto simp: got_count_def split: if_splits)
  with usb_blaster.handed_len [OF s(1) t(2,3)] t(1,2) s(2) True show ?thesis
    by (simp add: jtag_scan_chain_send_def usb_blaster_driver_def)
qed

lemma blaster_xvc_region:
  fixes s :: "('w, 'z) blaster_state_scheme"
  assumes "blaster_live E" "blaster_safe s" "arrays_ok a" "region_fits n r" "n \<le> SCAN_LIMIT"
  shows "if is_tms r then \<exists>t. xvc_region (usb_blaster_driver E) a n r s = Inr t \<and> blaster_safe t \<and> recv_buffer_len t = recv_buffer_len s
    else if recv_buffer_len s = 0 then \<exists>t. xvc_region (usb_blaster_driver E) a n r s = Inr t \<and> blaster_safe t \<and> 0 < recv_buffer_len t
    else xvc_region (usb_blaster_driver E) a n r s = Inl AssertionFailed"
proof -
  let ?D = "usb_blaster_driver E" and ?b = "region_begin r" and ?e = "region_end r"
  have be: "?b < ?e" "?e \<le> n" using assms(4) by (simp_all add: region_fits_def)
  have arr: "length (xvc_tms a) = BUFFER_SIZE" "length (xvc_tdi a) = BUFFER_SIZE" using assms(3) by (simp_all add: arrays_ok_def)
  have range: "?b \<le> ?e" "?e \<le> 8 * BUFFER_SIZE" using be assms(5) by (simp_all add: SCAN_LIMIT_def BUFFER_SIZE_def)
  have lenr: "region_length r = Inr (?e - ?b)" "?b + (?e - ?b) = ?e" using be(1) by (simp_all add: region_length_def)
  have n: "0 < ?e - ?b" "?e - ?b \<le> SCAN_LIMIT" "?e - ?b \<le> 8 * BUFFER_SIZE" using be assms(5) range(2) by simp_all
  show ?thesis
  proof (cases "is_tms r")
    case True
    from copy_region [OF range(1) _ range(2), of "xvc_tms a"] range(2) obtain buf where
      buf: "copy_bits (xvc_tms a) ?b (?e - ?b) (replicate BUFFER_SIZE 0) 0 = Inr buf" "length buf = BUFFER_SIZE"
      unfolding arr by blast
    define co where "co = (state s = RunTestIdle \<and> (\<forall>j \<in> {?b..<?e}. \<not> bit_at (xvc_tms a) j))"
    have loop: "xvc_tms_loop (xvc_tms a) ?b 0 (?e - ?b) (replicate BUFFER_SIZE 0) (state s = RunTestIdle) = Inr (buf, co)"
      using xvc_tms_loop_spec [of ?b "?e - ?b" "xvc_tms a" 0 "replicate BUFFER_SIZE 0" "state s = RunTestIdle"]
        n(3) range(2) buf(1) by (simp add: lenr(2) arr co_def)
    have "1 \<le> 8 * length buf" "?e - ?b \<le> 8 * length buf" using n by (simp_all add: buf(2))
    from blaster_tms_any [OF assms(1,2) _ this(1)] blaster_tms_any [OF assms(1,2) n(1) this(2)] obtain t u where
      t: "jtag_tms_seq ?D buf 1 s = Inr (True, t)" "blaster_safe t" "recv_buffer_len t = recv_buffer_len s"
        "jtag_tms_seq ?D buf (?e - ?b) s = Inr (True, u)" "blaster_safe u" "recv_buffer_len u = recv_buffer_len s" by auto
    have "xvc_region ?D a n r s = Inr (if co then t\<lparr>bits_send := bits_send t + of_nat (?e - ?b - 1)\<rparr> else u)"
      using True be lenr(1) loop t(1,4)
      by (simp add: xvc_region_def jtag_clock_tck_def usb_blaster_driver_def usb_blaster_jtag_clock_tck_def)
    with t(2,3,5,6) True show ?thesis by (simp add: blaster_safe_def)
  next
    case False
    from copy_region [OF range(1) _ range(2), of "xvc_tdi a"] range(2) obtain buf where
      buf: "copy_bits (xvc_tdi a) ?b (?e - ?b) (replicate BUFFER_SIZE 0) 0 = Inr buf" "length buf = BUFFER_SIZE"
      unfolding arr by blast
    obtain flip where flip: "flip_tms r = Some flip" using assms(4) False by (auto simp: region_fits_def)
    have region: "xvc_region ?D a n r s = bindR (jtag_scan_chain_send ?D buf (?e - ?b) flip True s) (\<lambda>(_, s). Inr s)"
      using False be lenr(1) buf(1) flip by (simp add: xvc_region_def region_flip_def)
    have "?e - ?b \<le> 8 * length buf" using n(3) by (simp add: buf(2))
    from blaster_send_any [OF assms(1,2) n(1) this n(2), of flip] False region show ?thesis by (auto split: if_splits)
  qed
qed

text \<open>The second scan of a list of regions fails the driver's assertion.\<close>

lemma blaster_xvc_regions:
  fixes s :: "('w, 'z) blaster_state_scheme"
  assumes "blaster_live E" "arrays_ok a" "n \<le> SCAN_LIMIT"
  shows "blaster_safe s \<Longrightarrow> list_all (region_fits n) rs \<Longrightarrow>
     2 \<le> length (filter (\<lambda>r. \<not> is_tms r) rs) + (if recv_buffer_len s = 0 then 0 else 1) \<Longrightarrow>
     xvc_regions (usb_blaster_driver E) a n rs s = Inl AssertionFailed"
proof (induction rs arbitrary: s)
  case Nil
  then show ?case by (simp split: if_splits)
next
  case (Cons r rs)
  have fits: "region_fits n r" "list_all (region_fits n) rs" using Cons.prems(2) by simp_all
  note region = blaster_xvc_region [OF assms(1) Cons.prems(1) assms(2) fits(1) assms(3)]
  consider "is_tms r" | "\<not> is_tms r" "recv_buffer_len s = 0" | "\<not> is_tms r" "recv_buffer_len s \<noteq> 0" by blast
  then show ?case
  proof cases
    case 1
    with region obtain t where "xvc_region (usb_blaster_driver E) a n r s = Inr t" "blaster_safe t"
      "recv_buffer_len t = recv_buffer_len s" by auto
    with Cons.IH [OF _ fits(2), of t] Cons.prems(3) 1 show ?thesis by simp
  next
    case 2
    with region obtain t where "xvc_region (usb_blaster_driver E) a n r s = Inr t" "blaster_safe t" "0 < recv_buffer_len t" by auto
    with Cons.IH [OF _ fits(2), of t] Cons.prems(3) 2 show ?thesis by simp
  next
    case 3
    with region show ?thesis by simp
  qed
qed

text \<open>Two cycles that shift with one between them that does not are in two regions.\<close>

lemma two_data_regions:
  assumes tl: "tiles st bs 0 rs n" and pqm: "p < q" "q < m" "m < n"
    and sh: "shifting (st_at st bs p)" "\<not> shifting (st_at st bs q)" "shifting (st_at st bs m)"
  shows "2 \<le> length (filter (\<lambda>r. \<not> is_tms r) rs)"
proof -
  from tiles_cover [OF tl, of p] pqm obtain r1 where r1: "r1 \<in> set rs" "region_begin r1 \<le> p" "p < region_end r1" by auto
  from tiles_cover [OF tl, of m] pqm obtain r2 where r2: "r2 \<in> set rs" "region_begin r2 \<le> m" "m < region_end r2" by auto
  have all: "shifting (st_at st bs j) = (\<not> is_tms r)" if "r \<in> set rs" "region_begin r \<le> j" "j < region_end r" for r j
    using tiles_mem [OF tl that(1)] that(2,3) by (simp add: region_ok_def)
  have data: "\<not> is_tms r1" "\<not> is_tms r2" using all [OF r1] all [OF r2] sh(1,3) by simp_all
  have "r1 \<noteq> r2"
  proof
    assume "r1 = r2"
    then have "region_begin r1 \<le> q" "q < region_end r1" using r1 r2 pqm by simp_all
    with all [OF r1(1)] data(1) sh(2) show False by simp
  qed
  then have "2 = card {r1, r2}" by simp
  also have "\<dots> \<le> card (set (filter (\<lambda>r. \<not> is_tms r) rs))" using r1(1) r2(1) data by (intro card_mono) auto
  also have "\<dots> \<le> length (filter (\<lambda>r. \<not> is_tms r) rs)" by (rule card_length)
  finally show ?thesis .
qed

text \<open>From Test-Logic-Reset to Shift-DR, one bit, through Pause-DR back to Shift-DR, and another bit.\<close>

definition pausing_shift :: "byte list" where
  "pausing_shift = SHIFT @ [9, 0, 0, 0] @ [0x52, 0x00] @ [0x00, 0x00]"

section \<open>Properties\<close>

text \<open>
  C25: on the USB Blaster, when its USB transfers work, a complete \<open>shift:\<close> of fewer than 2^32 - 7 bits
  at the head of the receive buffer that shifts, leaves the shift state and shifts again
  (cycles \<open>p\<close> and \<open>m\<close> shift a bit and \<open>q\<close> between them does not) ends the process: the server sends the second scan before it has collected the first, and the driver's assertion
  \<open>recv_buffer_len == 0\<close> fails. On the MPSSE driver such a shift is executed like any other.
\<close>

theorem xvc_blaster_two_scans:
  fixes s :: "('w, 'z) blaster_state_scheme"
  assumes "blaster_live E" "blaster_safe s" "arrays_ok a" "buffer_inv s" "0 \<le> client_fd s"
    and "read_socket E s = Inr (True, r)" "xvc_next (unread r) = Some (Xvc_shift bits tms tdi, k)" "unat bits + 7 < 2 ^ 32"
    and "p < q" "q < m" "m < unat bits"
    and "shifting (run_tap (state s) (take p (bits_of tms (unat bits))))"
      "\<not> shifting (run_tap (state s) (take q (bits_of tms (unat bits))))"
      "shifting (run_tap (state s) (take m (bits_of tms (unat bits))))"
  shows "jtag_xvc_tick E (usb_blaster_driver E) a s = Inl AssertionFailed"
proof -
  define n where "n = unat bits"
  let ?D = "usb_blaster_driver E" and ?r = "r\<lparr>buffer_begin := buffer_begin r + k\<rparr>"
  let ?b = "a\<lparr>xvc_tms := write_at (xvc_tms a) 0 tms, xvc_tdi := write_at (xvc_tdi a) 0 tdi\<rparr>"
  from read_socket_frame [OF assms(4,6)] have f: "buffer_inv r" "state r = state s"
    "common_state.more r = common_state.more s" by simp_all
  note parts = xvc_shift_parts [OF f(1) assms(3,7,8), of ?D]
  have len: "length tms = (n + 7) div 8" "length tdi = (n + 7) div 8" "k = 10 + 2 * ((n + 7) div 8)"
      "k \<le> length (unread r)" using parts by (simp_all add: n_def)
  have "k \<le> BUFFER_SIZE" using len(4) unread_end [OF f(1)] by simp
  then have small: "(n + 7) div 8 \<le> BUFFER_SIZE" "n \<le> SCAN_LIMIT"
    using len(3) by (simp_all add: BUFFER_SIZE_def SCAN_LIMIT_def)
  have b: "arrays_ok ?b" using assms(3) len small by (simp add: arrays_ok_def)
  have n8: "n \<le> 8 * length (xvc_tms ?b)" "n \<le> 8 * length tms"
    using b small(2) by (simp_all add: arrays_ok_def BUFFER_SIZE_def SCAN_LIMIT_def len(1))
  have bits: "bits_of (xvc_tms ?b) n = bits_of tms n"
    using n8(2) len(1) small(1) assms(3) by (auto simp: bits_of_def arrays_ok_def bit_at_write_front)
  from analyze_bitbang_tiles [OF n8(1), of "state r"] obtain rs where
    rs: "analyze_bitbang (xvc_tms ?b) n (state r) = Inr (rs, run_tap (state r) (bits_of tms n))"
      "tiles (state r) (bits_of tms n) 0 rs n" unfolding bits by blast
  have two: "2 \<le> length (filter (\<lambda>r. \<not> is_tms r) rs)"
    by (rule two_data_regions [OF rs(2) assms(9,10)]) (use assms(11-14) in \<open>simp_all add: st_at_def f(2) n_def\<close>)
  have fits: "list_all (region_fits n) rs"
    using tiles_mem [OF rs(2)] by (auto simp: list_all_iff region_ok_def region_fits_def)
  have rec: "recv_buffer r = recv_buffer s" "recv_buffer_len r = recv_buffer_len s"
    using f(3) by (cases r; cases s; simp add: blaster_state.defs)+
  have "blaster_safe ?r" using assms(2) rec by (simp add: blaster_safe_def)
  from blaster_xvc_regions [OF assms(1) b small(2) this fits] two
  have "xvc_regions ?D ?b n rs ?r = Inl AssertionFailed" by simp
  with parts rs(1) have "xvc_shift ?D a r = Inl AssertionFailed" by (simp add: n_def)
  then have "xvc_step E ?D [] a r = Inl AssertionFailed" using parts by (simp add: xvc_step_unfold [OF f(1)])
  then show ?thesis using assms(5,6) by (simp add: jtag_xvc_tick_def)
qed

theorem xvc_blaster_two_scans_witness:
  "jtag_xvc_tick (client_ext pausing_shift) (usb_blaster_driver (client_ext pausing_shift)) xvc_start
     ((blaster_start ())\<lparr>client_fd := 4\<rparr>) = Inl AssertionFailed"
proof -
  let ?s = "(blaster_start ())\<lparr>client_fd := 4\<rparr>"
  have s: "blaster_safe ?s" "buffer_inv ?s" "0 \<le> client_fd ?s" "buffer_begin ?s = 0" "buffer_end ?s = 0" "state ?s = TestLogicReset"
    using blaster_start_inv(2) [of "()"]
    by (simp_all add: blaster_safe_def blaster_start_def process_start_def common_state.defs blaster_state.defs buffer_inv_def)
  have c: "pausing_shift \<noteq> []" "length pausing_shift \<le> BUFFER_SIZE" by (simp_all add: pausing_shift_def BUFFER_SIZE_def)
  from client_read_socket [OF s(2,4,5) c] obtain r where
    r: "read_socket (client_ext pausing_shift) ?s = Inr (True, r)" "unread r = pausing_shift" by blast
  have "xvc_next pausing_shift = Some (Xvc_shift 9 [0x52, 0x00] [0x00, 0x00], 14)" by code_simp
  then have nx: "xvc_next (unread r) = Some (Xvc_shift 9 [0x52, 0x00] [0x00, 0x00], 14)" unfolding r(2) .
  have sh: "shifting (run_tap TestLogicReset (take 4 (bits_of [0x52, 0x00] 9)))"
    "\<not> shifting (run_tap TestLogicReset (take 5 (bits_of [0x52, 0x00] 9)))"
    "shifting (run_tap TestLogicReset (take 8 (bits_of [0x52, 0x00] 9)))" by code_simp+
  have live: "blaster_live (client_ext pausing_shift)" by simp
  show ?thesis
    by (rule xvc_blaster_two_scans [OF live s(1) xvc_start_ok s(2,3) r(1) nx, of 4 5 8])
      (use sh in \<open>simp_all add: s(6)\<close>)
qed

end
