(* ===== verification/Chain.thy ===== *)
theory Chain
  imports Probe
begin

text \<open>
  A JTAG chain after IEEE 1149.1 as a target, and \<open>jtag_probe_devices\<close> (src/common.cpp) in front of
  it: whatever has happened before, the probe reports exactly the identification codes of the
  chain, in the order of the chain.
\<close>

section \<open>Devices and chains\<close>

text \<open>
  \<open>ir_pattern\<close> is what Capture-IR loads (its length is that of the instruction register), and
  \<open>register\<close> what Capture-DR loads for an instruction that is not all ones. An all-ones
  instruction selects the one-bit bypass register; after a reset the identification code is
  selected.
\<close>

record device =
  ir_pattern :: "bool list"
  idcode :: "32 word"
  register :: "bool list \<Rightarrow> bool list"

definition code_bits :: "32 word \<Rightarrow> bool list" where
  "code_bits w = map (bit w) [0..<32]"

definition data_register :: "device \<Rightarrow> bool list option \<Rightarrow> bool list" where
  "data_register d instr = (case instr of
     None \<Rightarrow> code_bits (idcode d)
   | Some i \<Rightarrow> if list_all id i then [False] else register d i)"

text \<open>
  The state of a chain: that of the TAP controllers, the instructions (\<open>None\<close> after a reset) and
  the shift registers, as one list; its first element is what TDO shows. The device nearest to
  TDO comes first.
\<close>

record chain =
  ch_state :: JtagState
  ch_instr :: "bool list option list"
  ch_shift :: "bool list"

definition chain_start :: "device list \<Rightarrow> chain" where
  "chain_start ds = \<lparr>ch_state = TestLogicReset, ch_instr = map (\<lambda>_. None) ds, ch_shift = []\<rparr>"

fun cut :: "nat list \<Rightarrow> bool list \<Rightarrow> bool list list" where
  "cut [] xs = []"
| "cut (n # ns) xs = take n xs # cut ns (drop n xs)"

definition chain_act :: "device list \<Rightarrow> bool option \<Rightarrow> chain \<Rightarrow> chain" where
  "chain_act ds tdi c = (case ch_state c of
     TestLogicReset \<Rightarrow> c\<lparr>ch_instr := map (\<lambda>_. None) ds\<rparr>
   | CaptureIR \<Rightarrow> c\<lparr>ch_shift := concat (map ir_pattern ds)\<rparr>
   | CaptureDR \<Rightarrow> c\<lparr>ch_shift := concat (map2 data_register ds (ch_instr c))\<rparr>
   | ShiftIR \<Rightarrow> c\<lparr>ch_shift := tl (ch_shift c @ [tdi = Some True])\<rparr>
   | ShiftDR \<Rightarrow> c\<lparr>ch_shift := tl (ch_shift c @ [tdi = Some True])\<rparr>
   | UpdateIR \<Rightarrow> c\<lparr>ch_instr := map Some (cut (map (length \<circ> ir_pattern) ds) (ch_shift c))\<rparr>
   | _ \<Rightarrow> c)"

definition chain_step :: "device list \<Rightarrow> chain \<Rightarrow> bool \<times> bool option \<Rightarrow> chain" where
  "chain_step ds c x = (case x of (tms, tdi) \<Rightarrow>
     (chain_act ds tdi c)\<lparr>ch_state := next_state (ch_state c) tms\<rparr>)"

definition chain_run :: "device list \<Rightarrow> (bool \<times> bool option) list \<Rightarrow> chain" where
  "chain_run ds h = foldl (chain_step ds) (chain_start ds) h"

definition chain_tdo :: "device list \<Rightarrow> target" where
  "chain_tdo ds h = (ch_shift (chain_run ds h) \<noteq> [] \<and> hd (ch_shift (chain_run ds h)))"

lemma chain_run_append: "chain_run ds (h @ v) = foldl (chain_step ds) (chain_run ds h) v"
  by (simp add: chain_run_def)

lemma chain_act_state [simp]: "ch_state (chain_act ds tdi c) = ch_state c"
  by (simp add: chain_act_def split: JtagState.split)

lemma chain_state_view:
  "ch_state (foldl (chain_step ds) c (tap_view (ch_state c) cyc)) = run_tap (ch_state c) (tms_bits cyc)"
proof (induction cyc arbitrary: c)
  case Nil
  then show ?case by simp
next
  case (Cons x cyc)
  let ?c = "chain_step ds c (cyc_tms x, if shifting (ch_state c) then cyc_tdi x else None)"
  have "ch_state ?c = next_state (ch_state c) (cyc_tms x)" by (simp add: chain_step_def)
  with Cons.IH [of ?c] show ?case by simp
qed

lemma chain_state: "ch_state (chain_run ds (history w)) = run_tap TestLogicReset (tms_bits w)"
  using chain_state_view [of ds "chain_start ds" w] by (simp add: chain_run_def chain_start_def)

section \<open>Shifting\<close>

definition scan_view :: "byte list \<Rightarrow> nat \<Rightarrow> bool \<Rightarrow> (bool \<times> bool option) list" where
  "scan_view data n flip = map (\<lambda>i. (flip \<and> Suc i = n, Some (bit_at data i))) [0..<n]"

lemma tap_view_scan:
  assumes "shifting st"
  shows "tap_view st (scan_cycles data n flip rd) = scan_view data n flip"
proof (rule nth_equalityI)
  show "length (tap_view st (scan_cycles data n flip rd)) = length (scan_view data n flip)"
    by (simp add: scan_view_def)
  fix i assume "i < length (tap_view st (scan_cycles data n flip rd))"
  then have i: "i < n" by simp
  have "take i (tms_bits (scan_cycles data n flip rd)) = replicate i False"
    using i by (intro nth_equalityI) (auto simp: scan_cycles_nth)
  then have "run_tap st (take i (tms_bits (scan_cycles data n flip rd))) = st"
    using run_tap_zeros [of st i] assms by (auto simp: shifting_def)
  with i assms show "tap_view st (scan_cycles data n flip rd) ! i = scan_view data n flip ! i"
    by (simp add: tap_view_nth scan_cycles_nth scan_view_def)
qed

lemma chain_shift:
  assumes "shifting (ch_state c)" "i \<le> n"
  shows "foldl (chain_step ds) c (take i (scan_view data n flip)) =
    c\<lparr>ch_shift := drop i (ch_shift c @ bits_of data i), ch_state := if flip \<and> i = n \<and> 0 < n then next_state (ch_state c) True else ch_state c\<rparr>"
  using assms(2)
proof (induction i)
  case 0
  then show ?case by (cases n) simp_all
next
  case (Suc i)
  let ?c = "c\<lparr>ch_shift := drop i (ch_shift c @ bits_of data i)\<rparr>"
  have IH: "foldl (chain_step ds) c (take i (scan_view data n flip)) = ?c" using Suc by simp
  have "take (Suc i) (scan_view data n flip) = take i (scan_view data n flip) @ [(flip \<and> Suc i = n, Some (bit_at data i))]"
    using Suc.prems by (simp add: take_Suc_conv_app_nth scan_view_def)
  then have "foldl (chain_step ds) c (take (Suc i) (scan_view data n flip)) =
      chain_step ds ?c (flip \<and> Suc i = n, Some (bit_at data i))" by (simp add: IH)
  moreover have "tl (drop i (ch_shift c @ bits_of data i) @ [bit_at data i]) = drop (Suc i) (ch_shift c @ bits_of data (Suc i))"
  proof -
    have "drop i (ch_shift c @ bits_of data i) @ [bit_at data i] = drop i (ch_shift c @ bits_of data (Suc i))"
      by (simp add: bits_of_Suc)
    then show ?thesis by (simp only:) (simp only: drop_Suc tl_drop)
  qed
  moreover have "chain_step ds ?c (tms, Some b) =
      c\<lparr>ch_shift := tl (drop i (ch_shift c @ bits_of data i) @ [b]), ch_state := next_state (ch_state c) tms\<rparr>" for tms b
    using assms(1) by (auto simp: chain_step_def chain_act_def shifting_def)
  moreover have "next_state (ch_state c) False = ch_state c" using assms(1) by (auto simp: shifting_def)
  then have "next_state (ch_state c) (flip \<and> Suc i = n) =
      (if flip \<and> Suc i = n \<and> 0 < n then next_state (ch_state c) True else ch_state c)" by auto
  ultimately show ?case by (simp only:)
qed

text \<open>The bits a chain shows while \<open>n\<close> bits are shifted in.\<close>

lemma chain_shows:
  assumes "shifting (ch_state (chain_run ds h))" "length reg = n" "ch_shift (chain_run ds h) @ bits_of data n = reg @ rest"
    and "ch_shift (chain_run ds h) \<noteq> []"
  shows "tdo_bits (chain_tdo ds) h (scan_view data n flip) = reg"
proof (rule nth_equalityI)
  show "length (tdo_bits (chain_tdo ds) h (scan_view data n flip)) = length reg"
    using assms(2) by (simp add: scan_view_def)
  fix i assume "i < length (tdo_bits (chain_tdo ds) h (scan_view data n flip))"
  then have i: "i < n" "i < length (scan_view data n flip)" by (simp_all add: scan_view_def)
  let ?r = "ch_shift (chain_run ds h)"
  have sh: "ch_shift (foldl (chain_step ds) (chain_run ds h) (take i (scan_view data n flip))) = drop i (?r @ bits_of data i)"
    using chain_shift [OF assms(1), of i n ds data flip] i(1) by simp
  have ne: "i < length (?r @ bits_of data i)" using assms(4) by (cases ?r) simp_all
  have "hd (drop i (?r @ bits_of data i)) = (?r @ bits_of data n) ! i"
  proof -
    have "hd (drop i (?r @ bits_of data i)) = (?r @ bits_of data i) ! i" using ne by (rule hd_drop_conv_nth)
    moreover have "i - length ?r < i" if "\<not> i < length ?r" using that assms(4) by (cases ?r) simp_all
    ultimately show ?thesis using i(1) by (simp add: nth_append)
  qed
  moreover have "(?r @ bits_of data n) ! i = reg ! i" using assms(2,3) i(1) by (simp add: nth_append)
  moreover have "drop i (?r @ bits_of data i) \<noteq> []" using ne by (simp only: drop_eq_Nil not_le)
  ultimately show "tdo_bits (chain_tdo ds) h (scan_view data n flip) ! i = reg ! i"
    unfolding tdo_bits_nth [OF i(2)] chain_tdo_def chain_run_append sh by (simp only: simp_thms)
qed

lemma chain_empty:
  assumes "shifting (ch_state (chain_run ds h))" "ch_shift (chain_run ds h) = []"
  shows "tdo_bits (chain_tdo ds) h (scan_view data n flip) = replicate n False"
proof (rule nth_equalityI)
  show len: "length (tdo_bits (chain_tdo ds) h (scan_view data n flip)) = length (replicate n False)"
    by (simp add: scan_view_def)
  fix i assume "i < length (tdo_bits (chain_tdo ds) h (scan_view data n flip))"
  then have i: "i < n" "i < length (scan_view data n flip)" by (simp_all add: scan_view_def)
  then show "tdo_bits (chain_tdo ds) h (scan_view data n flip) ! i = replicate n False ! i"
    using chain_shift [OF assms(1), of i n ds data flip] assms(2)
    by (simp add: chain_tdo_def chain_run_append)
qed

text \<open>Paths that shift nothing.\<close>

lemma quiet_paths:
  "tms_bits cyc = [False, True, True, False, False] \<Longrightarrow>
     tap_view TestLogicReset cyc = map (\<lambda>b. (b, None)) [False, True, True, False, False]"
  "tms_bits cyc = [True, True, False, False] \<Longrightarrow>
     tap_view Exit1IR cyc = map (\<lambda>b. (b, None)) [True, True, False, False]"
  "tms_bits cyc = [False, True, False, False] \<Longrightarrow>
     tap_view TestLogicReset cyc = map (\<lambda>b. (b, None)) [False, True, False, False]"
  by (auto simp: map_eq_Cons_conv shifting_def)

lemma chain_to_ir:
  assumes "ch_state c = TestLogicReset"
  shows "foldl (chain_step ds) c (map (\<lambda>b. (b, None)) [False, True, True, False, False]) =
     \<lparr>ch_state = ShiftIR, ch_instr = map (\<lambda>_. None) ds, ch_shift = concat (map ir_pattern ds)\<rparr>"
  using assms by (cases c) (simp add: chain_step_def chain_act_def)

lemma chain_to_codes:
  assumes "ch_state c = TestLogicReset"
  shows "foldl (chain_step ds) c (map (\<lambda>b. (b, None)) [False, True, False, False]) =
     \<lparr>ch_state = ShiftDR, ch_instr = map (\<lambda>_. None) ds, ch_shift = concat (map (code_bits \<circ> idcode) ds)\<rparr>"
proof -
  have "map2 data_register ds (map (\<lambda>_. None) ds) = map (code_bits \<circ> idcode) ds"
    by (induction ds) (simp_all add: data_register_def)
  then show ?thesis using assms by (cases c) (simp add: chain_step_def chain_act_def)
qed

lemma chain_to_bypass:
  assumes "ch_state c = Exit1IR" "list_all id (ch_shift c)"
  shows "foldl (chain_step ds) c (map (\<lambda>b. (b, None)) [True, True, False, False]) =
     \<lparr>ch_state = ShiftDR, ch_instr = map Some (cut (map (length \<circ> ir_pattern) ds) (ch_shift c)),
      ch_shift = replicate (length ds) False\<rparr>"
proof -
  have "list_all id xs \<Longrightarrow> map2 data_register ds (map Some (cut (map (length \<circ> ir_pattern) ds) xs)) =
      replicate (length ds) [False]" for xs
  proof (induction ds arbitrary: xs)
    case Nil
    then show ?case by simp
  next
    case (Cons d ds)
    have "list_all id (take n xs)" "list_all id (drop n xs)" for n
      using Cons.prems by (auto simp: list_all_iff dest: in_set_takeD in_set_dropD)
    then have "data_register d (Some (take n xs)) = [False]" "list_all id (drop n xs)" for n
      by (simp_all only: data_register_def option.case if_True)
    with Cons.IH [of "drop (length (ir_pattern d)) xs"] show ?case by (simp only: cut.simps list.map zip_Cons_Cons prod.case comp_apply list.size replicate_Suc) simp
  qed
  from this [OF assms(2)] have "concat (map2 data_register ds (map Some (cut (map (length \<circ> ir_pattern) ds) (ch_shift c)))) =
      concat (replicate (length ds) [False])" by simp
  moreover have "concat (replicate n [False]) = replicate n False" for n by (induction n) simp_all
  ultimately show ?thesis
    using assms(1) by (cases c) (simp add: chain_step_def chain_act_def)
qed

lemma length_chain_codes: "length (concat (map (code_bits \<circ> idcode) ds)) = 32 * length ds"
  by (induction ds) (simp_all add: code_bits_def)

section \<open>The probe\<close>

text \<open>What the probe reports of a chain: its codes, unless it has \<open>MAX_TAPS\<close> devices or more.\<close>

definition probed :: "device list \<Rightarrow> 32 word list" where
  "probed ds = (if length ds < MAX_TAPS then map idcode ds else [])"

text \<open>The count: \<open>k\<close> zeros from the bypass registers, then ones.\<close>

lemma count_bypass:
  assumes "k \<le> 7" "bits_of rb 8 = replicate k False @ replicate (8 - k) True"
  shows "count_devices rb = k"
proof (rule count_devices_chain)
  have b: "bit_at rb i = (k \<le> i)" if "i < 8" for i
    using arg_cong [OF assms(2), of "\<lambda>x. x ! i"] that assms(1) by (simp add: nth_append)
  show "k < MAX_TAPS" "\<forall>i<k. \<not> bit_at rb i" "bit_at rb k" using assms(1) b by (simp_all add: MAX_TAPS_def)
qed

lemma count_nothing:
  assumes "bits_of rb 8 = replicate 8 False"
  shows "count_devices rb = 0"
proof -
  have "\<not> bit_at rb i" if "i < 8" for i using arg_cong [OF assms, of "\<lambda>x. x ! i"] that by simp
  then have "find (bit_at rb) [0..<MAX_TAPS] = None" by (auto simp: find_None_iff MAX_TAPS_def)
  then show ?thesis by (simp add: count_devices_def)
qed

lemma collect_code_bits:
  assumes "length ids \<le> 8" "bits_of rb 256 = concat (map code_bits ids) @ rest"
  shows "collect_idcodes rb (length ids) = ids"
proof (rule nth_equalityI)
  fix i assume "i < length (collect_idcodes rb (length ids))"
  then have i: "i < length ids" by simp
  have flat: "concat (map code_bits xs) ! (32 * k + j) = bit (xs ! k) j" if "k < length xs" "j < 32" for xs k j
    using that
  proof (induction xs arbitrary: k)
    case Nil
    then show ?case by simp
  next
    case (Cons x xs)
    show ?case
    proof (cases k)
      case 0
      with Cons.prems show ?thesis by (simp add: code_bits_def nth_append)
    next
      case (Suc m)
      then have "(32 * k + j) - length (code_bits x) = 32 * m + j" "\<not> 32 * k + j < length (code_bits x)"
        by (simp_all add: code_bits_def)
      with Cons Suc show ?thesis by (simp add: nth_append)
    qed
  qed
  have len: "length (concat (map code_bits ids)) = 32 * length ids" by (induction ids) (simp_all add: code_bits_def)
  have b: "bit_at rb (32 * i + j) = bit (ids ! i) j" if "j < 32" for j
  proof -
    have "32 * i + j < 32 * length ids" using that i by linarith
    moreover have "32 * length ids \<le> 256" using assms(1) by simp
    ultimately show ?thesis
      using arg_cong [OF assms(2), of "\<lambda>x. x ! (32 * i + j)"] flat [OF i that] len by (simp add: nth_append)
  qed
  have byte: "bit (rb ! (4 * i + k)) m = bit_at rb (32 * i + (8 * k + m))" if "m < 8" for k m
    using bit_at_8 [OF that, of rb "4 * i + k"] by (simp add: algebra_simps)
  show "collect_idcodes rb (length ids) ! i = ids ! i"
  proof (rule bit_word_eqI)
    fix n assume "n < LENGTH(32)"
    then have n: "n < 32" by simp
    have "bit (collect_idcodes rb (length ids) ! i) n = bit_at rb (32 * i + n)"
      using i n byte [of n 0] byte [of "n - 8" 1] byte [of "n - 16" 2] byte [of "n - 24" 3]
      by (auto simp: collect_idcodes_def bit_le32 mult.commute)
    then show "bit (collect_idcodes rb (length ids) ! i) n = bit (ids ! i) n" using b [OF n] by simp
  qed
qed simp

text \<open>What the chain has become after an operation.\<close>

abbreviation chain_at :: "device list \<Rightarrow> cycle list \<Rightarrow> chain" where
  "chain_at ds w \<equiv> chain_run ds (history w)"

lemma chain_drives:
  assumes "tracks wire s" "drives ok_inv can wire s cyc t"
  shows "chain_at ds (wire t) = foldl (chain_step ds) (chain_at ds (wire s)) (tap_view (state s) cyc)"
  using assms by (simp add: drives_def tracks_def tap_view_append chain_run_append)

lemma chain_tracks: "tracks wire s \<Longrightarrow> ch_state (chain_at ds (wire s)) = state s"
  by (simp add: tracks_def chain_state)

lemma chain_scanned:
  assumes "tracks wire s" "drives ok_inv can wire s (scan_cycles data n flip rd) t" "shifting (state s)"
  shows "ch_shift (chain_at ds (wire t)) = drop n (ch_shift (chain_at ds (wire s)) @ bits_of data n)"
    "ch_instr (chain_at ds (wire t)) = ch_instr (chain_at ds (wire s))"
proof -
  have sh: "shifting (ch_state (chain_at ds (wire s)))" using assms(1,3) by (simp add: chain_tracks)
  have "take n (scan_view data n flip) = scan_view data n flip" by (simp add: scan_view_def)
  then show "ch_shift (chain_at ds (wire t)) = drop n (ch_shift (chain_at ds (wire s)) @ bits_of data n)"
    "ch_instr (chain_at ds (wire t)) = ch_instr (chain_at ds (wire s))"
    using chain_drives [OF assms(1,2), of ds] chain_shift [where c = "chain_at ds (wire s)" and i = n and n = n and ds = ds and data = data and flip = flip, OF sh order_refl]
    by (simp_all add: tap_view_scan [OF assms(3)])
qed

lemma bits_of_const:
  "bits_of (replicate m 0xFF) (8 * m) = replicate (8 * m) True" "bits_of (replicate m 0) (8 * m) = replicate (8 * m) False"
proof -
  have "bit (0xFF :: byte) k" if "k < 8" for k
  proof -
    have "bit (mask 8 :: byte) k" using that by (simp only: bit_mask_iff) simp
    then show ?thesis by (simp add: mask_eq_exp_minus_1)
  qed
  then show "bits_of (replicate m 0xFF) (8 * m) = replicate (8 * m) True"
    by (intro nth_equalityI) (simp_all add: bit_at_def div_less_bits)
  show "bits_of (replicate m 0) (8 * m) = replicate (8 * m) False"
    by (intro nth_equalityI) simp_all
qed

context jtag_driver
begin

text \<open>A path of TMS values in the table.\<close>

lemma tms_path_drives:
  assumes "live" "drv_inv s" "can_send s" "tracks wire s"
    and "jtag_get_tms_seq (state s) dst = Inr (tms, n)" "0 < n" "n \<le> 8"
  shows "\<exists>t cyc. jtag_tms_seq_to D dst s = Inr (True, t) \<and> drives drv_inv can_send wire s cyc t \<and>
     tms_bits cyc = bits_of [tms] n \<and> state t = dst"
proof -
  have n: "n \<le> 8 * length [tms]" using assms(7) by simp
  from tms_seq_drives [OF assms(1-4,6) n] obtain t cyc where
    t: "jtag_tms_seq D [tms] n s = Inr (True, t)" "drives drv_inv can_send wire s cyc t" "tms_bits cyc = bits_of [tms] n"
    by blast
  moreover have "jtag_tms_seq_to D dst s = Inr (True, t)" using assms(5,6) t(1) by (simp add: jtag_tms_seq_to_def)
  moreover have "state t = dst"
    using drives_state [OF assms(4) t(2)] t(3) jtag_get_tms_seq_path [OF assms(5)] assms(6) by simp
  ultimately show ?thesis by blast
qed

text \<open>Into bypass: reset, all ones into every instruction register, then zeros into the bypass registers.\<close>

lemma probe_bypass_drives:
  assumes "live" "drv_inv s" "can_send s" "tracks wire s"
    and ir: "length (concat (map ir_pattern ds)) \<le> MAX_TAPS * MAX_IR"
  shows "\<exists>a b c d t cyc.
     jtag_goto_tlr D s = Inr (True, a) \<and> jtag_tms_seq_to D ShiftIR a = Inr (True, b) \<and>
     jtag_scan_chain_send D (replicate (MAX_TAPS * MAX_IR div 8) 0xFF) (MAX_TAPS * MAX_IR) True False b = Inr (True, c) \<and>
     jtag_tms_seq_to D ShiftDR c = Inr (True, d) \<and>
     jtag_scan_chain_send D (replicate (MAX_TAPS div 8) 0) MAX_TAPS False False d = Inr (True, t) \<and>
     drives drv_inv can_send wire s cyc t \<and> state t = ShiftDR \<and>
     ch_shift (chain_at ds (wire t)) = replicate (length ds) False"
proof -
  from goto_tlr_drives [OF assms(1-4)] obtain a ca where
    a: "jtag_goto_tlr D s = Inr (True, a)" "drives drv_inv can_send wire s ca a" "state a = TestLogicReset" by blast
  note pa = drivesD(1-3) [OF a(2)]
  have "jtag_get_tms_seq (state a) ShiftIR = Inr (0x06, 5)" by (simp add: a(3) tms_path_facts)
  from tms_path_drives [OF assms(1) pa this] obtain b cb where
    b: "jtag_tms_seq_to D ShiftIR a = Inr (True, b)" "drives drv_inv can_send wire a cb b"
      "tms_bits cb = bits_of [0x06] 5" "state b = ShiftIR" by auto
  note pb = drivesD(1-3) [OF b(2)]
  have "tms_bits cb = [False, True, True, False, False]" using b(3) by (simp add: bits_of_byte)
  then have ir_b: "ch_shift (chain_at ds (wire b)) = concat (map ir_pattern ds)"
    using chain_drives [OF pa(3) b(2), of ds] chain_to_ir [of "chain_at ds (wire a)" ds] chain_tracks [OF pa(3), of ds] a(3)
    by (simp add: quiet_paths)
  have sb: "shifting (state b)" by (simp add: b(4) shifting_def)
  have n: "0 < MAX_TAPS * MAX_IR" "MAX_TAPS * MAX_IR \<le> 8 * length (replicate (MAX_TAPS * MAX_IR div 8) (0xFF :: byte))"
    by (simp_all add: MAX_TAPS_def MAX_IR_def)
  from scan_send_drives [OF assms(1) pb sb n scan_limit_probe(1), of True] obtain c where
    c: "jtag_scan_chain_send D (replicate (MAX_TAPS * MAX_IR div 8) 0xFF) (MAX_TAPS * MAX_IR) True False b = Inr (True, c)"
      "drives drv_inv can_send wire b
         (scan_cycles (replicate (MAX_TAPS * MAX_IR div 8) 0xFF) (MAX_TAPS * MAX_IR) True False) c" by blast
  note pc = drivesD(1-3) [OF c(2)]
  have st_c: "state c = Exit1IR" using flip_scan_state [OF c(2) pb(3) sb n(1)] b(4) by simp
  have ones: "bits_of (replicate (MAX_TAPS * MAX_IR div 8) 0xFF) (MAX_TAPS * MAX_IR) = replicate (MAX_TAPS * MAX_IR) True"
    using bits_of_const(1) [of 16] by (simp add: MAX_TAPS_def MAX_IR_def)
  have ones_c: "list_all id (ch_shift (chain_at ds (wire c)))"
    using chain_scanned(1) [OF pb(3) c(2) sb, of ds] ir unfolding ones ir_b by (simp add: list_all_iff)
  have "jtag_get_tms_seq (state c) ShiftDR = Inr (0x3, 4)" by (simp add: st_c tms_path_facts)
  from tms_path_drives [OF assms(1) pc this] obtain d cd where
    d: "jtag_tms_seq_to D ShiftDR c = Inr (True, d)" "drives drv_inv can_send wire c cd d"
      "tms_bits cd = bits_of [0x3] 4" "state d = ShiftDR" by auto
  note pd = drivesD(1-3) [OF d(2)]
  have "tms_bits cd = [True, True, False, False]" using d(3) by (simp add: bits_of_byte)
  then have dr_d: "ch_shift (chain_at ds (wire d)) = replicate (length ds) False"
    using chain_drives [OF pc(3) d(2), of ds] chain_to_bypass [of "chain_at ds (wire c)" ds] chain_tracks [OF pc(3), of ds]
      st_c ones_c by (simp add: quiet_paths)
  have sd: "shifting (state d)" by (simp add: d(4) shifting_def)
  have m: "0 < MAX_TAPS" "MAX_TAPS \<le> 8 * length (replicate (MAX_TAPS div 8) (0 :: byte))" by (simp_all add: MAX_TAPS_def)
  from scan_send_drives [OF assms(1) pd sd m scan_limit_probe(2), of False] obtain t where
    t: "jtag_scan_chain_send D (replicate (MAX_TAPS div 8) 0) MAX_TAPS False False d = Inr (True, t)"
      "drives drv_inv can_send wire d (scan_cycles (replicate (MAX_TAPS div 8) 0) MAX_TAPS False False) t" by blast
  have "bits_of (replicate (MAX_TAPS div 8) 0) MAX_TAPS = replicate MAX_TAPS False"
    using bits_of_const(2) [of 1] by (simp add: MAX_TAPS_def)
  then have "ch_shift (chain_at ds (wire t)) = drop MAX_TAPS (replicate (length ds + MAX_TAPS) False)"
    using chain_scanned(1) [OF pd(3) t(2) sd, of ds] dr_d by (simp only: replicate_add)
  then have "ch_shift (chain_at ds (wire t)) = replicate (length ds) False" by simp
  moreover have "state t = ShiftDR" using hold_scan_state [OF t(2) pd(3) sd m(1)] d(4) by simp
  moreover have "\<exists>cyc. drives drv_inv can_send wire s cyc t"
    by (rule exI, rule drives_trans [OF drives_trans [OF drives_trans [OF drives_trans [OF a(2) b(2)] c(2)] d(2)] t(2)])
  ultimately show ?thesis using a(1) b(1) c(1) d(1) t(1) by blast
qed

text \<open>The count, the identification codes, and the whole probe.\<close>

lemma probe_count_chain:
  assumes "live" "drv_inv s" "can_send s" "tracks wire s" "state s = ShiftDR"
    and ds: "target = Some (chain_tdo ds)"
      "ch_shift (chain_at ds (wire s)) = replicate (length ds) False"
  shows "\<exists>rb t cyc. jtag_scan_chain D (replicate (MAX_TAPS div 8) 0xFF) (indeterminate E (MAX_TAPS div 8)) MAX_TAPS True True s =
       Inr (True, rb, t) \<and> drives drv_inv can_send wire s cyc t \<and> state t = Exit1DR \<and> count_devices rb = (if length ds < MAX_TAPS then length ds else 0)"
proof -
  let ?k = "length ds" and ?ones = "replicate (MAX_TAPS div 8) (0xFF :: byte)"
  have ss: "shifting (state s)" by (simp add: assms(5) shifting_def)
  have n: "0 < MAX_TAPS" "MAX_TAPS \<le> 8 * length ?ones" "MAX_TAPS \<le> 8 * length (indeterminate E (MAX_TAPS div 8))"
    by (simp_all add: MAX_TAPS_def)
  have free: "last_bit_free (indeterminate E (MAX_TAPS div 8)) MAX_TAPS True"
    by (rule last_bit_free_bytes) (simp_all add: MAX_TAPS_def)
  from scan_chain_drives [OF assms(1-4) ss n(1,2) scan_limit_probe(2) n(3), of True True] ds(1) free obtain rb t where
    t: "jtag_scan_chain D ?ones (indeterminate E (MAX_TAPS div 8)) MAX_TAPS True True s = Inr (True, rb, t)"
      "drives drv_inv can_send wire s (scan_cycles ?ones MAX_TAPS True True) t"
      "bits_of rb MAX_TAPS = tdo_bits (chain_tdo ds) (history (wire s)) (tap_view (state s) (scan_cycles ?ones MAX_TAPS True True))"
    by auto
  have sh: "shifting (ch_state (chain_at ds (wire s)))" using ss by (simp add: chain_tracks [OF assms(4)])
  have rb: "bits_of rb 8 = tdo_bits (chain_tdo ds) (history (wire s)) (scan_view ?ones 8 True)"
    using t(3) by (simp add: tap_view_scan [OF ss] MAX_TAPS_def)
  have ones: "bits_of ?ones 8 = replicate 8 True" using bits_of_const(1) [of 1] by (simp add: MAX_TAPS_def)
  consider "ds = []" | "ds \<noteq> []" "?k \<le> 7" | "8 \<le> ?k" by linarith
  then have "count_devices rb = (if ?k < MAX_TAPS then ?k else 0)"
  proof cases
    case 1
    then have "bits_of rb 8 = replicate 8 False" using chain_empty [OF sh] ds(2) unfolding rb by simp
    then show ?thesis using 1 count_nothing by simp
  next
    case 2
    have "replicate (8 :: nat) True = replicate (8 - ?k) True @ replicate ?k True"
      using 2(2) by (simp flip: replicate_add)
    then have "ch_shift (chain_at ds (wire s)) @ bits_of ?ones 8 =
        (replicate ?k False @ replicate (8 - ?k) True) @ replicate ?k True"
      using ds(2) ones by simp
    from chain_shows [OF sh _ this, of True] have "bits_of rb 8 = replicate ?k False @ replicate (8 - ?k) True"
      using 2 ds(2) unfolding rb by simp
    then show ?thesis using count_bypass [OF 2(2)] 2(2) by (simp add: MAX_TAPS_def)
  next
    case 3
    then have "replicate ?k False = replicate 8 False @ replicate (?k - 8) False" by (simp flip: replicate_add)
    then have "ch_shift (chain_at ds (wire s)) @ bits_of ?ones 8 =
        replicate 8 False @ replicate (?k - 8) False @ bits_of ?ones 8"
      using ds(2) by simp
    moreover have "ch_shift (chain_at ds (wire s)) \<noteq> []" using 3 ds(2) by auto
    ultimately have "bits_of rb 8 = replicate 8 False"
      using chain_shows [OF sh, of "replicate 8 False" 8] unfolding rb by simp
    then show ?thesis using 3 count_nothing by (simp add: MAX_TAPS_def)
  qed
  moreover have "state t = Exit1DR" using flip_scan_state [OF t(2) assms(4) ss n(1)] assms(5) by simp
  ultimately show ?thesis using t(1,2) by blast
qed

lemma probe_codes_chain:
  assumes "live" "drv_inv s" "can_send s" "tracks wire s"
    and ds: "target = Some (chain_tdo ds)" "ds \<noteq> []" "length ds \<le> 7"
  shows "\<exists>a b c t rb cyc.
     jtag_goto_tlr D s = Inr (True, a) \<and> jtag_tms_seq D [0x02] 4 a = Inr (True, b) \<and>
     jtag_scan_chain D (replicate (MAX_TAPS * 32 div 8) 0) (indeterminate E (MAX_TAPS * 32 div 8)) (MAX_TAPS * 32) True True b =
       Inr (True, rb, c) \<and>
     jtag_goto_tlr D c = Inr (True, t) \<and> drives drv_inv can_send wire s cyc t \<and> state t = TestLogicReset \<and>
     collect_idcodes rb (length ds) = map idcode ds"
proof -
  let ?zeros = "replicate (MAX_TAPS * 32 div 8) (0 :: byte)" and ?n = "MAX_TAPS * 32"
  from goto_tlr_drives [OF assms(1-4)] obtain a ca where
    a: "jtag_goto_tlr D s = Inr (True, a)" "drives drv_inv can_send wire s ca a" "state a = TestLogicReset" by blast
  note pa = drivesD(1-3) [OF a(2)]
  from tms_seq_drives [OF assms(1) pa, of 4 "[0x02]"] obtain b cb where
    b: "jtag_tms_seq D [0x02] 4 a = Inr (True, b)" "drives drv_inv can_send wire a cb b"
      "tms_bits cb = bits_of [0x02] 4" by auto
  note pb = drivesD(1-3) [OF b(2)]
  have "state b = ShiftDR" using drives_state [OF pa(3) b(2)] b(3) a(3) by (simp add: tms_path_facts)
  then have sb: "shifting (state b)" by (simp add: shifting_def)
  let ?codes = "concat (map (code_bits \<circ> idcode) ds)"
  have "tms_bits cb = [False, True, False, False]" using b(3) by (simp add: bits_of_byte)
  then have reg: "ch_shift (chain_at ds (wire b)) = ?codes"
    using chain_drives [OF pa(3) b(2), of ds] chain_to_codes [of "chain_at ds (wire a)" ds] chain_tracks [OF pa(3), of ds] a(3)
    by (simp add: quiet_paths)
  have n: "0 < ?n" "?n \<le> 8 * length ?zeros" "?n \<le> 8 * length (indeterminate E (MAX_TAPS * 32 div 8))"
    by (simp_all add: MAX_TAPS_def)
  have free: "last_bit_free (indeterminate E (MAX_TAPS * 32 div 8)) ?n True"
    by (rule last_bit_free_bytes) (simp_all add: MAX_TAPS_def)
  from scan_chain_drives [OF assms(1) pb sb n(1,2) scan_limit_probe(3) n(3), of True True] ds(1) free obtain rb c where
    c: "jtag_scan_chain D ?zeros (indeterminate E (MAX_TAPS * 32 div 8)) ?n True True b = Inr (True, rb, c)"
      "drives drv_inv can_send wire b (scan_cycles ?zeros ?n True True) c"
      "bits_of rb ?n = tdo_bits (chain_tdo ds) (history (wire b)) (tap_view (state b) (scan_cycles ?zeros ?n True True))"
    by auto
  have sh: "shifting (ch_state (chain_at ds (wire b)))" using sb by (simp add: chain_tracks [OF pb(3)])
  have len: "length ?codes = 32 * length ds" by (rule length_chain_codes)
  have "bits_of ?zeros ?n = replicate (?n - 32 * length ds) False @ replicate (32 * length ds) False"
    using bits_of_const(2) [of 32] ds(3) by (simp add: MAX_TAPS_def flip: replicate_add)
  then have e: "ch_shift (chain_at ds (wire b)) @ bits_of ?zeros ?n =
      (?codes @ replicate (?n - 32 * length ds) False) @ replicate (32 * length ds) False" by (simp add: reg)
  have l: "length (?codes @ replicate (?n - 32 * length ds) False) = ?n" using ds(3) len by (simp add: MAX_TAPS_def)
  have "?codes \<noteq> []" using len ds(2) by (metis length_0_conv mult_eq_0_iff zero_neq_numeral)
  then have ne: "ch_shift (chain_at ds (wire b)) \<noteq> []" by (simp only: reg) simp
  have rb: "bits_of rb ?n = ?codes @ replicate (?n - 32 * length ds) False"
    unfolding c(3) tap_view_scan [OF sb] by (rule chain_shows [OF sh l e ne])
  then have "collect_idcodes rb (length ds) = map idcode ds"
    using collect_code_bits [of "map idcode ds" rb] ds(3) rb by (simp add: MAX_TAPS_def comp_def)
  moreover from goto_tlr_drives [OF assms(1) drivesD(1-3) [OF c(2)]] obtain t ct where
    t: "jtag_goto_tlr D c = Inr (True, t)" "drives drv_inv can_send wire c ct t" "state t = TestLogicReset" by blast
  moreover have "\<exists>cyc. drives drv_inv can_send wire s cyc t"
    by (rule exI, rule drives_trans [OF drives_trans [OF drives_trans [OF a(2) b(2)] c(2)] t(2)])
  ultimately show ?thesis using a(1) b(1) c(1) by blast
qed

lemma probe_chain_drives:
  assumes "live" "drv_inv s" "can_send s" "tracks wire s"
    and ds: "target = Some (chain_tdo ds)" "length (concat (map ir_pattern ds)) \<le> MAX_TAPS * MAX_IR"
  shows "\<exists>t cyc. jtag_probe_devices E D s = Inr (probed ds, t) \<and> drives drv_inv can_send wire s cyc t \<and>
     state t = (if probed ds = [] then Exit1DR else TestLogicReset)"
proof -
  from probe_bypass_drives [OF assms(1-4) ds(2)] obtain a b c d e cyc1 where
    1: "jtag_goto_tlr D s = Inr (True, a)" "jtag_tms_seq_to D ShiftIR a = Inr (True, b)"
     "jtag_scan_chain_send D (replicate (MAX_TAPS * MAX_IR div 8) 0xFF) (MAX_TAPS * MAX_IR) True False b = Inr (True, c)"
     "jtag_tms_seq_to D ShiftDR c = Inr (True, d)"
     "jtag_scan_chain_send D (replicate (MAX_TAPS div 8) 0) MAX_TAPS False False d = Inr (True, e)"
     "drives drv_inv can_send wire s cyc1 e" "state e = ShiftDR"
     "ch_shift (chain_at ds (wire e)) = replicate (length ds) False" by blast
  note pe = drivesD(1-3) [OF 1(6)]
  from probe_count_chain [OF assms(1) pe 1(7) ds(1) 1(8), of E] obtain rb t cyc2 where
    2: "jtag_scan_chain D (replicate (MAX_TAPS div 8) 0xFF) (indeterminate E (MAX_TAPS div 8)) MAX_TAPS True True e =
       Inr (True, rb, t)" "drives drv_inv can_send wire e cyc2 t" "state t = Exit1DR" "count_devices rb = (if length ds < MAX_TAPS then length ds else 0)" by blast
  note pt = drivesD(1-3) [OF 2(2)] and whole = drives_trans [OF 1(6) 2(2)]
  note steps = 1(1-5) 2(1)
  show ?thesis
  proof (cases "ds = [] \<or> MAX_TAPS \<le> length ds")
    case True
    then have none: "count_devices rb = 0" "probed ds = []" using 2(4) by (auto simp: probed_def)
    then have "jtag_probe_devices E D s = Inr (probed ds, t)"
      by (simp add: jtag_probe_devices_def steps Let_def)
    with whole 2(3) none(2) show ?thesis by auto
  next
    case False
    then have few: "ds \<noteq> []" "length ds \<le> 7" and num: "count_devices rb = length ds" and found: "probed ds = map idcode ds"
      using 2(4) by (auto simp: probed_def MAX_TAPS_def)
    from probe_codes_chain [OF assms(1) pt ds(1) few, of E] obtain f g h u rb2 cyc3 where
      3: "jtag_goto_tlr D t = Inr (True, f)" "jtag_tms_seq D [0x02] 4 f = Inr (True, g)"
       "jtag_scan_chain D (replicate (MAX_TAPS * 32 div 8) 0) (indeterminate E (MAX_TAPS * 32 div 8)) (MAX_TAPS * 32)
          True True g = Inr (True, rb2, h)"
       "jtag_goto_tlr D h = Inr (True, u)" "drives drv_inv can_send wire t cyc3 u" "state u = TestLogicReset"
       "collect_idcodes rb2 (length ds) = map idcode ds" by blast
    have ne: "(length ds = 0) = False" using few(1) by simp
    have "jtag_probe_devices E D s = Inr (probed ds, u)"
      by (simp only: jtag_probe_devices_def steps 3 num found bindR_simps prod.case Let_def ne if_False)
    with drives_trans [OF whole 3(5)] 3(6) few(1) found show ?thesis by auto
  qed
qed

end

end
