(* ===== verification/Answers.thy ===== *)
theory Answers
  imports Chain Vpi_Drivers Jtagd_Drivers
begin

text \<open>
  What the clients of the jtag_vpi and the jtagd server are told, on any driver with a target that
  keeps the contract: the TDO levels the target shows in the cycles they asked for, and the
  identification codes of the devices of a chain.
\<close>

section \<open>Bits of a word\<close>

lemma bit_at_le32:
  assumes "i < 32"
  shows "bit_at (le32_bytes x) i = bit x i"
proof -
  define q m where "q = i div 8" and "m = i mod 8"
  have i: "i = 8 * q + m" "m < 8" by (simp_all add: q_def m_def)
  then have "q < 4" using assms by linarith
  then consider "q = 0" | "q = 1" | "q = 2" | "q = 3" by linarith
  then show ?thesis
    using i(2) unfolding bit_at_def q_def [symmetric] m_def [symmetric]
    by cases (simp_all add: i(1) le32_bytes_def bit_ucast_iff bit_drop_bit_eq)
qed

lemma shows_tdo_word:
  assumes "shows_tdo f h v (le32_bytes x) n" "length v = n" "n \<le> 32"
  shows "map (bit x) [0..<n] = tdo_bits f h v"
proof (rule nth_equalityI)
  fix i assume "i < length (map (bit x) [0..<n])"
  then have i: "i < n" "i < 32" using assms(3) by simp_all
  then show "map (bit x) [0..<n] ! i = tdo_bits f h v ! i"
    using assms(1,2) bit_at_le32 [OF i(2), of x] by (simp add: shows_tdo_def)
qed (simp add: assms(2))

section \<open>After an operation\<close>

context jtag_driver
begin

text \<open>What is left to say once an operation has driven the wire and the server has answered.\<close>

lemma rest_answered:
  assumes "tracks wire s" "drives drv_inv can_send wire s cyc t" "port u = port (world t)"
  shows "at_rest drv_inv can_send wire (t\<lparr>net_out := n, world := u\<rparr>)"
    and "history (wire (t\<lparr>net_out := n, world := u\<rparr>)) = history (wire s) @ tap_view (state s) cyc"
    and "wire (t\<lparr>net_out := n, world := u\<rparr>) = wire s @ cyc"
proof -
  let ?t = "t\<lparr>net_out := n, world := u\<rparr>"
  have view: "drv_inv ?t = drv_inv t" "can_send ?t = can_send t" "wire ?t = wire t"
    using view [of ?t t] assms(3) by simp_all
  then show "at_rest drv_inv can_send wire ?t" using assms(2) by (simp add: at_rest_def drives_def tracks_def)
  show wire: "wire ?t = wire s @ cyc" using assms(2) view(3) by (simp add: drives_def)
  show "history (wire ?t) = history (wire s) @ tap_view (state s) cyc"
    unfolding wire using assms(1) by (simp add: tracks_def tap_view_append)
qed

text \<open>Receiving from the client changes neither the adapter nor the target.\<close>

lemma rest_read:
  assumes "sockets_keep E port" "at_rest drv_inv can_send wire s" "call_read E n s = (x, r)"
  shows "at_rest drv_inv can_send wire r" "wire r = wire s" "state r = state s" "net_out r = net_out s" "client_fd r = client_fd s"
proof -
  from call_read_frame [OF assms(3)] obtain w where r: "r = s\<lparr>world := w\<rparr>" by blast
  have "port w = port (world s)" using socket_calls_keep(2) [OF assms(1), of n s] assms(3) r by simp
  with view [of r s] r assms(2)
  show "at_rest drv_inv can_send wire r" "wire r = wire s" "state r = state s" "net_out r = net_out s" "client_fd r = client_fd s"
    by (simp_all add: at_rest_def tracks_def)
qed

text \<open>The TAP of the target can be taken to a state of the table.\<close>

lemma rest_reach:
  assumes "live" "at_rest drv_inv can_send wire s" "jtag_get_tms_seq (state s) dst = Inr (tms, n)" "0 < n" "n \<le> 8"
  shows "\<exists>t cyc. at_rest drv_inv can_send wire t \<and> state t = dst \<and> same_host s t \<and>
     history (wire t) = history (wire s) @ tap_view (state s) cyc \<and> tms_bits cyc = bits_of [tms] n"
proof -
  have s: "drv_inv s" "can_send s" "tracks wire s" using assms(2) by (simp_all add: at_rest_def)
  from tms_path_drives [OF assms(1) s assms(3-5)] obtain t cyc where
    t: "drives drv_inv can_send wire s cyc t" "state t = dst" "tms_bits cyc = bits_of [tms] n" by blast
  moreover have "history (wire t) = history (wire s) @ tap_view (state s) cyc"
    using t(1) s(3) by (simp add: drives_def tracks_def tap_view_append)
  ultimately show ?thesis using drives_at_rest [OF t(1)] drivesD(4) [OF t(1)] by blast
qed

section \<open>The servers\<close>

text \<open>A scan command of jtag_vpi.\<close>

lemma vpi_scan_shown:
  assumes env: "live" "sock_accepts E" "sockets_keep E port" "target = Some f" and rest: "at_rest drv_inv can_send wire s"
    and "shifting (state s)" "0 \<le> client_fd s"
    and "vpi_holds v got" "call_read E (VPI_SIZE - length got) s = (Some bs, r)" "length (got @ bs) = VPI_SIZE"
    and "vpi_code (vpi_cmd (got @ bs)) = Some (if flip then CMD_SCAN_CHAIN_FLIP_TMS else CMD_SCAN_CHAIN)"
    and "0 < vpi_nb_bits (got @ bs)" "vpi_nb_bits (got @ bs) \<le> 4096"
  shows "\<exists>v' t tdo. jtag_vpi_tick E D v s = Inr (v', t) \<and> vpi_holds v' [] \<and> at_rest drv_inv can_send wire t \<and>
     client_fd t = client_fd s \<and>
     wire t = wire s @ scan_cycles (vpi_buffer_out (got @ bs)) (vpi_nb_bits (got @ bs)) flip True \<and>
     length tdo = 512 \<and> net_out t = net_out s @ write_at (got @ bs) VPI_IN tdo \<and>
     bits_of tdo (vpi_nb_bits (got @ bs)) = tdo_bits f (history (wire s))
       (tap_view (state s) (scan_cycles (vpi_buffer_out (got @ bs)) (vpi_nb_bits (got @ bs)) flip True))"
proof -
  let ?raw = "got @ bs"
  let ?scan = "scan_cycles (vpi_buffer_out ?raw) (vpi_nb_bits ?raw) flip True"
  note r = rest_read [OF env(3) rest assms(9)]
  have ready: "drv_inv r" "can_send r" "tracks wire r" using r(1) by (simp_all add: at_rest_def)
  have sh: "shifting (state r)" using assms(6) r(3) by simp
  from vpi_scan_drives [OF env(1,2) ready sh env(3) assms(10,12,13), of flip] env(4)
  obtain tdo t u where
    t: "vpi_scan E D flip (vpi_loaded ?raw) r = Inr (\<lparr>vpi_buffer = write_at ?raw VPI_IN tdo, vpi_recv = 0\<rparr>,
       t\<lparr>net_out := net_out r @ write_at ?raw VPI_IN tdo, world := u\<rparr>)" "length tdo = 512"
      "drives drv_inv can_send wire r ?scan t"
      "bits_of tdo (vpi_nb_bits ?raw) = tdo_bits f (history (wire r)) (tap_view (state r) ?scan)"
      "port u = port (world t)"
    by auto
  let ?t = "t\<lparr>net_out := net_out r @ write_at ?raw VPI_IN tdo, world := u\<rparr>"
  note att = rest_answered [OF ready(3) t(3,5)]
  have "vpi_holds \<lparr>vpi_buffer = write_at ?raw VPI_IN tdo, vpi_recv = 0\<rparr> []"
    using assms(10) t(2) by (simp add: vpi_holds_def VPI_SIZE_def VPI_IN_def)
  moreover have "client_fd t = client_fd r" using t(3) by (simp add: drives_def same_host_def)
  moreover have "jtag_vpi_tick E D v s = Inr (\<lparr>vpi_buffer = write_at ?raw VPI_IN tdo, vpi_recv = 0\<rparr>, ?t)"
    using vpi_tick_scan [OF assms(8,7,9,10,11), of D] t(1) by simp
  ultimately show ?thesis using t(2,4) att(1,3) r(2-5)
    by (intro exI [of _ "\<lparr>vpi_buffer = write_at ?raw VPI_IN tdo, vpi_recv = 0\<rparr>"] exI [of _ ?t] exI [of _ tdo]) simp
qed

text \<open>The instruction register through jtagd.\<close>

lemma access_ir_shown:
  assumes env: "live" "sock_accepts E" "sockets_keep E port" "target = Some f" and rest: "at_rest drv_inv can_send wire s"
    and "jtagd_idle j" "command m = 0xC6" "jtag_get_tms_seq (state s) ShiftIR = Inr p" "body_word m 12 = Inr instruction"
  shows "\<exists>x k t path. jtagd_dispatch E D m j s = Inr (True, k, t) \<and>
     net_out t = net_out s @ jtagd_frame 0 (response 0 (be32_bytes x)) \<and>
     wire t = wire s @ path @ scan_cycles (le32_bytes instruction) 10 True True \<and>
     run_tap (state s) (tms_bits path) = ShiftIR \<and> state t = Exit1IR \<and> at_rest drv_inv can_send wire t \<and> jtagd_idle k \<and>
     map (bit x) [0..<10] = tdo_bits f (history (wire s @ path))
       (tap_view ShiftIR (scan_cycles (le32_bytes instruction) 10 True True))"
proof -
  let ?scan = "scan_cycles (le32_bytes instruction) 10 True True"
  have s: "drv_inv s" "can_send s" "tracks wire s" using rest by (simp_all add: at_rest_def)
  from access_ir_drives [OF env(1,2) s assms(6,8,9)] obtain x k t u path where
    t: "jtagd_access_ir E D m j s =
       Inr (True, k, t\<lparr>net_out := net_out s @ jtagd_frame 0 (response 0 (be32_bytes x)), world := u\<rparr>)"
      "drives drv_inv can_send wire s (path @ ?scan) t"
      "run_tap (state s) (tms_bits path) = ShiftIR" "state t = Exit1IR" "jtagd_idle k"
      "shows_tdo f (history (wire s @ path)) (tap_view ShiftIR ?scan) (le32_bytes x) 10"
      "port u = port (world t)"
    using env(3,4) by (elim exE conjE) blast
  let ?t = "t\<lparr>net_out := net_out s @ jtagd_frame 0 (response 0 (be32_bytes x)), world := u\<rparr>"
  have "map (bit x) [0..<10] = tdo_bits f (history (wire s @ path)) (tap_view ShiftIR ?scan)"
    by (rule shows_tdo_word [OF t(6)]) simp_all
  with rest_answered [OF s(3) t(2,7)] t(1,3-5) assms(7) show ?thesis
    by (intro exI [of _ x] exI [of _ k] exI [of _ ?t] exI [of _ path]) (simp add: jtagd_dispatch_def)
qed

text \<open>The data register through jtagd.\<close>

lemma access_dr_shown:
  assumes env: "live" "sock_accepts E" "sockets_keep E port" "target = Some f" and rest: "at_rest drv_inv can_send wire s"
    and "jtagd_idle j" "command m = 0xC8" "jtag_get_tms_seq (state s) ShiftDR = Inr p"
    and "body_word m 12 = Inr length_dr" "body_word m 20 = Inr write_length" "body_word m 28 = Inr read_length"
    and "unat write_length div 8 \<le> length (fifos j FIFO_MIN)" "unat write_length div 8 \<le> BUFFER_SIZE"
    and "0 < length_dr" "unat length_dr \<le> SCAN_LIMIT" "unat read_length \<le> 2024"
  shows "\<exists>data k t path. jtagd_dispatch E D m j s = Inr (True, k, t) \<and>
     net_out t = net_out s @ dr_reply data \<and> length data = (unat read_length + 7) div 8 \<and>
     wire t = wire s @ path @ scan_cycles (dr_data j (unat write_length div 8)) (unat length_dr) True True \<and>
     run_tap (state s) (tms_bits path) = ShiftDR \<and> state t = Exit1DR \<and> at_rest drv_inv can_send wire t \<and> jtagd_idle k \<and>
     fifos k FIFO_MIN = drop (unat write_length div 8) (fifos j FIFO_MIN) \<and>
     shows_tdo f (history (wire s @ path))
       (tap_view ShiftDR (scan_cycles (dr_data j (unat write_length div 8)) (unat length_dr) True True))
       data (unat length_dr)"
proof -
  let ?scan = "scan_cycles (dr_data j (unat write_length div 8)) (unat length_dr) True True"
  have s: "drv_inv s" "can_send s" "tracks wire s" using rest by (simp_all add: at_rest_def)
  from access_dr_drives [OF env(1,2) s assms(6,8-16)] obtain data k t u path where
    t: "jtagd_access_dr E D m j s = Inr (True, k, t\<lparr>net_out := net_out s @ dr_reply data, world := u\<rparr>)"
      "drives drv_inv can_send wire s (path @ ?scan) t"
      "run_tap (state s) (tms_bits path) = ShiftDR" "state t = Exit1DR" "length data = (unat read_length + 7) div 8"
      "jtagd_idle k" "fifos k = (fifos j)(FIFO_MIN := drop (unat write_length div 8) (fifos j FIFO_MIN))"
      "shows_tdo f (history (wire s @ path)) (tap_view ShiftDR ?scan) data (unat length_dr)"
      "port u = port (world t)"
    using env(3,4) by (elim exE conjE) blast
  let ?t = "t\<lparr>net_out := net_out s @ dr_reply data, world := u\<rparr>"
  from rest_answered [OF s(3) t(2,9)] t(1,3-8) assms(7) show ?thesis
    by (intro exI [of _ data] exI [of _ k] exI [of _ ?t] exI [of _ path]) (simp add: jtagd_dispatch_def)
qed

text \<open>The probe, and \<open>READ_CHAIN\<close> of jtagd, in front of a chain.\<close>

lemma probe_shown:
  assumes "live" "at_rest drv_inv can_send wire s" "target = Some (chain_tdo ds)"
    and "length (concat (map ir_pattern ds)) \<le> MAX_TAPS * MAX_IR"
  shows "\<exists>t. jtag_probe_devices E D s = Inr (if length ds < MAX_TAPS then map idcode ds else [], t) \<and>
     at_rest drv_inv can_send wire t \<and> same_host s t \<and>
     state t = (if ds = [] \<or> MAX_TAPS \<le> length ds then Exit1DR else TestLogicReset)"
proof -
  have s: "drv_inv s" "can_send s" "tracks wire s" using assms(2) by (simp_all add: at_rest_def)
  from probe_chain_drives [OF assms(1) s assms(3,4), of E] obtain t cyc where
    t: "jtag_probe_devices E D s = Inr (probed ds, t)" "drives drv_inv can_send wire s cyc t"
    "state t = (if probed ds = [] then Exit1DR else TestLogicReset)" by blast
  from drives_at_rest [OF t(2)] drivesD(4) [OF t(2)] t(1,3) show ?thesis
    by (intro exI [of _ t]) (auto simp: probed_def)
qed

lemma read_chain_shown:
  assumes env: "live" "sock_accepts E" "sockets_keep E port" and rest: "at_rest drv_inv can_send wire s"
    and chain: "target = Some (chain_tdo ds)" "length (concat (map ir_pattern ds)) \<le> MAX_TAPS * MAX_IR"
    and "jtagd_idle j" "command m = 0xA5"
  shows "\<exists>k t. jtagd_dispatch E D m j s = Inr (True, k, t) \<and>
     net_out t = net_out s @ chain_reply (if length ds < MAX_TAPS then map idcode ds else []) \<and>
     devices k = (if length ds < MAX_TAPS then map idcode ds else []) \<and> jtagd_idle k \<and> at_rest drv_inv can_send wire t"
proof -
  have s: "drv_inv s" "can_send s" "tracks wire s" using rest by (simp_all add: at_rest_def)
  from probe_chain_drives [OF env(1) s chain, of E] obtain t cyc where
    t: "jtag_probe_devices E D s = Inr (probed ds, t)" "drives drv_inv can_send wire s cyc t" by blast
  have "length (probed ds) \<le> 7" by (simp add: probed_def MAX_TAPS_def)
  from read_chain_sends [OF t(1) this env(2) assms(7), of port] obtain k u where
    k: "jtagd_read_chain E D j s = Inr (True, k, t\<lparr>net_out := net_out t @ chain_reply (probed ds), world := u\<rparr>)"
      "jtagd_idle k" "devices k = probed ds" "port u = port (world t)"
    using env(3) by blast
  have "net_out t = net_out s" using t(2) by (simp add: drives_def same_host_def)
  with rest_answered(1) [OF s(3) t(2) k(4)] k(1-3) assms(8) show ?thesis
    by (intro exI [of _ k] exI [of _ "t\<lparr>net_out := net_out t @ chain_reply (probed ds), world := u\<rparr>"])
      (simp add: jtagd_dispatch_def probed_def)
qed

end

end
