(* ===== verification/Target_Servers.thy ===== *)
theory Target_Servers
  imports Targets Answers
begin

text \<open>
  The jtag_vpi and the jtagd server and the device probe with a JTAG target behind the MPSSE chip:
  the results a client gets are the TDO levels the target has shown, and the identification codes
  it gets are those of the devices of the chain.
\<close>

section \<open>Into a shift state\<close>

text \<open>A start for the examples: the TAP of the target has been taken to a state of the table.\<close>

lemma attached_reach:
  fixes s :: "('w, 'z) mpsse_state_scheme"
  assumes "target_live E f taken queue" "attached taken queue s" "jtag_get_tms_seq (state s) dst = Inr (tms, n)" "0 < n" "n \<le> 8"
  shows "\<exists>(t :: ('w, 'z) mpsse_state_scheme) cyc. attached taken queue t \<and> state t = dst \<and> same_host s t \<and>
     history (mpsse_wire t) = history (mpsse_wire s) @ tap_view (state s) cyc \<and> tms_bits cyc = bits_of [tms] n"
  using jtag_driver.rest_reach [OF chip_is_driver target_live_parts(1) [OF assms(1)] assms(2) [unfolded attached_rest [OF assms(1)]] assms(3-5)]
  unfolding attached_rest [OF assms(1)] .

lemma start_reach_dr:
  "\<exists>t :: (byte list \<times> byte list) mpsse_state. attached fst snd t \<and> state t = ShiftDR \<and> client_fd t = 4 \<and> net_out t = [] \<and>
     history (mpsse_wire t) = map (\<lambda>b. (b, None)) [False, True, False, False]"
proof -
  have path: "jtag_get_tms_seq (state target_start) ShiftDR = Inr (0x02, 4)"
    by (simp add: jtag_get_tms_seq_def)
  from attached_reach [OF target_ext_live attached_start path] obtain t :: "(byte list \<times> byte list) mpsse_state" and cyc where
    t: "attached fst snd t" "state t = ShiftDR" "same_host target_start t"
      "history (mpsse_wire t) = tap_view TestLogicReset cyc" "tms_bits cyc = bits_of [0x02] 4" by auto
  have "tms_bits cyc = [False, True, False, False]" using t(5) by (simp add: bits_of_byte)
  from quiet_paths(3) [OF this] t show ?thesis by (intro exI [of _ t]) (simp add: same_host_def)
qed

section \<open>Properties\<close>

text \<open>
  C9: a scan command of the jtag_vpi server end to end, on the MPSSE driver with any target
  \<open>f\<close> behind the chip, issued while the TAP shifts. The wire grows by exactly the scan of the command's \<open>buffer_out\<close> (TMS raised with the last bit for \<open>CMD_SCAN_CHAIN_FLIP_TMS\<close> only), and the
  client gets back exactly its own 1036 bytes with \<open>buffer_in\<close> replaced by 512 bytes whose first
  \<open>nb_bits\<close> bits are the TDO levels the target shows in the cycles of this scan; the server is
  then ready for the next command.
\<close>

theorem vpi_scan_target:
  assumes "target_live E f taken queue" "attached taken queue s" "shifting (state s)" "0 \<le> client_fd s"
    and "vpi_holds v got" "call_read E (VPI_SIZE - length got) s = (Some bs, r)" "length (got @ bs) = VPI_SIZE"
    and "vpi_code (vpi_cmd (got @ bs)) = Some (if flip then CMD_SCAN_CHAIN_FLIP_TMS else CMD_SCAN_CHAIN)"
    and "0 < vpi_nb_bits (got @ bs)" "vpi_nb_bits (got @ bs) \<le> 4096"
  shows "\<exists>v' t tdo. jtag_vpi_tick E (mpsse_driver E) v s = Inr (v', t) \<and> vpi_holds v' [] \<and> attached taken queue t \<and>
     client_fd t = client_fd s \<and>
     mpsse_wire t = mpsse_wire s @ scan_cycles (vpi_buffer_out (got @ bs)) (vpi_nb_bits (got @ bs)) flip True \<and>
     length tdo = 512 \<and> net_out t = net_out s @ write_at (got @ bs) VPI_IN tdo \<and>
     bits_of tdo (vpi_nb_bits (got @ bs)) = tdo_bits f (history (mpsse_wire s))
       (tap_view (state s) (scan_cycles (vpi_buffer_out (got @ bs)) (vpi_nb_bits (got @ bs)) flip True))"
proof -
  note live = target_live_parts [OF assms(1)] and rest = attached_rest [OF assms(1)]
  from jtag_driver.vpi_scan_shown [OF chip_is_driver live(1-3) refl assms(2) [unfolded rest] assms(3-10)]
  show ?thesis unfolding rest .
qed

lemma echo_bits: "tl (tdo_bits echo_target h v) = map (\<lambda>x. snd x = Some True) (butlast v)"
proof (rule nth_equalityI)
  fix i assume "i < length (tl (tdo_bits echo_target h v))"
  then have "Suc i < length v" "i < length v" by simp_all
  then show "tl (tdo_bits echo_target h v) ! i = map (\<lambda>x. snd x = Some True) (butlast v) ! i"
    by (simp add: nth_tl echo_target_def take_Suc_conv_app_nth nth_butlast)
qed simp

theorem vpi_scan_target_witness:
  "\<exists>(s :: (byte list \<times> byte list) mpsse_state) v' t tdo.
     jtag_vpi_tick (target_ext echo_target sample_vpi) (mpsse_driver (target_ext echo_target sample_vpi)) vpi_start s = Inr (v', t) \<and>
     net_out t = write_at sample_vpi VPI_IN tdo \<and> length tdo = 512 \<and>
     bits_of tdo 9 = [False, True, False, True, False, False, True, False, True]"
proof -
  let ?E = "target_ext echo_target sample_vpi" and ?bits = "[0xA5, 0x01] @ replicate 510 (0 :: byte)"
  from start_reach_dr obtain s :: "(byte list \<times> byte list) mpsse_state" where
    s: "attached fst snd s" "state s = ShiftDR" "client_fd s = 4" "net_out s = []"
      "history (mpsse_wire s) = map (\<lambda>b. (b, None)) [False, True, False, False]" by blast
  have sh: "shifting (state s)" and fd: "0 \<le> client_fd s" using s(2,3) by (simp_all add: shifting_def)
  have read: "call_read ?E (VPI_SIZE - length []) s = (Some sample_vpi, s)"
    using sample_vpi_fields(1) by (simp add: target_ext_read)
  from vpi_scan_target [OF target_ext_live s(1) sh fd vpi_start_holds read, of True] sample_vpi_fields s(4)
  obtain v' t tdo where t: "jtag_vpi_tick ?E (mpsse_driver ?E) vpi_start s = Inr (v', t)"
    "net_out t = write_at sample_vpi VPI_IN tdo" "length tdo = 512"
    "bits_of tdo 9 = tdo_bits echo_target (history (mpsse_wire s)) (tap_view (state s) (scan_cycles ?bits 9 True True))" by auto
  have "tdo_bits echo_target (map (\<lambda>b. (b, None)) [False, True, False, False]) (scan_view ?bits 9 True) =
      [False, True, False, True, False, False, True, False, True]" by code_simp
  then have "bits_of tdo 9 = [False, True, False, True, False, False, True, False, True]"
    unfolding t(4) tap_view_scan [OF sh] s(5) .
  with t(1-3) show ?thesis by blast
qed

text \<open>
  C12: access to the instruction register end to end, on the MPSSE driver with any target \<open>f\<close> behind
  the chip, when USB and the connection to the client work and no answer is waiting to be sent. A
  message too short for an instruction is an access out of bounds. From Test-Logic-Reset,
  Run-Test/Idle and Shift-IR, the states from which the table leads to Shift-IR, the TAP is taken there, exactly ten bits of the instruction are shifted, least significant first and TMS
  raised with the last, the TAP is left in Exit1-IR, and the client gets one response with a number
  whose ten low bits are the TDO levels the target shows in these ten cycles. From any other state
  the access fails the assertion of the table.
\<close>

theorem jtagd_access_ir_target:
  assumes "target_live E f taken queue" "attached taken queue s" "jtagd_idle j" "command m = 0xC6"
  shows "case body_word m 12 of
      Inl e \<Rightarrow> jtagd_dispatch E (mpsse_driver E) m j s = Inl e
    | Inr instruction \<Rightarrow>
        if state s \<in> {TestLogicReset, RunTestIdle, ShiftIR}
        then \<exists>x k t path. jtagd_dispatch E (mpsse_driver E) m j s = Inr (True, k, t) \<and>
          net_out t = net_out s @ jtagd_frame 0 (response 0 (be32_bytes x)) \<and>
          mpsse_wire t = mpsse_wire s @ path @ scan_cycles (le32_bytes instruction) 10 True True \<and>
          run_tap (state s) (tms_bits path) = ShiftIR \<and> state t = Exit1IR \<and> attached taken queue t \<and> jtagd_idle k \<and>
          map (bit x) [0..<10] = tdo_bits f (history (mpsse_wire s @ path))
            (tap_view ShiftIR (scan_cycles (le32_bytes instruction) 10 True True))
        else jtagd_dispatch E (mpsse_driver E) m j s = Inl AssertionFailed"
proof (cases "body_word m 12")
  case (Inl e)
  with access_ir_faults(1) [OF assms(4) Inl, of E "mpsse_driver E" j s] show ?thesis by simp
next
  case (Inr instruction)
  show ?thesis
  proof (cases "state s \<in> {TestLogicReset, RunTestIdle, ShiftIR}")
    case True
    note live = target_live_parts [OF assms(1)] and rest = attached_rest [OF assms(1)]
    from ways_to_shift_ir(1) [OF True] obtain p where "jtag_get_tms_seq (state s) ShiftIR = Inr p" ..
    from jtag_driver.access_ir_shown [OF chip_is_driver live(1-3) refl assms(2) [unfolded rest] assms(3,4) this Inr]
    show ?thesis unfolding rest Inr sum.case if_P [OF True] .
  next
    case False
    from access_ir_faults(2) [OF assms(4) Inr ways_to_shift_ir(2) [OF False]] show ?thesis
      unfolding Inr sum.case if_not_P [OF False] .
  qed
qed

theorem jtagd_access_ir_target_witness:
  "\<exists>x k t. jtagd_dispatch (target_ext echo_target []) (mpsse_driver (target_ext echo_target []))
       (sample_ir [0, 0, 0, 6]) jtagd_running target_start = Inr (True, k, t) \<and>
     net_out t = jtagd_frame 0 (response 0 (be32_bytes x)) \<and>
     map (bit x) [1..<10] = [False, True, True, False, False, False, False, False, False]"
proof -
  have st: "state target_start \<in> {TestLogicReset, RunTestIdle, ShiftIR}" by simp
  from jtagd_access_ir_target [OF target_ext_live [of echo_target "[]"] attached_start jtagd_running_idle sample_ir_body(2) [of "[0, 0, 0, 6]"],
    unfolded sample_ir_body(1) sum.case if_P [OF st]]
  obtain x k t h where t: "jtagd_dispatch (target_ext echo_target []) (mpsse_driver (target_ext echo_target []))
       (sample_ir [0, 0, 0, 6]) jtagd_running target_start = Inr (True, k, t)"
    "net_out t = net_out target_start @ jtagd_frame 0 (response 0 (be32_bytes x))"
    "map (bit x) [0..<10] = tdo_bits echo_target h (tap_view ShiftIR (scan_cycles (le32_bytes 6) 10 True True))"
    by (elim exE conjE) blast
  have sh: "shifting ShiftIR" by (simp add: shifting_def)
  have "map (\<lambda>x. snd x = Some True) (butlast (scan_view (le32_bytes 6) 10 True)) =
      [False, True, True, False, False, False, False, False, False]" by code_simp
  with arg_cong [OF t(3), of tl] have "map (bit x) [1..<10] = [False, True, True, False, False, False, False, False, False]"
    unfolding tap_view_scan [OF sh] echo_bits by (simp add: map_tl [symmetric])
  with t(1,2) show ?thesis by (intro exI [of _ x] exI [of _ k] exI [of _ t]) simp
qed

text \<open>
  C11: access to the data register end to end, on the MPSSE driver with any target \<open>f\<close> behind the chip, when
  USB and the connection to the client work and no answer is waiting to be sent: for 1 to 32704
  (\<open>SCAN_LIMIT\<close>) bits to shift, at most 4096 bytes of them from the fifo, and at most 2024 bits to read
  (more would wrap the fill level around). As long as the fifo has too few elements the message waits and nothing
  happens. Then, from Test-Logic-Reset, Run-Test/Idle, Exit1-IR and Shift-DR, the TAP is taken to Shift-DR,
  \<open>length_dr\<close> bits are shifted, and the client gets an empty response and then, when it asked for data, one
  packet on channel 4 with \<open>read_length\<close> bits rounded up to bytes, in which the bits that were shifted are
  the TDO levels the target shows in these cycles. What is shifted out are the
  first \<open>write_length / 8\<close> bytes of the memory of the fifo, whose elements take four bytes each, while
  as many elements are removed. From any other state the access fails the assertion of the table.
\<close>

theorem jtagd_access_dr_target:
  assumes "target_live E f taken queue" "attached taken queue s" "jtagd_idle j" "command m = 0xC8"
    and "body_word m 12 = Inr length_dr" "body_word m 20 = Inr write_length" "body_word m 28 = Inr read_length"
    and "unat write_length div 8 \<le> BUFFER_SIZE"
    and "0 < length_dr" "unat length_dr \<le> SCAN_LIMIT" "unat read_length \<le> 2024"
  shows "if length (fifos j FIFO_MIN) < unat write_length div 8
    then jtagd_dispatch E (mpsse_driver E) m j s = Inr (False, j, s)
    else if state s \<in> {TestLogicReset, RunTestIdle, Exit1IR, ShiftDR}
    then \<exists>data k t path. jtagd_dispatch E (mpsse_driver E) m j s = Inr (True, k, t) \<and>
      net_out t = net_out s @ dr_reply data \<and> length data = (unat read_length + 7) div 8 \<and>
      mpsse_wire t = mpsse_wire s @ path @
        scan_cycles (dr_data j (unat write_length div 8)) (unat length_dr) True True \<and>
      run_tap (state s) (tms_bits path) = ShiftDR \<and> state t = Exit1DR \<and> attached taken queue t \<and> jtagd_idle k \<and>
      fifos k FIFO_MIN = drop (unat write_length div 8) (fifos j FIFO_MIN) \<and>
      shows_tdo f (history (mpsse_wire s @ path))
        (tap_view ShiftDR (scan_cycles (dr_data j (unat write_length div 8)) (unat length_dr) True True))
        data (unat length_dr)
    else jtagd_dispatch E (mpsse_driver E) m j s = Inl AssertionFailed"
proof (cases "length (fifos j FIFO_MIN) < unat write_length div 8")
  case True
  from access_dr_waits [OF assms(4-7) True] show ?thesis unfolding if_P [OF True] .
next
  case few: False
  then have fifo: "unat write_length div 8 \<le> length (fifos j FIFO_MIN)" by simp
  show ?thesis
  proof (cases "state s \<in> {TestLogicReset, RunTestIdle, Exit1IR, ShiftDR}")
    case True
    note live = target_live_parts [OF assms(1)] and rest = attached_rest [OF assms(1)]
    from ways_to_shift_dr(1) [OF True] obtain p where "jtag_get_tms_seq (state s) ShiftDR = Inr p" ..
    from jtag_driver.access_dr_shown [OF chip_is_driver live(1-3) refl assms(2) [unfolded rest] assms(3,4) this assms(5-7) fifo assms(8-11)]
    show ?thesis unfolding rest if_not_P [OF few] if_P [OF True] .
  next
    case False
    from access_dr_stuck [OF assms(4-7) fifo assms(8) ways_to_shift_dr(2) [OF False]] show ?thesis
      unfolding if_not_P [OF few] if_not_P [OF False] .
  qed
qed

theorem jtagd_access_dr_target_witness:
  "\<exists>data k t. jtagd_dispatch (target_ext echo_target []) (mpsse_driver (target_ext echo_target []))
       sample_dr jtagd_running target_start = Inr (True, k, t) \<and>
     net_out t = dr_reply data \<and> length data = 2 \<and> fifos k FIFO_MIN = [6] \<and>
     map (bit_at data) [1..<9] = [False, True, True, False, False, False, False, False]"
proof -
  have m: "command sample_dr = 0xC8" "body_word sample_dr 12 = Inr 9" "body_word sample_dr 20 = Inr 16" "body_word sample_dr 28 = Inr 9"
    by code_simp+
  have fifo: "fifos jtagd_running FIFO_MIN = [6, 6, 6]" by (simp add: jtagd_running_def)
  have b: "unat (16 :: 32 word) div 8 \<le> BUFFER_SIZE" "(0 :: 32 word) < 9" "unat (9 :: 32 word) \<le> SCAN_LIMIT"
    "unat (9 :: 32 word) \<le> 2024" by (simp_all add: BUFFER_SIZE_def SCAN_LIMIT_def)
  have few: "\<not> length (fifos jtagd_running FIFO_MIN) < unat (16 :: 32 word) div 8" unfolding fifo by simp
  have st: "state target_start \<in> {TestLogicReset, RunTestIdle, Exit1IR, ShiftDR}" by simp
  from jtagd_access_dr_target [OF target_ext_live [of echo_target "[]"] attached_start jtagd_running_idle m b,
    unfolded if_not_P [OF few] if_P [OF st]]
  obtain data k t h where t: "jtagd_dispatch (target_ext echo_target []) (mpsse_driver (target_ext echo_target []))
       sample_dr jtagd_running target_start = Inr (True, k, t)"
    "net_out t = net_out target_start @ dr_reply data" "length data = (unat (9 :: 32 word) + 7) div 8"
    "fifos k FIFO_MIN = drop (unat (16 :: 32 word) div 8) (fifos jtagd_running FIFO_MIN)"
    "shows_tdo echo_target h (tap_view ShiftDR (scan_cycles (dr_data jtagd_running (unat (16 :: 32 word) div 8)) (unat (9 :: 32 word)) True True))
       data (unat (9 :: 32 word))"
    by (elim exE conjE) blast
  have sh: "shifting ShiftDR" by (simp add: shifting_def)
  let ?v = "scan_view (dr_data jtagd_running 2) 9 True"
  have two: "length data = 2" using t(3) by simp
  have "shows_tdo echo_target h ?v data 9" using t(5) by (simp add: tap_view_scan [OF sh])
  then have "map (bit_at data) [0..<9] = tdo_bits echo_target h ?v"
    using two by (intro nth_equalityI) (simp_all add: shows_tdo_def scan_view_def)
  from arg_cong [OF this, of tl] have "map (bit_at data) [1..<9] = map (\<lambda>x. snd x = Some True) (butlast ?v)"
    unfolding echo_bits by (simp add: map_tl [symmetric])
  also have "dr_data jtagd_running 2 = 6 # 0 # replicate 4094 0"
    by (simp add: dr_data_def jtagd_running_def le32_bytes_def write_at_def BUFFER_SIZE_def)
  also have "map (\<lambda>x. snd x = Some True) (butlast (scan_view (6 # 0 # replicate 4094 0) 9 True)) =
      [False, True, True, False, False, False, False, False]" by code_simp
  finally show ?thesis using t(1,2,4) two fifo by (intro exI [of _ data] exI [of _ k] exI [of _ t]) simp
qed

text \<open>
  C21: \<open>jtag_probe_devices\<close> end to end, on the MPSSE driver with a chain of IEEE 1149.1 devices behind the
  chip, whatever has happened on the adapter before and whatever the devices do for instructions
  other than bypass. When the instruction registers together fit the 128 ones that are shifted,
  the probe returns exactly the identification codes of the devices, in the order of the chain,
  if there are at most seven, and reports an empty chain if there are \<open>MAX_TAPS\<close> or more. It
  leaves the client side alone and ends in Test-Logic-Reset, or in Exit1-DR when it reports nothing.
\<close>

theorem probe_finds_chain:
  assumes "target_live E (chain_tdo ds) taken queue" "attached taken queue s"
    and "length (concat (map ir_pattern ds)) \<le> MAX_TAPS * MAX_IR"
  shows "\<exists>t. jtag_probe_devices E (mpsse_driver E) s = Inr (if length ds < MAX_TAPS then map idcode ds else [], t) \<and>
     attached taken queue t \<and> same_host s t \<and>
     state t = (if ds = [] \<or> MAX_TAPS \<le> length ds then Exit1DR else TestLogicReset)"
proof -
  note live = target_live_parts [OF assms(1)] and rest = attached_rest [OF assms(1)]
  from jtag_driver.probe_shown [OF chip_is_driver live(1) assms(2) [unfolded rest] refl assms(3)]
  show ?thesis unfolding rest .
qed

text \<open>Two devices: an instruction register of four bits, then one of ten.\<close>

definition sample_chain :: "device list" where
  "sample_chain =
     [\<lparr>ir_pattern = [True, False, False, False], idcode = 0x4BA00477, register = \<lambda>i. [True]\<rparr>,
      \<lparr>ir_pattern = True # replicate 9 False, idcode = 0x020F30DD, register = \<lambda>i. i\<rparr>]"

theorem probe_finds_chain_witness:
  "\<exists>t. jtag_probe_devices (target_ext (chain_tdo sample_chain) []) (mpsse_driver (target_ext (chain_tdo sample_chain) []))
     target_start = Inr ([0x4BA00477, 0x020F30DD], t) \<and> state t = TestLogicReset"
proof -
  have "length (concat (map ir_pattern sample_chain)) \<le> MAX_TAPS * MAX_IR"
    by (simp add: sample_chain_def MAX_TAPS_def MAX_IR_def)
  from probe_finds_chain [OF target_ext_live [of "chain_tdo sample_chain" "[]"] attached_start this]
  show ?thesis by (auto simp: sample_chain_def MAX_TAPS_def)
qed

text \<open>
  C10: \<open>READ_CHAIN\<close> of the jtagd server end to end, on the MPSSE driver with a chain of IEEE 1149.1 devices
  behind the chip whose instruction registers have at most 128 bits together, when USB and the connection to
  the client work and no answer is waiting to be sent. The client is sent exactly two packets: on channel 0 a
  response with the tag, the number of devices listed and the size of the second packet, and on channel 4 one
  record of 28 bytes per device listed with its identification code, in the order of the chain. Listed are
  all the devices of a chain of at most seven, and none of a chain of \<open>MAX_TAPS\<close> (eight) or more,
  which is answered like an empty one. The server keeps what it has told.
\<close>

theorem jtagd_read_chain_target:
  assumes "target_live E (chain_tdo ds) taken queue" "attached taken queue s"
    and "length (concat (map ir_pattern ds)) \<le> MAX_TAPS * MAX_IR" "jtagd_idle j" "command m = 0xA5"
  shows "\<exists>k t. jtagd_dispatch E (mpsse_driver E) m j s = Inr (True, k, t) \<and>
     net_out t = net_out s @ chain_reply (if length ds < MAX_TAPS then map idcode ds else []) \<and>
     devices k = (if length ds < MAX_TAPS then map idcode ds else []) \<and> jtagd_idle k \<and> attached taken queue t"
proof -
  note live = target_live_parts [OF assms(1)] and rest = attached_rest [OF assms(1)]
  from jtag_driver.read_chain_shown [OF chip_is_driver live(1-3) assms(2) [unfolded rest] refl assms(3-5)]
  show ?thesis unfolding rest .
qed

theorem jtagd_read_chain_target_witness:
  "\<exists>k t. jtagd_dispatch (target_ext (chain_tdo sample_chain) []) (mpsse_driver (target_ext (chain_tdo sample_chain) []))
       sample_chain_key jtagd_running target_start = Inr (True, k, t) \<and>
     net_out t = chain_reply [0x4BA00477, 0x020F30DD] \<and> devices k = [0x4BA00477, 0x020F30DD]"
proof -
  have "length (concat (map ir_pattern sample_chain)) \<le> MAX_TAPS * MAX_IR"
    by (simp add: sample_chain_def MAX_TAPS_def MAX_IR_def)
  moreover have "command sample_chain_key = 0xA5" by (simp add: sample_chain_key_def)
  ultimately show ?thesis
    using jtagd_read_chain_target [OF target_ext_live [of "chain_tdo sample_chain" "[]"] attached_start _ jtagd_running_idle]
    by (fastforce simp: sample_chain_def MAX_TAPS_def)
qed

end
