(* ===== verification/Blaster_Target.thy ===== *)
theory Blaster_Target
  imports Usb_Blaster_Adapter Chip
begin

text \<open>
  The USB Blaster driver with an adapter and a JTAG target at the other end of the USB cable. The
  adapter executes the commands of the bytes it has taken and queues the TDO levels of the
  target: a byte for each pin command with bit 6 set, whose bit 0 is the level, and a bit for
  each cycle of a capturing byte-shift packet. \<open>blaster_chip\<close> states this of the environment, and the
  driver is shown to keep the contract of a driver with this target.
\<close>

section \<open>What the adapter has executed\<close>

text \<open>The complete commands at the front of a byte stream; an incomplete one waits for its rest.\<close>

function performed :: "byte list \<Rightarrow> blaster_cmd list" where
  "performed bs = (case parse_blaster bs of None \<Rightarrow> [] | Some (c, r) \<Rightarrow> c # performed r)"
  by pat_completeness auto
termination
  by (relation "measure length") (auto dest: parse_blaster_length)

declare performed.simps [simp del]

lemma performed_append: "\<exists>ds. performed (xs @ ys) = performed xs @ ds"
proof (induction xs rule: performed.induct)
  case (1 xs)
  show ?case
  proof (cases "parse_blaster xs")
    case None
    then show ?thesis by (simp add: performed.simps [of xs])
  next
    case (Some p)
    obtain c r where p: "p = (c, r)" by fastforce
    with Some have c: "parse_blaster xs = Some (c, r)" by simp
    from "1.IH" [OF c refl] obtain ds where "performed (r @ ys) = performed r @ ds" by blast
    with c parse_blaster_append [OF c, of ys] show ?thesis
      by (simp add: performed.simps [of xs] performed.simps [of "xs @ ys"])
  qed
qed

lemma performed_decode: "blaster_decode bs = Some cs \<Longrightarrow> performed bs = cs"
proof (induction bs arbitrary: cs rule: blaster_decode.induct)
  case (1 bs)
  show ?case
  proof (cases "bs = []")
    case True
    with "1.prems" show ?thesis by (simp add: performed.simps [of "[]"])
  next
    case False
    with "1.prems" obtain c r cs' where
      p: "parse_blaster bs = Some (c, r)" "blaster_decode r = Some cs'" "cs = c # cs'"
      by (auto simp: blaster_decode.simps [of bs] split: option.splits)
    with "1.IH" [OF False p(1) refl p(2)] show ?thesis by (simp add: performed.simps [of bs])
  qed
qed

text \<open>The commands completed by the bytes \<open>v\<close> after \<open>u\<close>.\<close>

definition completed :: "byte list \<Rightarrow> byte list \<Rightarrow> blaster_cmd list" where
  "completed u v = drop (length (performed u)) (performed (u @ v))"

lemma performed_completed: "performed (u @ v) = performed u @ completed u v"
  using performed_append [of u v] by (auto simp: completed_def)

lemma completed_append: "completed u (v @ w) = completed u v @ completed (u @ v) w"
  using performed_completed [of u "v @ w"] performed_completed [of "u @ v" w] performed_completed [of u v] by simp

lemma completed_Nil [simp]: "completed u [] = []"
  by (simp add: completed_def)

section \<open>What it answers\<close>

text \<open>\<open>tells f w l cs r\<close>: the answer to the commands \<open>cs\<close> after the cycles \<open>w\<close> and with the pins at \<open>l\<close>.\<close>

fun tells_cmd :: "target \<Rightarrow> cycle list \<Rightarrow> bool \<times> bool \<Rightarrow> blaster_cmd \<Rightarrow> byte list \<Rightarrow> bool" where
  "tells_cmd f w l (Pins c) r \<longleftrightarrow> length r = reply_len (Pins c) \<and> (bit c 6 \<longrightarrow> bit (hd r) 0 = f (history w))"
| "tells_cmd f w l (Shift ds rd) r \<longleftrightarrow> length r = reply_len (Shift ds rd) \<and>
     (rd \<longrightarrow> bits_of r (8 * length ds) = shown_in f w (pin_cycles l (Shift ds rd)))"

fun tells :: "target \<Rightarrow> cycle list \<Rightarrow> bool \<times> bool \<Rightarrow> blaster_cmd list \<Rightarrow> byte list \<Rightarrow> bool" where
  "tells f w l [] r \<longleftrightarrow> r = []"
| "tells f w l (c # cs) r \<longleftrightarrow> tells_cmd f w l c (take (reply_len c) r) \<and>
     tells f (w @ pin_cycles l c) (pin_level l c) cs (drop (reply_len c) r)"

lemma tells_cmd_length: "tells_cmd f w l c r \<Longrightarrow> length r = reply_len c"
  by (cases c) simp_all

lemma tells_ConsD:
  assumes "tells f w l (c # cs) r"
  shows "\<exists>r1 r2. r = r1 @ r2 \<and> length r1 = reply_len c \<and> tells_cmd f w l c r1 \<and>
     tells f (w @ pin_cycles l c) (pin_level l c) cs r2"
  using assms tells_cmd_length [of f w l c "take (reply_len c) r"]
  by (intro exI [of _ "take (reply_len c) r"] exI [of _ "drop (reply_len c) r"]) simp

lemma tells_ConsI:
  "tells_cmd f w l c r1 \<Longrightarrow> tells f (w @ pin_cycles l c) (pin_level l c) cs r2 \<Longrightarrow> tells f w l (c # cs) (r1 @ r2)"
  by (simp add: tells_cmd_length)

lemma tells_length: "tells f w l cs r \<Longrightarrow> length r = reply_count cs"
proof (induction cs arbitrary: w l r)
  case Nil
  then show ?case by simp
next
  case (Cons c cs)
  from tells_ConsD [OF Cons.prems] obtain r1 r2 where
    r: "r = r1 @ r2" "length r1 = reply_len c" "tells f (w @ pin_cycles l c) (pin_level l c) cs r2" by blast
  from Cons.IH [OF r(3)] r(1,2) show ?case by simp
qed

lemma tells_append:
  "tells f w l xs r \<Longrightarrow> tells f (w @ run_blaster l xs) (pins_after l xs) ys q \<Longrightarrow> tells f w l (xs @ ys) (r @ q)"
proof (induction xs arbitrary: w l r)
  case Nil
  then show ?case by simp
next
  case (Cons c xs)
  from tells_ConsD [OF Cons.prems(1)] obtain r1 r2 where
    r: "r = r1 @ r2" "tells_cmd f w l c r1" "tells f (w @ pin_cycles l c) (pin_level l c) xs r2" by blast
  from Cons.IH [OF r(3)] Cons.prems(2) have
    "tells f (w @ pin_cycles l c) (pin_level l c) (xs @ ys) (r2 @ q)" by simp
  from tells_ConsI [OF r(2) this] show ?case unfolding r(1) by (simp only: append_assoc append_Cons)
qed

lemma tells_split:
  "tells f w l (xs @ ys) r \<Longrightarrow> \<exists>r1 r2. r = r1 @ r2 \<and> tells f w l xs r1 \<and>
     tells f (w @ run_blaster l xs) (pins_after l xs) ys r2"
proof (induction xs arbitrary: w l r)
  case Nil
  then show ?case by simp
next
  case (Cons c xs)
  from tells_ConsD [OF Cons.prems [unfolded append_Cons]] obtain r0 rr where
    r: "r = r0 @ rr" "tells_cmd f w l c r0" "tells f (w @ pin_cycles l c) (pin_level l c) (xs @ ys) rr" by blast
  from Cons.IH [OF r(3)] obtain r1 r2 where
    r': "rr = r1 @ r2" "tells f (w @ pin_cycles l c) (pin_level l c) xs r1"
      "tells f ((w @ pin_cycles l c) @ run_blaster (pin_level l c) xs) (pins_after (pin_level l c) xs) ys r2" by blast
  have "tells f w l (c # xs) (r0 @ r1)" by (rule tells_ConsI [OF r(2) r'(2)])
  with r(1) r'(1,3) show ?case
    by (intro exI [of _ "r0 @ r1"] exI [of _ r2]) (simp only: append_assoc run_blaster.simps pins_after_simps simp_thms)
qed

section \<open>The environment\<close>

text \<open>
  \<open>taken\<close> are the bytes the adapter has taken, \<open>queue\<close> those it has queued and the host not yet
  read. \<open>replies f u v r\<close>: the answer to what the bytes \<open>v\<close> complete after \<open>u\<close>.
\<close>

definition replies :: "target \<Rightarrow> byte list \<Rightarrow> byte list \<Rightarrow> byte list \<Rightarrow> bool" where
  "replies f u v r \<longleftrightarrow> tells f (run_blaster (False, False) (performed u)) (pins_after (False, False) (performed u)) (completed u v) r"

lemma replies_append: "replies f u v r \<Longrightarrow> replies f (u @ v) w q \<Longrightarrow> replies f u (v @ w) (r @ q)"
  unfolding replies_def completed_append performed_completed [of u v] run_blaster_append pins_after_simps
  by (rule tells_append)

definition blaster_chip :: "'w ext \<Rightarrow> target \<Rightarrow> ('w \<Rightarrow> byte list) \<Rightarrow> ('w \<Rightarrow> byte list) \<Rightarrow> bool" where
  "blaster_chip E f taken queue \<longleftrightarrow> ftdi_fifo E queue \<and>
     (\<forall>n w. taken (snd (ftdi_read_data E n w)) = taken w) \<and>
     (\<forall>data w r w'. ftdi_write_data E data w = (r, w') \<longrightarrow>
        taken w' = taken w @ accepted r data \<and>
        (\<exists>reply. queue w' = queue w @ reply \<and> replies f (taken w) (accepted r data) reply))"

lemma usb_writes_replies:
  assumes "blaster_chip E f taken queue"
  shows "usb_writes E u w v x \<Longrightarrow> taken w = u \<Longrightarrow>
     taken x = v \<and> (\<exists>bs reply. v = u @ bs \<and> queue x = queue w @ reply \<and> replies f u bs reply)"
proof (induction rule: usb_writes.induct)
  case (usb_done u w)
  then show ?case by (simp add: replies_def)
next
  case (usb_write data w r w1 u v w2)
  from assms usb_write.hyps(1) usb_write.prems obtain r1 where
    w1: "taken w1 = u @ accepted r data" "queue w1 = queue w @ r1" "replies f u (accepted r data) r1"
    unfolding blaster_chip_def by metis
  from usb_write.IH [OF w1(1)] obtain bs r2 where
    "taken w2 = v" "v = (u @ accepted r data) @ bs" "queue w2 = queue w1 @ r2" "replies f (u @ accepted r data) bs r2" by blast
  with w1 replies_append [OF w1(3)] show ?case
    by (intro conjI exI [of _ "accepted r data @ bs"] exI [of _ "r1 @ r2"]) simp_all
qed

text \<open>Reading a reply that is in the queue gets all of it.\<close>

lemma read_loop_queued:
  assumes "blaster_chip E f taken queue"
  shows "queue (world s) = xs \<Longrightarrow> length got + length xs = len \<Longrightarrow> length xs \<le> retry \<Longrightarrow>
     \<exists>t. ftdi_read_loop E retry len got s = (True, got @ xs, t) \<and> queue (world t) = [] \<and> taken (world t) = taken (world s)"
proof (induction retry arbitrary: got s xs)
  case 0
  then show ?case by simp
next
  case (Suc retry)
  have fifo: "ftdi_fifo E queue" using assms by (simp add: blaster_chip_def)
  show ?case
  proof (cases "xs = []")
    case True
    with Suc.prems show ?thesis by simp
  next
    case False
    with Suc.prems have n: "len - length got = length xs" "0 < len - length got" by auto
    from call_ftdi_read_fifo [OF fifo _ n, of s "[]"] Suc.prems(1) obtain bs ys w where
      r: "xs = bs @ ys" "bs \<noteq> []" "queue w = ys" "call_ftdi_read E (len - length got) s = (Some bs, s\<lparr>world := w\<rparr>)"
      by auto
    have "taken w = taken (world s)"
    proof -
      have "taken (snd (ftdi_read_data E (len - length got) (world s))) = taken (world s)"
        using assms unfolding blaster_chip_def by blast
      moreover have "world (snd (call_ftdi_read E (len - length got) s)) = snd (ftdi_read_data E (len - length got) (world s))"
        by (simp add: call_ftdi_read_def split: prod.split)
      ultimately show ?thesis using r(4) by simp
    qed
    moreover have "length ys \<le> retry" using r(1,2) Suc.prems(3) by (cases bs) auto
    moreover have "queue (world (s\<lparr>world := w\<rparr>)) = ys" "length (got @ bs) + length ys = len"
      using r(1,3) Suc.prems(2) by simp_all
    ultimately obtain t where
      "ftdi_read_loop E retry len (got @ bs) (s\<lparr>world := w\<rparr>) = (True, (got @ bs) @ ys, t)"
      "queue (world t) = []" "taken (world t) = taken (world s)" using Suc.IH [of "s\<lparr>world := w\<rparr>" ys "got @ bs"] by auto
    with r(1,4) n(2) show ?thesis by simp
  qed
qed

section \<open>The levels in a reply\<close>

lemma tells_shifts:
  "tells f w l (map (\<lambda>d. Shift d True) ds) r \<Longrightarrow>
     bits_of r (8 * length r) = shown_in f w (run_blaster l (map (\<lambda>d. Shift d True) ds))"
proof (induction ds arbitrary: w l r)
  case Nil
  then show ?case by (simp add: bits_of_def)
next
  case (Cons d ds)
  from tells_ConsD [OF Cons.prems [unfolded list.map]] obtain r1 r2 where
    r: "r = r1 @ r2" "length r1 = length d" "tells_cmd f w l (Shift d True) r1"
      "tells f (w @ pin_cycles l (Shift d True)) (pin_level l (Shift d True)) (map (\<lambda>d. Shift d True) ds) r2" by auto
  have "bits_of r (8 * length r) = bits_of r1 (8 * length r1) @ bits_of r2 (8 * length r2)"
    using bits_of_append [of r1 r2 "8 * length r2"] r(1) by (simp add: distrib_left)
  with r(2,3) Cons.IH [OF r(4)] show ?case by (simp add: shown_in_append)
qed

text \<open>Bits clocked one by one.\<close>

lemma tells_pair:
  assumes "tells f w l (pair_cmds tms tdi True) r"
  shows "\<exists>b. r = [b] \<and> bit b 0 = f (history w)"
proof -
  from assms have "length r = 1" "bit (hd r) 0 = f (history w)"
    by (cases l; simp add: pair_cmds_def bits_build_command')+
  then show ?thesis by (cases r) auto
qed

lemma tells_pairs:
  "tells f w l (concat (map (\<lambda>j. pair_cmds (g j) (h j) True) xs)) r \<Longrightarrow>
     map (\<lambda>b. bit b 0) r = shown_in f w (run_blaster l (concat (map (\<lambda>j. pair_cmds (g j) (h j) True) xs)))"
proof (induction xs arbitrary: w l r)
  case Nil
  then show ?case by simp
next
  case (Cons x xs)
  let ?c = "concat (map (\<lambda>j. pair_cmds (g j) (h j) True) xs)"
  from Cons.prems have "tells f w l (pair_cmds (g x) (h x) True @ ?c) r" by simp
  from tells_split [OF this] obtain r1 r2 where
    r: "r = r1 @ r2" "tells f w l (pair_cmds (g x) (h x) True) r1"
      "tells f (w @ run_blaster l (pair_cmds (g x) (h x) True)) (pins_after l (pair_cmds (g x) (h x) True)) ?c r2" by blast
  from tells_pair [OF r(2)] obtain b where "r1 = [b]" "bit b 0 = f (history w)" by blast
  with r(1) Cons.IH [OF r(3)] show ?case
    by (simp add: run_blaster_append shown_in_append [of f w "[_]", simplified])
qed

lemma tells_silent: "tells f w l cs r \<Longrightarrow> reply_count cs = 0 \<Longrightarrow> r = []"
  by (metis tells_length length_0_conv)

lemma tells_last:
  assumes "tells f w (False, t) (blaster_last_cmds data n flip True) r"
  shows "map (\<lambda>b. bit b 0) r = shown_in f w (run_blaster (False, t) (blaster_last_cmds data n flip True))"
proof (cases flip)
  case False
  with assms show ?thesis by (simp add: blaster_last_cmds_def)
next
  case True
  let ?fin = "[Pins (build_command True (bit_at data (n - 1)) False False)]"
  from assms True have "tells f w (False, t) (pair_cmds True (bit_at data (n - 1)) True @ ?fin) r"
    by (simp add: blaster_last_cmds_def)
  from tells_split [OF this] obtain r1 r2 x y where
    r: "r = r1 @ r2" "tells f w (False, t) (pair_cmds True (bit_at data (n - 1)) True) r1" "tells f x y ?fin r2" by blast
  from tells_pair [OF r(2)] obtain b where b: "r1 = [b]" "bit b 0 = f (history w)" by blast
  have "r2 = []" by (rule tells_silent [OF r(3)]) (simp add: bits_build_command)
  with b r(1) True show ?thesis by (simp add: blaster_last_cmds_def run_blaster_append bits_build_command')
qed

text \<open>The bits of a captured scan are the levels in its cycles.\<close>

lemma tells_scan:
  assumes "tells f w (False, t) (blaster_scan_cmds data n flip True) r" "0 < n" "n \<le> 8 * length data"
  shows "blaster_tdo r n flip = shown_in f w (scan_cycles data n flip True)"
proof -
  define b where "b = bulk_bits n flip"
  let ?A = "shift_cmds data (b div 8) True" and ?B = "blaster_rest_cmds data b True"
    and ?C = "blaster_last_cmds data n flip True"
  have cmds: "blaster_scan_cmds data n flip True = ?A @ ?B @ ?C" by (simp add: blaster_scan_cmds_def b_def Let_def)
  have L: "b div 8 \<le> length data" using bulk_bits_le [OF assms(2), of flip] assms(3) by (simp add: b_def)
  obtain t1 where p1: "pins_after (False, t) ?A = (False, t1)"
    using shift_cmds_cycles(2) [OF L, of t True] by (metis (full_types) prod.collapse)
  have "fst (pins_after (False, t1) ?B) = False"
    unfolding blaster_rest_cmds_def by (cases "8 * (b div 8) < b") (simp_all add: pairs_run)
  then obtain t2 where p2: "pins_after (False, t1) ?B = (False, t2)" by (metis (full_types) prod.collapse)
  let ?a = "run_blaster (False, t) ?A" and ?b = "run_blaster (False, t1) ?B" and ?c = "run_blaster (False, t2) ?C"
  have run: "scan_cycles data n flip True = ?a @ ?b @ ?c"
    using blaster_scan_run(1) [OF assms(2,3), of t flip True] unfolding cmds run_blaster_append p1 p2 by simp
  from tells_split [OF assms(1) [unfolded cmds]] obtain r1 q where
    q: "r = r1 @ q" "tells f w (False, t) ?A r1" "tells f (w @ ?a) (False, t1) (?B @ ?C) q" unfolding p1 by blast
  from tells_split [OF q(3)] obtain r2 r3 where
    r: "q = r2 @ r3" "tells f (w @ ?a) (False, t1) ?B r2" "tells f ((w @ ?a) @ ?b) (False, t2) ?C r3" unfolding p2 by blast
  have bits: "bits_of r1 (8 * length r1) = shown_in f w ?a"
    using tells_shifts [of f w "(False, t)" "map (\<lambda>j. take (min (b div 8 - 32 * j) 32) (drop (32 * j) data)) [0..<(b div 8 + 31) div 32]" r1]
      q(2) by (simp add: shift_cmds_def comp_def)
  have "map (\<lambda>b. bit b 0) (r2 @ r3) = shown_in f (w @ ?a) (?b @ ?c)"
    using tells_pairs [OF r(2) [unfolded blaster_rest_cmds_def]] tells_last [OF r(3)]
    by (simp add: shown_in_append blaster_rest_cmds_def)
  moreover have l1: "length r1 = b div 8"
  proof -
    have "8 * length r1 = length ?a" using arg_cong [OF bits, of length] by simp
    then show ?thesis using shift_cmds_cycles(1) [OF L, of t True] by simp
  qed
  moreover have "length (r2 @ r3) = b mod 8 + (if flip then 1 else 0)"
    using tells_length [OF r(2)] tells_length [OF r(3)]
    by (simp add: blaster_rest_cmds_def blaster_last_cmds_def bits_build_command minus_mult_div_eq_mod)
  moreover have "map (\<lambda>i. bit (r ! (b div 8 + i)) 0) [0..<length (r2 @ r3)] = map (\<lambda>b. bit b 0) (r2 @ r3)"
    using q(1) r(1) l1 by (intro nth_equalityI) (simp_all add: nth_append)
  moreover have "bits_of r (8 * (b div 8)) = bits_of r1 (8 * length r1)"
    using q(1) bits_of_append [of r1 q 0] l1 by (simp add: bits_of_def)
  ultimately show ?thesis
    unfolding run blaster_tdo_def Let_def b_def [symmetric] shown_in_append [of f w ?a] using bits by simp
qed

section \<open>The contract with a target\<close>

definition tells_since :: "target \<Rightarrow> ('w, 'z) blaster_state_scheme \<Rightarrow> blaster_cmd list \<Rightarrow> byte list
    \<Rightarrow> ('w, 'z) blaster_state_scheme \<Rightarrow> bool" where
  "tells_since f s cs got t \<longleftrightarrow> (\<exists>us. blaster_decode (usb_out s) = Some us \<and> blaster_decode (usb_out t) = Some (us @ cs) \<and>
     tells f (run_blaster (False, False) us) (pins_after (False, False) us) cs got)"

text \<open>Between the operations the adapter has taken everything, and its queue is empty.\<close>

definition blaster_ready :: "'w ext \<Rightarrow> target \<Rightarrow> ('w \<Rightarrow> byte list) \<Rightarrow> ('w \<Rightarrow> byte list)
    \<Rightarrow> ('w, 'z) blaster_state_scheme \<Rightarrow> bool" where
  "blaster_ready E f taken queue s \<longleftrightarrow> blaster_chip E f taken queue \<and> taken (world s) = usb_out s \<and>
     queue (world s) = [] \<and> blaster_decode (usb_out s) \<noteq> None"

lemma tells_since_trans:
  assumes "tells_since f s cs got t" "tells_since f t ds got2 u"
  shows "tells_since f s (cs @ ds) (got @ got2) u"
proof -
  from assms obtain us where
    "blaster_decode (usb_out s) = Some us" "tells f (run_blaster (False, False) us) (pins_after (False, False) us) cs got"
    "blaster_decode (usb_out u) = Some ((us @ cs) @ ds)"
    "tells f (run_blaster (False, False) us @ run_blaster (pins_after (False, False) us) cs)
       (pins_after (pins_after (False, False) us) cs) ds got2"
    unfolding tells_since_def by (auto simp: run_blaster_append)
  with tells_append show ?thesis unfolding tells_since_def by fastforce
qed

lemma blaster_ready_write:
  assumes "blaster_ready E f taken queue s" "blaster_decode bs = Some cs" "ftdi_write_retry E bs s = (True, t)"
  shows "taken (world t) = usb_out t \<and> (\<exists>us. blaster_decode (usb_out s) = Some us \<and> usb_out t = usb_out s @ bs \<and>
     blaster_decode (usb_out t) = Some (us @ cs) \<and>
     tells f (run_blaster (False, False) us) (pins_after (False, False) us) cs (queue (world t)))"
proof -
  from assms(1) obtain us where s: "blaster_chip E f taken queue" "taken (world s) = usb_out s" "queue (world s) = []"
    "blaster_decode (usb_out s) = Some us" by (auto simp: blaster_ready_def)
  from ftdi_write_retry_True [OF assms(3)] have out: "usb_out t = usb_out s @ bs" by auto
  have dec: "blaster_decode (usb_out t) = Some (us @ cs)" using out s(4) assms(2) by (simp add: blaster_decode_append_Some)
  from usb_writes_replies [OF s(1) write_retry_written [OF assms(3), unfolded written_def] s(2)] out s(3)
  have t: "taken (world t) = usb_out t" "replies f (usb_out s) bs (queue (world t))" by auto
  have "performed (usb_out s) = us" "completed (usb_out s) bs = cs"
    using performed_decode [OF s(4)] performed_decode [OF dec] out by (simp_all add: completed_def)
  with t s(4) out dec show ?thesis by (auto simp: replies_def)
qed

lemma blaster_ready_exchange:
  fixes s :: "('w, 'z) blaster_state_scheme"
  assumes s: "blaster_safe s" "blaster_ready E f taken queue s" "blaster_decode bs = Some cs"
    and n: "reply_count cs = (if rd then m else 0)" "rd \<longrightarrow> recv_buffer_len s + m \<le> RECV_SIZE \<and> m \<le> 100"
  shows "\<exists>ok t. blaster_exchange E bs rd m s = Inr (ok, t) \<and> blaster_safe t \<and> same_host s t \<and> state t = state s \<and>
        (usb_writes_accepted E \<longrightarrow> ok) \<and>
        (ok \<longrightarrow> blaster_ready E f taken queue t \<and> usb_out t = usb_out s @ bs \<and>
          (\<exists>got. length got = (if rd then m else 0) \<and> collected t = collected s @ got \<and> tells_since f s cs got t))"
proof -
  obtain ok1 s1 where w: "ftdi_write_retry E bs s = (ok1, s1)" by fastforce
  have live: "usb_writes_accepted E \<longrightarrow> ok1" using ftdi_write_retry_accepted [of E bs s] w by auto
  have room: "rd \<longrightarrow> recv_buffer_len s + m \<le> RECV_SIZE" using n(2) by simp
  show ?thesis
  proof (cases ok1)
    case False
    from exchange_read [of rd E m s1] obtain ok2 got s2 where
      r: "if rd then ftdi_read_retry E m s1 = (ok2, got, s2) else ok2 \<and> got = [] \<and> s2 = s1" by blast
    from exchange_write_read [OF s(1) room w r] False live show ?thesis by auto
  next
    case True
    have written: "ftdi_write_retry E bs s = (True, s1)" using w True by simp
    from blaster_ready_write [OF s(2,3) written] obtain us where
      s1: "taken (world s1) = usb_out s1" "blaster_decode (usb_out s) = Some us" "usb_out s1 = usb_out s @ bs"
        "blaster_decode (usb_out s1) = Some (us @ cs)"
        "tells f (run_blaster (False, False) us) (pins_after (False, False) us) cs (queue (world s1))" by blast
    have chip: "blaster_chip E f taken queue" using s(2) by (simp add: blaster_ready_def)
    have len: "length (queue (world s1)) = (if rd then m else 0)" using tells_length [OF s1(5)] n(1) by simp
    obtain s2 where r: "if rd then ftdi_read_retry E m s1 = (True, queue (world s1), s2) else True \<and> queue (world s1) = [] \<and> s2 = s1"
      and s2: "queue (world s2) = []" "taken (world s2) = taken (world s1)"
    proof (cases rd)
      case True
      with read_loop_queued [OF chip refl, where s = s1 and got = "[]" and len = m and retry = 100] len n(2) that show ?thesis
        by (auto simp: ftdi_read_retry_def)
    next
      case False
      with len that [of s1] show ?thesis by simp
    qed
    from exchange_write_read [OF s(1) room w r] True obtain t where
      t: "blaster_exchange E bs rd m s = Inr (True, t)" "blaster_safe t" "same_host s t" "state t = state s"
        "usb_out t = usb_out s @ bs" "world t = world s2" "collected t = collected s @ queue (world s1)" by auto
    have "blaster_ready E f taken queue t" "tells_since f s cs (queue (world s1)) t"
      using chip s1 s2 t(5,6) by (auto simp: blaster_ready_def tells_since_def)
    with t len show ?thesis by blast
  qed
qed

lemma tells_since_scan:
  assumes "blaster_inv s" "tms_low (blaster_wire s)" "0 < n" "n \<le> 8 * length data"
    and "tells_since f s (blaster_scan_cmds data n flip True) got t"
  shows "blaster_tdo got n flip = shown_in f (blaster_wire s) (scan_cycles data n flip True)"
proof -
  from assms(5) obtain us where us: "blaster_decode (usb_out s) = Some us"
    "tells f (run_blaster (False, False) us) (pins_after (False, False) us) (blaster_scan_cmds data n flip True) got"
    by (auto simp: tells_since_def)
  have w: "blaster_wire s = run_blaster (False, False) us" using us(1) by (simp add: blaster_wire_def blaster_cycles_def)
  have "faithful (False, False) us" using assms(1) us(1) by (simp add: blaster_inv_def)
  then have "fst (pins_after (False, False) us) = False" using assms(2) by (auto simp: faithful_def tms_low_def w)
  then obtain x where "pins_after (False, False) us = (False, x)" by (metis (full_types) prod.collapse)
  with us(2) w tells_scan [OF _ assms(3,4)] show ?thesis by simp
qed

interpretation wired_blaster: blaster_link E "blaster_ready E f taken queue" "usb_writes_accepted E" "tells_since f"
    "usb_port taken queue" "Some f"
  for E :: "'w ext" and f taken queue
proof (unfold_locales, goal_cases)
  case (1 s bs cs rd m)
  then show ?case by (rule blaster_ready_exchange)
next
  case (2 s)
  then show ?case by (auto simp: blaster_ready_def tells_since_def)
next
  case (3 s cs got t ds got2 u)
  then show ?case by (rule tells_since_trans)
next
  case (4 s x cs got t)
  show ?case by (simp add: tells_since_def)
next
  case (5 t s)
  then show ?case by (simp add: blaster_ready_def usb_port_def)
next
  case (6 g s n data flip got t)
  from 6(1) tells_since_scan [OF 6(2-6)] show ?case by (simp add: shown_in_def)
qed

text \<open>The driver as the servers use it.\<close>

definition blaster_wired :: "'w ext \<Rightarrow> target \<Rightarrow> ('w \<Rightarrow> byte list) \<Rightarrow> ('w \<Rightarrow> byte list)
    \<Rightarrow> ('w, 'z) blaster_state_scheme \<Rightarrow> bool" where
  "blaster_wired E f taken queue s \<longleftrightarrow> blaster_inv s \<and> blaster_ready E f taken queue s"

lemma wired_driver:
  "jtag_driver (usb_blaster_driver E) (blaster_wired E f taken queue) blaster_idle blaster_wire
     (usb_writes_accepted E) (usb_port taken queue) (Some f)"
  using wired_blaster.jtag_driver_axioms [of E f taken queue] by (simp add: blaster_wired_def [abs_def])

end
