(* ===== verification/Blaster_Servers.thy ===== *)
theory Blaster_Servers
  imports Target_Servers Blaster_Target
begin

text \<open>
  The servers on the USB Blaster driver with an adapter and a JTAG target behind it: the clients of the
  remote bitbang, jtag_vpi and jtagd servers and the probe are told the same as with the MPSSE
  driver. (The virtual cable server loses clock cycles on this driver.)
\<close>

section \<open>An adapter that can be run\<close>

fun told_cmd :: "target \<Rightarrow> cycle list \<Rightarrow> bool \<times> bool \<Rightarrow> blaster_cmd \<Rightarrow> byte list" where
  "told_cmd f w l (Pins c) = (if bit c 6 then [if f (history w) then 1 else 0] else [])"
| "told_cmd f w l (Shift ds rd) =
     (if rd then map (\<lambda>i. packed (take 8 (drop (8 * i) (shown_in f w (pin_cycles l (Shift ds rd)))))) [0..<length ds] else [])"

fun told :: "target \<Rightarrow> cycle list \<Rightarrow> bool \<times> bool \<Rightarrow> blaster_cmd list \<Rightarrow> byte list" where
  "told f w l [] = []"
| "told f w l (c # cs) = told_cmd f w l c @ told f (w @ pin_cycles l c) (pin_level l c) cs"

lemma told_cmd_tells: "tells_cmd f w l c (told_cmd f w l c)"
proof (cases c)
  case (Pins c)
  then show ?thesis by (cases l) simp
next
  case (Shift ds rd)
  let ?z = "shown_in f w (pin_cycles l (Shift ds rd))"
  let ?r = "map (\<lambda>i. packed (take 8 (drop (8 * i) ?z))) [0..<length ds]"
  have l: "length ?z = 8 * length ds" by (cases l) simp
  have "bits_of ?r (8 * length ds) = ?z"
  proof (rule nth_equalityI)
    fix i assume "i < length (bits_of ?r (8 * length ds))"
    then have i: "i < 8 * length ds" by simp
    have "bit_at ?r i = ?z ! i" using bit_packed_bytes [of i "length ds" ?z "[]"] i l by simp
    with i show "bits_of ?r (8 * length ds) ! i = ?z ! i" by simp
  qed (use l in simp)
  with Shift show ?thesis by (cases rd) simp_all
qed

lemma told_tells: "tells f w l cs (told f w l cs)"
proof (induction cs arbitrary: w l)
  case Nil
  then show ?case by simp
next
  case (Cons c cs)
  from tells_ConsI [OF told_cmd_tells Cons.IH] show ?case by simp
qed

definition blaster_target_ext :: "target \<Rightarrow> byte list \<Rightarrow> (byte list \<times> byte list) ext" where
  "blaster_target_ext f cmds = (target_ext f cmds)\<lparr>ftdi_write_data := \<lambda>bs (u, q). (Some (length bs),
     (u @ bs, q @ told f (run_blaster (False, False) (performed u)) (pins_after (False, False) (performed u)) (completed u bs)))\<rparr>"

text \<open>
  \<open>blaster_target_live\<close>: USB and the client connection work, the adapter answers for the target \<open>f\<close>,
  and the two sides of the world do not interfere. \<open>blaster_attached\<close>: between the operations of a
  server.
\<close>

definition blaster_target_live :: "'w ext \<Rightarrow> target \<Rightarrow> ('w \<Rightarrow> byte list) \<Rightarrow> ('w \<Rightarrow> byte list) \<Rightarrow> bool" where
  "blaster_target_live E f taken queue \<longleftrightarrow> blaster_chip E f taken queue \<and> usb_writes_accepted E \<and>
     sock_accepts E \<and> sockets_keep E (usb_port taken queue)"

definition blaster_attached :: "('w \<Rightarrow> byte list) \<Rightarrow> ('w \<Rightarrow> byte list) \<Rightarrow> ('w, 'z) blaster_state_scheme \<Rightarrow> bool" where
  "blaster_attached taken queue s \<longleftrightarrow> blaster_inv s \<and> recv_buffer_len s = 0 \<and> taken (world s) = usb_out s \<and>
     queue (world s) = [] \<and> tracks blaster_wire s"

lemma blaster_live_parts:
  assumes "blaster_target_live E f taken queue"
  shows "usb_writes_accepted E" "sock_accepts E" "sockets_keep E (usb_port taken queue)" "blaster_chip E f taken queue"
  using assms by (simp_all add: blaster_target_live_def)

lemma blaster_attached_rest:
  assumes "blaster_target_live E f taken queue"
  shows "blaster_attached taken queue s \<longleftrightarrow> at_rest (blaster_wired E f taken queue) blaster_idle blaster_wire s"
  using blaster_live_parts(4) [OF assms]
  by (auto simp: blaster_attached_def at_rest_def blaster_wired_def blaster_ready_def blaster_idle_def blaster_inv_def
      split: option.splits)

lemma blaster_target_ext_live [simp]: "blaster_target_live (blaster_target_ext f cmds) f fst snd"
  using told_tells
  by (auto simp: blaster_target_live_def blaster_chip_def replies_def ftdi_fifo_def blaster_target_ext_def target_ext_def
      accepted_def usb_writes_accepted_def sock_accepts_def sockets_keep_def)

text \<open>The process as it starts, with a client.\<close>

definition blaster_client :: "(byte list \<times> byte list) blaster_state" where
  "blaster_client = (blaster_start ([], []))\<lparr>client_fd := 4\<rparr>"

lemma blaster_client_fields [simp]:
  "state blaster_client = TestLogicReset" "client_fd blaster_client = 4" "net_out blaster_client = []"
  by (simp_all add: blaster_client_def blaster_start_def process_start_def common_state.defs)

lemma blaster_client_attached: "blaster_attached fst snd blaster_client" "blaster_wire blaster_client = []"
proof -
  let ?s = "blaster_start ([], []) :: (byte list \<times> byte list) blaster_state"
  have "usb_out blaster_client = []" "world blaster_client = ([], [])" "recv_buffer_len blaster_client = 0"
    "usb_out ?s = []" "common_state.more blaster_client = common_state.more ?s"
    by (simp_all add: blaster_client_def blaster_start_def process_start_def common_state.defs blaster_state.defs)
  with blaster_view [of blaster_client ?s] blaster_start_inv [of "([], []) :: byte list \<times> byte list"]
  show "blaster_attached fst snd blaster_client" "blaster_wire blaster_client = []"
    by (simp_all add: blaster_attached_def tracks_def)
qed

section \<open>Properties\<close>

text \<open>
  C8: the remote bitbang server end to end on the USB Blaster driver, with any target \<open>f\<close> behind the
  adapter, when USB and the connection to the client work. A tick that receives a chunk of commands
  either fails an assertion (exactly when the code's own checks on the chunk, \<open>rbb_chunk_ok\<close>, do) or
  makes the target's TAP controller see exactly the TMS and TDI values the client clocked and sends
  the client, in order, the TDO levels the target shows in the clock cycles \<open>ps\<close>: as many as the
  chunk has \<open>R\<close> commands, different ones that shift a bit, all the requested ones that shift a bit among
  them, and in a chunk in which every \<open>R\<close> precedes a cycle that shifts a bit, no two the same
  (\<open>rbb_ordinary\<close>), exactly the requested ones. So on either driver such a client is told the same.
\<close>

theorem rbb_tick_blaster_target:
  assumes "blaster_target_live E f taken queue" "blaster_attached taken queue s" "0 \<le> client_fd s"
    and "call_read E BUFFER_SIZE s = (Some cmds, s1)" "cmds \<noteq> []"
  shows "if rbb_chunk_ok E cmds (state s)
    then \<exists>t ps. jtag_rbb_tick E (usb_blaster_driver E) s = Inr t \<and> blaster_attached taken queue t \<and>
      history (blaster_wire t) = history (blaster_wire s) @ tap_view (state s) (rbb_cycles cmds) \<and>
      net_out t = net_out s @ map (\<lambda>p. if f (history (blaster_wire s) @ take p (tap_view (state s) (rbb_cycles cmds)))
        then 0x31 else 0x30) ps \<and>
      length ps = rbb_requests cmds \<and> sorted ps \<and> distinct ps \<and> list_all (rbb_shifts (state s) cmds) ps \<and>
      set (filter (rbb_shifts (state s) cmds) (rbb_asked 0 cmds)) \<subseteq> set ps \<and>
      (rbb_ordinary (state s) cmds \<longrightarrow> ps = rbb_asked 0 cmds)
    else jtag_rbb_tick E (usb_blaster_driver E) s = Inl AssertionFailed"
proof -
  note live = blaster_live_parts [OF assms(1)] and rest = blaster_attached_rest [OF assms(1)]
  from jtag_driver.rbb_tick_shown [OF wired_driver live(1) assms(2) [unfolded rest] live(2,3) refl assms(3-5)]
  show ?thesis unfolding rest rbb_digits_def rbb_answers_def .
qed

theorem rbb_tick_blaster_target_witness:
  "\<exists>t. jtag_rbb_tick (blaster_target_ext sample_target sample_rbb) (usb_blaster_driver (blaster_target_ext sample_target sample_rbb))
       blaster_client = Inr t \<and> net_out t = [0x31, 0x30] \<and> blaster_attached fst snd t"
proof -
  let ?E = "blaster_target_ext sample_target sample_rbb" and ?s = blaster_client
  have st: "0 \<le> client_fd ?s" by simp
  have c: "call_read ?E BUFFER_SIZE ?s = (Some sample_rbb, ?s)"
    by (simp add: call_read_def blaster_target_ext_def target_ext_def sample_rbb_def BUFFER_SIZE_def)
  have ne: "sample_rbb \<noteq> []" by (simp add: sample_rbb_def)
  from rbb_tick_blaster_target [OF blaster_target_ext_live blaster_client_attached(1) st c ne] sample_rbb_ok [of ?E]
    blaster_client_attached(2) obtain t ps where
    t: "jtag_rbb_tick ?E (usb_blaster_driver ?E) ?s = Inr t" "blaster_attached fst snd t"
      "net_out t = map (\<lambda>p. if sample_target (take p (tap_view TestLogicReset (rbb_cycles sample_rbb))) then 0x31 else 0x30) ps"
      "rbb_ordinary TestLogicReset sample_rbb \<longrightarrow> ps = rbb_asked 0 sample_rbb" by auto
  from t(4) sample_rbb_asked(1,2) have "ps = [4, 5]" by simp
  with t(1-3) sample_target_shows show ?thesis by auto
qed

text \<open>The jtag_vpi and jtagd servers and the probe on the USB Blaster driver with a target.\<close>

lemma vpi_scan_blaster:
  assumes "blaster_target_live E f taken queue" "blaster_attached taken queue s" "shifting (state s)" "0 \<le> client_fd s"
    and "vpi_holds v got" "call_read E (VPI_SIZE - length got) s = (Some bs, r)" "length (got @ bs) = VPI_SIZE"
    and "vpi_code (vpi_cmd (got @ bs)) = Some (if flip then CMD_SCAN_CHAIN_FLIP_TMS else CMD_SCAN_CHAIN)"
    and "0 < vpi_nb_bits (got @ bs)" "vpi_nb_bits (got @ bs) \<le> 4096"
  shows "\<exists>v' t tdo. jtag_vpi_tick E (usb_blaster_driver E) v s = Inr (v', t) \<and> vpi_holds v' [] \<and> blaster_attached taken queue t \<and>
     client_fd t = client_fd s \<and>
     blaster_wire t = blaster_wire s @ scan_cycles (vpi_buffer_out (got @ bs)) (vpi_nb_bits (got @ bs)) flip True \<and>
     length tdo = 512 \<and> net_out t = net_out s @ write_at (got @ bs) VPI_IN tdo \<and>
     bits_of tdo (vpi_nb_bits (got @ bs)) = tdo_bits f (history (blaster_wire s))
       (tap_view (state s) (scan_cycles (vpi_buffer_out (got @ bs)) (vpi_nb_bits (got @ bs)) flip True))"
proof -
  note live = blaster_live_parts [OF assms(1)] and rest = blaster_attached_rest [OF assms(1)]
  from jtag_driver.vpi_scan_shown [OF wired_driver live(1-3) refl assms(2) [unfolded rest] assms(3-10)]
  show ?thesis unfolding rest .
qed

lemma jtagd_access_ir_blaster:
  assumes "blaster_target_live E f taken queue" "blaster_attached taken queue s" "jtagd_idle j" "command m = 0xC6"
    and "jtag_get_tms_seq (state s) ShiftIR = Inr p" "body_word m 12 = Inr instruction"
  shows "\<exists>x k t path. jtagd_dispatch E (usb_blaster_driver E) m j s = Inr (True, k, t) \<and>
     net_out t = net_out s @ jtagd_frame 0 (response 0 (be32_bytes x)) \<and>
     blaster_wire t = blaster_wire s @ path @ scan_cycles (le32_bytes instruction) 10 True True \<and>
     run_tap (state s) (tms_bits path) = ShiftIR \<and> state t = Exit1IR \<and> blaster_attached taken queue t \<and> jtagd_idle k \<and>
     map (bit x) [0..<10] = tdo_bits f (history (blaster_wire s @ path))
       (tap_view ShiftIR (scan_cycles (le32_bytes instruction) 10 True True))"
proof -
  note live = blaster_live_parts [OF assms(1)] and rest = blaster_attached_rest [OF assms(1)]
  from jtag_driver.access_ir_shown [OF wired_driver live(1-3) refl assms(2) [unfolded rest] assms(3-6)]
  show ?thesis unfolding rest .
qed

lemma jtagd_access_dr_blaster:
  assumes "blaster_target_live E f taken queue" "blaster_attached taken queue s" "jtagd_idle j" "command m = 0xC8"
    and "jtag_get_tms_seq (state s) ShiftDR = Inr p"
    and "body_word m 12 = Inr length_dr" "body_word m 20 = Inr write_length" "body_word m 28 = Inr read_length"
    and "unat write_length div 8 \<le> length (fifos j FIFO_MIN)" "unat write_length div 8 \<le> BUFFER_SIZE"
    and "0 < length_dr" "unat length_dr \<le> SCAN_LIMIT" "unat read_length \<le> 2024"
  shows "\<exists>data k t path. jtagd_dispatch E (usb_blaster_driver E) m j s = Inr (True, k, t) \<and>
     net_out t = net_out s @ dr_reply data \<and> length data = (unat read_length + 7) div 8 \<and>
     blaster_wire t = blaster_wire s @ path @
       scan_cycles (dr_data j (unat write_length div 8)) (unat length_dr) True True \<and>
     run_tap (state s) (tms_bits path) = ShiftDR \<and> state t = Exit1DR \<and> blaster_attached taken queue t \<and> jtagd_idle k \<and>
     fifos k FIFO_MIN = drop (unat write_length div 8) (fifos j FIFO_MIN) \<and>
     shows_tdo f (history (blaster_wire s @ path))
       (tap_view ShiftDR (scan_cycles (dr_data j (unat write_length div 8)) (unat length_dr) True True))
       data (unat length_dr)"
proof -
  note live = blaster_live_parts [OF assms(1)] and rest = blaster_attached_rest [OF assms(1)]
  from jtag_driver.access_dr_shown [OF wired_driver live(1-3) refl assms(2) [unfolded rest] assms(3-13)]
  show ?thesis unfolding rest .
qed

lemma jtagd_read_chain_blaster:
  assumes "blaster_target_live E (chain_tdo ds) taken queue" "blaster_attached taken queue s"
    and "length (concat (map ir_pattern ds)) \<le> MAX_TAPS * MAX_IR" "jtagd_idle j" "command m = 0xA5"
  shows "\<exists>k t. jtagd_dispatch E (usb_blaster_driver E) m j s = Inr (True, k, t) \<and>
     net_out t = net_out s @ chain_reply (if length ds < MAX_TAPS then map idcode ds else []) \<and>
     devices k = (if length ds < MAX_TAPS then map idcode ds else []) \<and> jtagd_idle k \<and> blaster_attached taken queue t"
proof -
  note live = blaster_live_parts [OF assms(1)] and rest = blaster_attached_rest [OF assms(1)]
  from jtag_driver.read_chain_shown [OF wired_driver live(1-3) assms(2) [unfolded rest] refl assms(3-5)]
  show ?thesis unfolding rest .
qed

end
