(* ===== verification/Spec2Isabelle.thy ===== *)
theory Spec2Isabelle
  imports Sessions Xvc_Target Xvc_Blaster Blaster_Servers
begin

text \<open>
  jtag-remote-server: a model of the program under src/ and the theorems that make it correct.

  The program. A process opens a JTAG adapter (a driver: FTDI MPSSE or USB Blaster, chosen by an option)
  and one TCP server (remote bitbang, jtag_vpi, Xilinx virtual cable, or Intel jtagd), and then calls
  the tick of the server until it is stopped. A tick accepts a client or reads from the one it
  has, turns what it received into JTAG operations (\<open>jtag_tms_seq\<close>, \<open>jtag_scan_chain\<close>, ...), and
  answers. The operations keep a software copy of the TAP state of the target (\<open>state\<close>) and call the
  driver, which encodes them as USB bytes. Bit-banging servers cut their streams with
  \<open>analyze_bitbang\<close> into regions outside and inside the shift states.

  Theories, components and sources.
   - \<open>Prelude\<close>: results with faults (\<open>fault\<close>, \<open>bindR\<close>), bit vectors in byte arrays (\<open>bit_at\<close>,
     \<open>read_bit\<close>, \<open>or_bit\<close>, \<open>copy_bits\<close>, \<open>write_at\<close>), byte orders.
   - \<open>Tap\<close>: \<open>next_state\<close>, \<open>state_to_string\<close>, \<open>jtag_get_tms_seq\<close> of src/common.cpp.
   - \<open>Regions\<close>: \<open>struct Region\<close> and \<open>analyze_bitbang\<close>.
   - \<open>Host\<close>: the globals of src/main.cpp as the record \<open>common_state\<close>, and the I/O functions of
     src/common.cpp. libftdi and the socket layer are the parameter \<open>E :: 'w ext\<close>: what each call returns
     as a function of the state \<open>'w\<close> of the outside world. What goes out is logged
     (\<open>usb_out\<close>, \<open>usb_ctl\<close>, \<open>net_out\<close>).
   - \<open>Wire\<close>: the abstract meaning of an adapter: a list of clock cycles with TMS, TDI and capture.
   - \<open>Driver\<close>: \<open>struct driver\<close> as a record of operations; the JTAG operations of src/common.cpp; the
     contract of a driver as the locales \<open>wire_driver\<close>, \<open>jtag_driver\<close> and \<open>pipelined_driver\<close>, and what follows
     from it for every caller (\<open>drives\<close>, \<open>tracks\<close>).
   - \<open>Mpsse_Buffer\<close>, \<open>Mpsse\<close>, \<open>Mpsse_Wire\<close>, \<open>Mpsse_Clock\<close>, \<open>Mpsse_Read\<close>: src/mpsse_buffer.cpp and
     src/mpsse.cpp; a decoder and an interpreter for the MPSSE command stream; every operation
     appends commands that mean exactly the cycles asked for; the locale is interpreted on
     \<open>mpsse_driver\<close>.
   - \<open>Usb_Blaster\<close>, \<open>Usb_Blaster_Wire\<close>, \<open>Usb_Blaster_Link\<close>, \<open>Usb_Blaster_Adapter\<close>, \<open>Usb_Blaster_Scan\<close>: the same for
     src/usb_blaster.cpp. \<open>blaster_link\<close> is the contract between the driver and the adapter, from which the
     contract of a driver follows; \<open>Usb_Blaster_Adapter\<close> interprets it on any adapter.
   - \<open>Probe\<close>: \<open>jtag_probe_devices\<close> on any driver.
   - \<open>Replay\<close>, \<open>Rbb\<close>: src/rbb.cpp; executing the regions shows the target what the client sent.
   - \<open>Servers\<close>: the remote bitbang server and the probe on the two drivers; sample clients.
   - \<open>Xvc\<close>, \<open>Xvc_Run\<close>, \<open>Xvc_Drivers\<close>: src/xvc.cpp; \<open>xvc_script\<close> is the reference parser the tick is
     compared with. \<open>Xvc_Blaster\<close>: what the server does to the USB Blaster driver when it sends two scans.
   - \<open>Vpi\<close>, \<open>Vpi_Drivers\<close>: src/vpi.cpp.
   - \<open>Jtagd\<close>, \<open>Jtagd_Answers\<close>, \<open>Jtagd_Packets\<close>, \<open>Jtagd_Batch\<close>, \<open>Jtagd_Drivers\<close>, \<open>Jtagd_Shape\<close>:
     src/jtagd.cpp; how answers are put together, the packet format, the collected answers and
     their overflow, the commands that use the adapter, the invariant of the server.
   - \<open>Server_Main\<close>, \<open>Sessions\<close>: src/main.cpp; the whole process, and what holds after any number of
     rounds.

   - \<open>Chip\<close>, \<open>Mpsse_Target\<close>, \<open>Mpsse_Pipeline\<close>, \<open>Targets\<close>: an MPSSE chip with a JTAG target behind it as the
     outside world, and the contract of a driver once more for \<open>mpsse_driver\<close> in this world, now with
     what is read back and with several scans under way at once (\<open>chip_owes\<close>); the remote bitbang server in it.
   - \<open>Blaster_Target\<close>: the same for the USB Blaster (\<open>blaster_chip\<close>), as an interpretation of \<open>blaster_link\<close>.
   - \<open>Chain\<close>, \<open>Answers\<close>: a chain of IEEE 1149.1 devices as a target and \<open>jtag_probe_devices\<close> in front of it; the
     answers of the jtag_vpi and jtagd servers on any driver with a target.
   - \<open>Target_Servers\<close>, \<open>Xvc_Target\<close>, \<open>Blaster_Servers\<close>: the servers with a target behind the MPSSE chip, and behind
     the USB Blaster.

  What the groups of lemmas show. Each driver refines the wire: whatever its operations are given in
  bounds, it does not fault, and when USB works the cycles on the wire grow by exactly those asked
  for, and captured bits come back unchanged. On top of any driver that keeps this contract, the
  servers are shown equivalent to replaying the client's bits (remote bitbang, virtual cable),
  to execute and answer single commands (jtag_vpi, jtagd), and the software state is shown to agree with
  the TAP. With a target behind the adapter the circle is closed: what the remote bitbang, jtag_vpi and
  jtagd clients (and with MPSSE the virtual cable clients) are told are exactly the TDO levels the target
  shows in the cycles they asked for, and the probe finds exactly the devices of the chain. Where the code does not do what it means to, a theorem says exactly when and what.

  Bounds and fuel. The waits of the source without a bound (draining the USB Blaster) follow at most
  \<open>ext_polls E\<close> steps, and the theorems show that this is enough for an adapter whose queue is
  finite. The parse loop of the virtual cable has fuel \<open>BUFFER_SIZE + 1\<close>: every round consumes at
  least eight bytes of a buffer of \<open>BUFFER_SIZE\<close> bytes, and the theorems show that it ends. \<open>SCAN_LIMIT\<close>
  (32704 bits) is the longest scan both drivers take, \<open>CLOCK_LIMIT\<close> (524288 cycles) the longest
  clocking. The number of rounds of \<open>main_loop\<close> stands for the moment the signal arrives.

  The target. A target is a function \<open>f\<close>: TDO in a clock cycle as a function of what its TAP
  controller has seen in the cycles before (TMS, and TDI in the cycles that shift). The chip
  (\<open>mpsse_chip\<close>) executes the commands of the byte stream as they become complete, and queues for each
  reading command what the target shows, in the layout of the FTDI command processor
  (\<open>answers\<close>); USB returns the queue in order, in non-empty pieces of any size. The USB Blaster
  (\<open>blaster_chip\<close>) answers a pin command with bit 6 set with a byte whose bit 0 is the TDO level, and a
  capturing byte-shift packet with one bit per cycle (\<open>tells\<close>). The client connection does not act on the
  adapter. \<open>target_ext\<close> and \<open>blaster_target_ext\<close> are such worlds that can be run, in which the examples
  are.

  Not modelled. Latencies of the chip: it answers a command with the transfer that completes it; a
  bound on its queue. A target whose TDO depends on TDI outside the shift states or on time. Console output (\<open>printf\<close>, \<open>dprintf\<close>, \<open>print_bitvec\<close>, the speed display
  and the clock it reads): it changes no state. \<open>sread\<close> and \<open>swrite\<close> of src/xvc.cpp: nothing calls
  them. \<open>getopt\<close>: the model starts from the options it delivers. Assertions are modelled as enabled:
  several have side effects that a build without them would lose.

  Where the model is more permissive than the hardware or the language. \<open>mpsse_jtag_tms_seq\<close> sends up to
  eight TMS bits in one command 0x4B, while FTDI documents at most seven, with bit 7 of the data as the
  TDI level; the chip of the specification (\<open>cmd_cycles\<close>, \<open>Chip\<close>) clocks all eight, with bit 7 both the
  last TMS bit and TDI. What the theorems say of TMS sequences of eight bits and more rests on a chip that
  does so. \<open>pop_fifo\<close> of length 0 on an empty fifo takes the address of the first element of an
  empty vector (src/jtagd.cpp) and reads nothing there: modelled as success. The uninitialised part of the
  three arrays of the remote bitbang tick (src/rbb.cpp) has one indeterminate content for all
  three; the theorems hold for any such content. The loop counters of \<open>analyze_bitbang\<close> are natural numbers, as the
  arrays have 4096 bytes. A write to a client that has left fails and the server goes on: SIGPIPE is
  ignored by \<open>main\<close>.
\<close>

end
